(* ===== verification/ZN_Prelude.thy ===== *)
theory ZN_Prelude
  imports Main "HOL-Library.Word" "HOL-Library.AList" "HOL-Library.Multiset"
begin

text \<open>
  Shared vocabulary of the ZNCache development: the C integer types, the result type of
  operations that can fault, checked array access, and the list, map and word lemmas the
  components use.

  Conventions. C struct fields are local to their struct while record selectors are global,
  so every field carries a short prefix of its struct (\<open>zp_zone\<close> is \<open>zn_pair.zone\<close>).
  A pointer into an array is the index of the element; a pointer to a malloc'ed object is an
  address of type \<open>ptr\<close>, never reused, and \<open>None\<close> is \<open>NULL\<close>. Allocation succeeds.
  GLib's containers are represented by the values they hold: a \<open>GQueue\<close> is the list of its
  elements from head to tail, a \<open>GHashTable\<close> a finite map.
\<close>

section \<open>Types\<close>

type_synonym u8 = "8 word"
type_synonym u32 = "32 word"
type_synonym u64 = "64 word"
type_synonym ptr = nat

text \<open>
  What stops a run other than a return: a failed \<open>assert\<close> (in builds with assertions), a
  dereference of \<open>NULL\<close> or of a dead object, an access outside an array, a read of memory that
  was never written, an integer division by zero, a call of \<open>exit\<close>. \<open>Blocked\<close> is a wait that only another thread can end;
  \<open>Out_Of_Fuel\<close> says that the bound the model puts on a loop was reached.
\<close>

datatype zn_error =
    Assert_Failed
  | Null_Deref
  | Bad_Pointer
  | Out_Of_Bounds
  | Uninit_Read
  | Div_By_Zero
  | Program_Exit int
  | Blocked
  | Out_Of_Fuel

type_synonym 'a res = "zn_error + 'a"

text \<open>A memory cell whose content may be indeterminate, as after \<open>malloc\<close> or \<open>g_new\<close>.\<close>

datatype 'a cell = Indet | Init 'a

section \<open>Results\<close>

definition bind_res :: "'a res \<Rightarrow> ('a \<Rightarrow> 'b res) \<Rightarrow> 'b res" where
  "bind_res m f = (case m of Inl e \<Rightarrow> Inl e | Inr x \<Rightarrow> f x)"

text \<open>
  \<open>assert(p)\<close>: compiled away when \<open>NDEBUG\<close> is defined (meson option \<open>ASSERTS\<close> off),
  otherwise the program aborts when \<open>p\<close> is false.
\<close>

definition c_assert :: "bool \<Rightarrow> bool \<Rightarrow> 'a res \<Rightarrow> 'a res" where
  "c_assert ndebug p k = (if ndebug \<or> p then k else Inl Assert_Failed)"

definition arr_get :: "'a list \<Rightarrow> nat \<Rightarrow> 'a res" where
  "arr_get xs i = (if i < length xs then Inr (xs ! i) else Inl Out_Of_Bounds)"

definition arr_set :: "'a list \<Rightarrow> nat \<Rightarrow> 'a \<Rightarrow> 'a list res" where
  "arr_set xs i v = (if i < length xs then Inr (xs[i := v]) else Inl Out_Of_Bounds)"

definition read_cell :: "'a cell \<Rightarrow> 'a res" where
  "read_cell c = (case c of Indet \<Rightarrow> Inl Uninit_Read | Init x \<Rightarrow> Inr x)"

definition deref :: "('k \<rightharpoonup> 'v) \<Rightarrow> 'k \<Rightarrow> 'v res" where
  "deref m p = (case m p of None \<Rightarrow> Inl Bad_Pointer | Some v \<Rightarrow> Inr v)"

named_theorems res_simps \<open>evaluation and inversion of results\<close>

lemma bind_res_Inr [simp]: "bind_res (Inr x) f = f x"
  by (simp add: bind_res_def)

lemma bind_res_Inl [simp]: "bind_res (Inl e) f = Inl e"
  by (simp add: bind_res_def)

lemma bind_res_eq_Inr [res_simps]:
  "bind_res m f = Inr y \<longleftrightarrow> (\<exists>x. m = Inr x \<and> f x = Inr y)"
  by (cases m) auto

lemma bind_res_assoc: "bind_res (bind_res m f) g = bind_res m (\<lambda>x. bind_res (f x) g)"
  by (cases m) auto

lemma c_assert_True [simp]: "c_assert nd True k = k"
  by (simp add: c_assert_def)

lemma c_assert_ndebug [simp]: "c_assert True p k = k"
  by (simp add: c_assert_def)

lemma c_assert_False [simp]: "c_assert False False k = Inl Assert_Failed"
  by (simp add: c_assert_def)

lemma c_assert_eq_Inr [res_simps]: "c_assert nd p k = Inr y \<longleftrightarrow> (nd \<or> p) \<and> k = Inr y"
  by (simp add: c_assert_def)

lemma arr_get_eq_Inr [res_simps]: "arr_get xs i = Inr x \<longleftrightarrow> i < length xs \<and> x = xs ! i"
  by (auto simp: arr_get_def)

lemma arr_get_ok [simp]: "i < length xs \<Longrightarrow> arr_get xs i = Inr (xs ! i)"
  by (simp add: arr_get_def)

lemma arr_set_eq_Inr [res_simps]: "arr_set xs i v = Inr ys \<longleftrightarrow> i < length xs \<and> ys = xs[i := v]"
  by (auto simp: arr_set_def)

lemma arr_set_ok [simp]: "i < length xs \<Longrightarrow> arr_set xs i v = Inr (xs[i := v])"
  by (simp add: arr_set_def)

lemma deref_eq_Inr [res_simps]: "deref m p = Inr v \<longleftrightarrow> m p = Some v"
  by (auto simp: deref_def split: option.splits)

lemma deref_Some [simp]: "m p = Some v \<Longrightarrow> deref m p = Inr v"
  by (simp add: deref_def)

lemma read_cell_simps [simp]: "read_cell (Init x) = Inr x" "read_cell Indet = Inl Uninit_Read"
  by (simp_all add: read_cell_def)

section \<open>Lists\<close>

text \<open>Exchange of two elements, as the three assignments through \<open>tmp\<close> do.\<close>

lemma list_swap_nth:
  "i < length xs \<Longrightarrow> j < length xs \<Longrightarrow>
   xs[i := xs ! j, j := xs ! i] ! k = xs ! (if k = i then j else if k = j then i else k)"
  by (cases "k < length xs") (auto simp: nth_list_update)

lemma list_swap_ex:
  assumes "i < n" "j < n" "n \<le> length xs"
  shows "(\<exists>k<n. xs[i := xs ! j, j := xs ! i] ! k = y) \<longleftrightarrow> (\<exists>k<n. xs ! k = y)"
proof -
  have len: "i < length xs" "j < length xs" using assms by simp_all
  have "\<exists>k<n. xs ! k = y" if "k < n" "xs[i := xs ! j, j := xs ! i] ! k = y" for k
    using that assms by (auto simp only: list_swap_nth [OF len] split: if_splits)
  moreover have "\<exists>k<n. xs[i := xs ! j, j := xs ! i] ! k = y" if "k < n" "xs ! k = y" for k
    by (rule exI [of _ "if k = i then j else if k = j then i else k"])
      (use that assms in \<open>auto simp only: list_swap_nth [OF len] split: if_splits\<close>)
  ultimately show ?thesis by blast
qed

section \<open>Words\<close>

lemma unat_inc [simp]: "unat x + 1 < 2 ^ LENGTH('a) \<Longrightarrow> unat (x + 1 :: 'a::len word) = unat x + 1"
  by (simp add: unat_word_ariths)

lemma unat_inc_less: "x < y \<Longrightarrow> unat (x + 1 :: 'a::len word) = unat x + 1"
proof -
  assume "x < y"
  moreover have "unat y < 2 ^ LENGTH('a)" by (rule unsigned_less)
  ultimately show ?thesis by (intro unat_inc) (simp only: word_less_nat_alt)
qed

lemma unat_inject [simp]: "unat (x :: 'a::len word) = unat y \<longleftrightarrow> x = y"
  by (simp add: word_unat_eq_iff)

lemma unat_dec: "0 < (x :: 'a::len word) \<Longrightarrow> unat (x - 1) = unat x - 1"
  by (simp add: unat_minus_one word_gt_0)

lemma unat_mult_64:
  "unat x * unat y < 18446744073709551616 \<Longrightarrow> unat (x * y :: u64) = unat x * unat y"
  by (simp add: unat_word_ariths)

lemma unat_add_64:
  "unat x + unat y < 18446744073709551616 \<Longrightarrow> unat (x + y :: u64) = unat x + unat y"
  by (simp add: unat_word_ariths)

lemma sint_eq_unat_64:
  assumes "unat x < 2 ^ 63"
  shows "sint (x :: u64) = int (unat x)"
proof -
  have u: "uint x = int (unat x)" by simp
  have "int (unat x) < int (2 ^ 63)" using assms by (simp only: of_nat_less_iff)
  then have "uint x < 2 ^ 63" by simp
  moreover have "- (2 ^ 63) \<le> uint x" using uint_ge_0 [of x] by (rule order.trans [rotated]) simp
  ultimately have "signed_take_bit 63 (uint x) = uint x" by (intro signed_take_bit_int_eq_self)
  then show ?thesis by (simp add: sint_uint)
qed

lemma unat_of_nat_u32: "n < 2 ^ 32 \<Longrightarrow> unat (of_nat n :: u32) = n"
  by (simp add: unat_of_nat take_bit_nat_eq_self)

lemma unat_u32_lt [simp]: "unat (x :: u32) < 4294967296"
  using unsigned_less [of x] by simp

lemma unat_ucast_u32_u64 [simp]: "unat (ucast (x :: u32) :: u64) = unat x"
proof -
  have "unat x < 2 ^ 64" using unat_u32_lt [of x] by (rule less_trans) simp
  then show ?thesis by (simp add: unsigned_ucast_eq take_bit_nat_eq_self)
qed

lemma ucast_u32_u64_inject [simp]: "(ucast (x :: u32) :: u64) = ucast y \<longleftrightarrow> x = y"
  by (metis unat_ucast_u32_u64 word_unat_eq_iff)

lemma unat_of_nat_less: "n \<le> unat (x :: 'a::len word) \<Longrightarrow> unat (of_nat n :: 'a word) = n"
proof -
  assume "n \<le> unat x"
  moreover have "unat x < 2 ^ LENGTH('a)" by (rule unsigned_less)
  ultimately have "n < 2 ^ LENGTH('a)" by (rule le_less_trans)
  then show ?thesis by (simp only: unsigned_of_nat take_bit_nat_eq_self of_nat_id)
qed

end
