(* ===== verification/ZN_Backend.thy ===== *)
theory ZN_Backend
  imports ZN_Prelude
begin

text \<open>
  The vocabulary shared by every component: the backends and locations of
  \<open>include/znbackend.h\<close>, the on-disk address computation of \<open>include/znutil.h\<close>, the
  build-time options of \<open>meson_options.txt\<close> that the C code reads as macros, and the device
  interface (libzbd and POSIX positioned I/O), which is code outside the repository and therefore
  a parameter: every definition that reaches the device takes a record \<open>dev_ops\<close> of the calls
  and threads an abstract device state through them.
\<close>

section \<open>Backends, locations and options\<close>

datatype zn_backend = ZE_BACKEND_ZNS | ZE_BACKEND_BLOCK

text \<open>The kinds of access and of eviction policy, from \<open>include/eviction_policy.h\<close>.\<close>

datatype zn_io_type = ZN_READ | ZN_WRITE

datatype zn_evict_policy_type = ZN_EVICT_ZONE | ZN_EVICT_PROMOTE_ZONE | ZN_EVICT_CHUNK

record zn_pair =
  zp_zone :: u32
  zp_chunk_offset :: u32
  zp_id :: u32
  zp_in_use :: bool

text \<open>A location as \<open>zsm_get_active_zone\<close> writes it.\<close>

definition pair_at :: "u32 \<Rightarrow> u32 \<Rightarrow> zn_pair" where
  "pair_at z c = \<lparr>zp_zone = z, zp_chunk_offset = c, zp_id = 0, zp_in_use = False\<rparr>"

definition CHUNK_POINTER :: "u64 \<Rightarrow> u64 \<Rightarrow> u32 \<Rightarrow> u32 \<Rightarrow> u64" where
  "CHUNK_POINTER z_sz c_sz c_num z_num = z_sz * ucast z_num + ucast c_num * c_sz"

record zn_config =
  NDEBUG :: bool
  EVICT_HIGH_THRESH_ZONES :: u32
  EVICT_LOW_THRESH_ZONES :: u32
  EVICT_HIGH_THRESH_CHUNKS :: u32
  EVICT_LOW_THRESH_CHUNKS :: u32
  MAX_IO :: u64

text \<open>The defaults of \<open>meson_options.txt\<close>.\<close>

definition default_config :: zn_config where
  "default_config = \<lparr>NDEBUG = True, EVICT_HIGH_THRESH_ZONES = 2, EVICT_LOW_THRESH_ZONES = 4,
     EVICT_HIGH_THRESH_CHUNKS = 6, EVICT_LOW_THRESH_CHUNKS = 12, MAX_IO = 0\<rparr>"

section \<open>The device\<close>

text \<open>
  A call takes the file descriptor, its arguments and the device, and returns what the C function
  returns together with the new device. \<open>dev_pread\<close> also returns the bytes it stored at the start
  of the caller's buffer.
\<close>

record 'dev dev_ops =
  zbd_open_zones :: "int \<Rightarrow> u64 \<Rightarrow> u64 \<Rightarrow> 'dev \<Rightarrow> int \<times> 'dev"
  zbd_finish_zones :: "int \<Rightarrow> u64 \<Rightarrow> u64 \<Rightarrow> 'dev \<Rightarrow> int \<times> 'dev"
  zbd_reset_zones :: "int \<Rightarrow> u64 \<Rightarrow> u64 \<Rightarrow> 'dev \<Rightarrow> int \<times> 'dev"
  dev_pread :: "int \<Rightarrow> u64 \<Rightarrow> u64 \<Rightarrow> 'dev \<Rightarrow> int \<times> u8 list \<times> 'dev"
  dev_pwrite :: "int \<Rightarrow> u8 list \<Rightarrow> u64 \<Rightarrow> 'dev \<Rightarrow> int \<times> 'dev"

text \<open>
  The documented behaviour of the calls, over a function \<open>content\<close> that gives the byte at each
  device address: a positioned write changes no byte outside its range and, when it reports the
  full count, stores the bytes; a read changes nothing and, when it reports the full count,
  returns the stored bytes; opening and finishing a zone keep the data; a reset may lose the data
  of the range it is given.
\<close>

definition pwrite_ok :: "'dev dev_ops \<Rightarrow> ('dev \<Rightarrow> nat \<Rightarrow> u8) \<Rightarrow> bool" where
  "pwrite_ok ops content \<longleftrightarrow> (\<forall>fd bs off d r d'. dev_pwrite ops fd bs off d = (r, d') \<longrightarrow>
     (\<forall>a. a < unat off \<or> unat off + length bs \<le> a \<longrightarrow> content d' a = content d a) \<and>
     (r = int (length bs) \<longrightarrow> (\<forall>i < length bs. content d' (unat off + i) = bs ! i)))"

definition pread_ok :: "'dev dev_ops \<Rightarrow> ('dev \<Rightarrow> nat \<Rightarrow> u8) \<Rightarrow> bool" where
  "pread_ok ops content \<longleftrightarrow> (\<forall>fd n off d r bs d'. dev_pread ops fd n off d = (r, bs, d') \<longrightarrow>
     content d' = content d \<and>
     (r = int (unat n) \<longrightarrow> bs = map (\<lambda>i. content d (unat off + i)) [0..<unat n]))"

definition zbd_keeps_data :: "'dev dev_ops \<Rightarrow> ('dev \<Rightarrow> nat \<Rightarrow> u8) \<Rightarrow> bool" where
  "zbd_keeps_data ops content \<longleftrightarrow>
     (\<forall>fd off len d. content (snd (zbd_open_zones ops fd off len d)) = content d) \<and>
     (\<forall>fd off len d. content (snd (zbd_finish_zones ops fd off len d)) = content d) \<and>
     (\<forall>fd off len d a. a < unat off \<or> unat off + unat len \<le> a \<longrightarrow>
        content (snd (zbd_reset_zones ops fd off len d)) a = content d a)"

text \<open>An in-memory device, on which the hypotheses hold.\<close>

definition ram_ops :: "(nat \<Rightarrow> u8) dev_ops" where
  "ram_ops = \<lparr>zbd_open_zones = (\<lambda>_ _ _ d. (0, d)), zbd_finish_zones = (\<lambda>_ _ _ d. (0, d)),
     zbd_reset_zones = (\<lambda>_ _ _ d. (0, d)),
     dev_pread = (\<lambda>_ n off d. (int (unat n), map (\<lambda>i. d (unat off + i)) [0..<unat n], d)),
     dev_pwrite = (\<lambda>_ bs off d. (int (length bs),
       \<lambda>a. if unat off \<le> a \<and> a < unat off + length bs then bs ! (a - unat off) else d a))\<rparr>"

lemma ram_ops_ok:
  "pwrite_ok ram_ops (\<lambda>d. d)" "pread_ok ram_ops (\<lambda>d. d)" "zbd_keeps_data ram_ops (\<lambda>d. d)"
  by (auto simp: pwrite_ok_def pread_ok_def zbd_keeps_data_def ram_ops_def)

section \<open>Chunk addresses\<close>

text \<open>
  Geometry of a device: zones of \<open>z_sz\<close> bytes of which the first \<open>cap\<close> are usable, \<open>nz\<close> of
  them within the 64-bit address space; chunk size positive.
\<close>

definition geometry_ok :: "u64 \<Rightarrow> u64 \<Rightarrow> u64 \<Rightarrow> nat \<Rightarrow> bool" where
  "geometry_ok z_sz cap c_sz nz \<longleftrightarrow>
     0 < unat c_sz \<and> unat cap \<le> unat z_sz \<and> nz * unat z_sz \<le> 2 ^ 64"

lemma chunk_in_zone:
  assumes "geometry_ok z_sz cap c_sz nz" "c < unat cap div unat c_sz"
  shows "c * unat c_sz + unat c_sz \<le> unat cap"
proof -
  have "(c + 1) * unat c_sz \<le> unat cap div unat c_sz * unat c_sz"
    using assms(2) by (intro mult_le_mono1) simp
  also have "\<dots> \<le> unat cap" by simp
  finally show ?thesis by (simp add: algebra_simps)
qed

lemma mult_separate: "(z :: nat) < z' \<Longrightarrow> z * s + s \<le> z' * s"
  by (metis Suc_leI add.commute mult_Suc mult_le_mono1)

lemma zone_in_device:
  assumes "geometry_ok z_sz cap c_sz nz" "z < nz"
  shows "z * unat z_sz + unat z_sz \<le> 2 ^ 64"
  using mult_separate [OF assms(2), of "unat z_sz"] assms(1) unfolding geometry_ok_def by linarith

lemma CHUNK_POINTER_unat:
  assumes g: "geometry_ok z_sz cap c_sz nz" and z: "unat z < nz"
    and c: "unat c < unat cap div unat c_sz"
  shows "unat (CHUNK_POINTER z_sz c_sz c z) = unat z * unat z_sz + unat c * unat c_sz"
proof -
  have b: "unat z * unat z_sz + unat z_sz \<le> 2 ^ 64" using zone_in_device [OF g z] .
  have e: "unat c * unat c_sz + unat c_sz \<le> unat cap" using chunk_in_zone [OF g c] .
  have g': "0 < unat c_sz" "unat cap \<le> unat z_sz" using g by (simp_all add: geometry_ok_def)
  have lt: "unat z * unat z_sz + unat c * unat c_sz < 2 ^ 64" using b e g' by linarith
  have "unat z * unat z_sz < 2 ^ 64" "unat c * unat c_sz < 2 ^ 64" using lt by linarith+
  then have "unat (z_sz * ucast z) = unat z * unat z_sz" "unat (ucast c * c_sz) = unat c * unat c_sz"
    by (simp_all add: unat_mult_64 mult.commute)
  with lt show ?thesis by (simp add: CHUNK_POINTER_def unat_add_64)
qed

lemma chunks_disjoint:
  assumes g: "geometry_ok z_sz cap c_sz nz" and ne: "(z, c) \<noteq> (z', c')"
    and z: "unat z < nz" "unat z' < nz"
    and c: "unat c < unat cap div unat c_sz" "unat c' < unat cap div unat c_sz"
    and i: "i < unat c_sz" "j < unat c_sz"
  shows "unat (CHUNK_POINTER z_sz c_sz c z) + i \<noteq> unat (CHUNK_POINTER z_sz c_sz c' z') + j"
proof -
  have e: "unat c * unat c_sz + unat c_sz \<le> unat z_sz" "unat c' * unat c_sz + unat c_sz \<le> unat z_sz"
    using chunk_in_zone [OF g] c g by (auto simp: geometry_ok_def intro: order.trans)
  consider "unat z < unat z'" | "unat z' < unat z" | "z = z'" "unat c < unat c'" | "z = z'" "unat c' < unat c"
    using ne by (metis linorder_neqE_nat unat_inject)
  then show ?thesis
    unfolding CHUNK_POINTER_unat [OF g z(1) c(1)] CHUNK_POINTER_unat [OF g z(2) c(2)]
    using e i mult_separate [of "unat z" "unat z'" "unat z_sz"] mult_separate [of "unat z'" "unat z" "unat z_sz"]
      mult_separate [of "unat c" "unat c'" "unat c_sz"] mult_separate [of "unat c'" "unat c" "unat c_sz"]
    by cases auto
qed

section \<open>Properties\<close>

text \<open>C26. The byte ranges that \<open>CHUNK_POINTER\<close> gives to two different (zone, chunk) locations of
  the device do not overlap, and each lies inside the usable part of its own zone: the 64-bit
  address arithmetic neither wraps nor reaches into a neighbour.\<close>

theorem chunk_ranges_disjoint:
  assumes "geometry_ok z_sz cap c_sz nz" and "unat z < nz" and "unat z' < nz"
    and "unat c < unat cap div unat c_sz" and "unat c' < unat cap div unat c_sz"
    and "(z, c) \<noteq> (z', c')"
  shows "{unat (CHUNK_POINTER z_sz c_sz c z) ..< unat (CHUNK_POINTER z_sz c_sz c z) + unat c_sz} \<inter>
      {unat (CHUNK_POINTER z_sz c_sz c' z') ..< unat (CHUNK_POINTER z_sz c_sz c' z') + unat c_sz} = {} \<and>
    unat z * unat z_sz \<le> unat (CHUNK_POINTER z_sz c_sz c z) \<and>
    unat (CHUNK_POINTER z_sz c_sz c z) + unat c_sz \<le> unat z * unat z_sz + unat cap"
proof (intro conjI)
  show "{unat (CHUNK_POINTER z_sz c_sz c z) ..< unat (CHUNK_POINTER z_sz c_sz c z) + unat c_sz} \<inter>
      {unat (CHUNK_POINTER z_sz c_sz c' z') ..< unat (CHUNK_POINTER z_sz c_sz c' z') + unat c_sz} = {}"
  proof (rule Int_emptyI)
    fix a assume a: "a \<in> {unat (CHUNK_POINTER z_sz c_sz c z) ..< unat (CHUNK_POINTER z_sz c_sz c z) + unat c_sz}"
      "a \<in> {unat (CHUNK_POINTER z_sz c_sz c' z') ..< unat (CHUNK_POINTER z_sz c_sz c' z') + unat c_sz}"
    let ?i = "a - unat (CHUNK_POINTER z_sz c_sz c z)" and ?j = "a - unat (CHUNK_POINTER z_sz c_sz c' z')"
    have "?i < unat c_sz" "?j < unat c_sz" using a by auto
    from chunks_disjoint [OF assms(1,6,2,3,4,5) this] a show False by auto
  qed
  show "unat z * unat z_sz \<le> unat (CHUNK_POINTER z_sz c_sz c z)"
    and "unat (CHUNK_POINTER z_sz c_sz c z) + unat c_sz \<le> unat z * unat z_sz + unat cap"
    unfolding CHUNK_POINTER_unat [OF assms(1,2,4)] using chunk_in_zone [OF assms(1,4)] by simp_all
qed

theorem chunk_ranges_disjoint_witness:
  "{unat (CHUNK_POINTER 1048576 524288 1 0) ..< unat (CHUNK_POINTER 1048576 524288 1 0) + 524288} \<inter>
   {unat (CHUNK_POINTER 1048576 524288 0 1) ..< unat (CHUNK_POINTER 1048576 524288 0 1) + 524288} = {}"
  using chunk_ranges_disjoint [of 1048576 1048576 524288 14 0 1 1 0]
  by (simp add: geometry_ok_def)

end
