(* ===== verification/ZN_Disk.thy ===== *)
theory ZN_Disk
  imports ZN_Backend
begin

text \<open>
  Chunk I/O of \<open>src/cache.c\<close>: \<open>zn_read_from_disk\<close> and \<open>zn_write_out\<close> with their retry
  loops, and the generation and validation of chunk data. Sleeping between retries has no effect
  on the state and is not represented.
\<close>

unbundle bit_operations_syntax

section \<open>Operations\<close>

definition ZN_DIRECT_ALIGNMENT :: u64 where
  "ZN_DIRECT_ALIGNMENT = 4096"

text \<open>
  \<open>BACKOFF_RETRIES\<close> is 5 where \<open>zn_read_from_disk\<close> uses it and is redefined to 8 before
  \<open>zn_write_out\<close>.
\<close>

definition BACKOFF_RETRIES_READ :: nat where
  "BACKOFF_RETRIES_READ = 5"

definition BACKOFF_RETRIES_WRITE :: nat where
  "BACKOFF_RETRIES_WRITE = 8"

text \<open>
  The inner loop of \<open>zn_read_from_disk\<close>: try the read until it reports the full count, at most
  \<open>tries\<close> times.
\<close>

fun pread_retry :: "'dev dev_ops \<Rightarrow> int \<Rightarrow> u64 \<Rightarrow> u64 \<Rightarrow> nat \<Rightarrow> 'dev \<Rightarrow> u8 list option \<times> 'dev" where
  "pread_retry ops fd n off 0 d = (None, d)"
| "pread_retry ops fd n off (Suc tries) d =
     (let (r, bs, d') = dev_pread ops fd n off d in
      if r = sint n then (Some bs, d') else pread_retry ops fd n off tries d')"

text \<open>
  The outer loop, with the bytes read so far. It makes no progress when \<open>max_io\<close> is 0, so the
  number of iterations is bounded by \<open>fuel\<close>; \<open>read_loop_ok\<close> shows that one more than the chunk
  size suffices for a positive \<open>max_io\<close>.
\<close>

fun read_loop :: "'dev dev_ops \<Rightarrow> int \<Rightarrow> u64 \<Rightarrow> u64 \<Rightarrow> u64 \<Rightarrow> nat \<Rightarrow> u64 \<Rightarrow> u8 list \<Rightarrow> 'dev \<Rightarrow>
    (u8 list option \<times> 'dev) res" where
  "read_loop ops fd chunk_sz max_io wp 0 total_read data d = Inl Out_Of_Fuel"
| "read_loop ops fd chunk_sz max_io wp (Suc fuel) total_read data d =
     (if total_read < chunk_sz then
        let to_read = (if max_io < chunk_sz - total_read then max_io else chunk_sz - total_read) in
        case pread_retry ops fd to_read (wp + total_read) BACKOFF_RETRIES_READ d of
          (None, d') \<Rightarrow> Inr (None, d')
        | (Some bs, d') \<Rightarrow>
            read_loop ops fd chunk_sz max_io wp fuel (total_read + to_read) (data @ bs) d'
      else Inr (Some data, d))"

definition zn_read_from_disk :: "'dev dev_ops \<Rightarrow> int \<Rightarrow> u64 \<Rightarrow> u64 \<Rightarrow> u64 \<Rightarrow> zn_pair \<Rightarrow> 'dev \<Rightarrow>
    (u8 list option \<times> 'dev) res" where
  "zn_read_from_disk ops fd chunk_sz io_size zone_size zone_pair d =
     (let align = ZN_DIRECT_ALIGNMENT in
      if chunk_sz mod align \<noteq> 0 \<or> io_size mod align \<noteq> 0 then Inr (None, d)
      else
        let wp = CHUNK_POINTER zone_size chunk_sz (zp_chunk_offset zone_pair) (zp_zone zone_pair) in
        if wp mod align \<noteq> 0 then Inr (None, d)
        else read_loop ops fd chunk_sz io_size wp (Suc (unat chunk_sz)) 0 [] d)"

fun pwrite_retry :: "'dev dev_ops \<Rightarrow> int \<Rightarrow> u8 list \<Rightarrow> u64 \<Rightarrow> u64 \<Rightarrow> nat \<Rightarrow> 'dev \<Rightarrow> bool \<times> 'dev" where
  "pwrite_retry ops fd bs n off 0 d = (False, d)"
| "pwrite_retry ops fd bs n off (Suc tries) d =
     (let (r, d') = dev_pwrite ops fd bs off d in
      if r = sint n then (True, d') else pwrite_retry ops fd bs n off tries d')"

text \<open>
  The block size is the lesser of the remaining bytes and \<open>write_size\<close>, compared as signed
  64-bit values. A block beyond the end of the caller's buffer is an access out of bounds.
\<close>

fun write_loop :: "bool \<Rightarrow> 'dev dev_ops \<Rightarrow> int \<Rightarrow> u64 \<Rightarrow> u8 list \<Rightarrow> u64 \<Rightarrow> u64 \<Rightarrow> nat \<Rightarrow> u64 \<Rightarrow> 'dev \<Rightarrow>
    (int \<times> 'dev) res" where
  "write_loop nd ops fd to_write buffer write_size wp_start 0 total_written d = Inl Out_Of_Fuel"
| "write_loop nd ops fd to_write buffer write_size wp_start (Suc fuel) total_written d =
     (if total_written < to_write then
        let remaining = to_write - total_written;
            chunk_size = (if sint remaining < sint write_size then remaining else write_size) in
        if length buffer < unat total_written + unat chunk_size then Inl Out_Of_Bounds
        else
          case pwrite_retry ops fd (take (unat chunk_size) (drop (unat total_written) buffer))
                 chunk_size (wp_start + total_written) BACKOFF_RETRIES_WRITE d of
            (False, d') \<Rightarrow> Inr (-1, d')
          | (True, d') \<Rightarrow>
              write_loop nd ops fd to_write buffer write_size wp_start fuel (total_written + chunk_size) d'
      else c_assert nd (total_written = to_write) (Inr (0, d)))"

definition zn_write_out :: "bool \<Rightarrow> 'dev dev_ops \<Rightarrow> int \<Rightarrow> u64 \<Rightarrow> u8 list \<Rightarrow> u64 \<Rightarrow> u64 \<Rightarrow> 'dev \<Rightarrow>
    (int \<times> 'dev) res" where
  "zn_write_out nd ops fd to_write buffer write_size wp_start d =
     write_loop nd ops fd to_write buffer write_size wp_start (Suc (unat to_write)) 0 d"

text \<open>The four bytes of a 32-bit value in memory, lowest first, and the value back.\<close>

definition bytes_of_u32 :: "u32 \<Rightarrow> u8 list" where
  "bytes_of_u32 x = map (\<lambda>k. ucast (drop_bit (8 * k) x)) [0..<4]"

definition u32_of_bytes :: "u8 list \<Rightarrow> u32" where
  "u32_of_bytes bs = foldr (\<lambda>b x. ucast b OR push_bit 8 x) (take 4 bs) 0"

definition zn_gen_write_buffer :: "u64 \<Rightarrow> u32 \<Rightarrow> u8 list \<Rightarrow> u8 list res" where
  "zn_gen_write_buffer chunk_sz zone_id buffer =
     (if length buffer < unat chunk_sz then Inl Out_Of_Bounds
      else
        let data = take (unat chunk_sz) buffer in
        if length data < 4 then Inl Out_Of_Bounds
        else Inr (bytes_of_u32 zone_id @ drop 4 data))"

text \<open>
  The comparison loop counts in 32 bits against a 64-bit size, so it does not end on a chunk of
  \<open>2 ^ 32\<close> bytes or more that compares equal; \<open>fuel\<close> bounds it.
\<close>

fun validate_loop :: "u64 \<Rightarrow> u8 list \<Rightarrow> u8 list \<Rightarrow> nat \<Rightarrow> u32 \<Rightarrow> int res" where
  "validate_loop chunk_sz data compare_buffer 0 i = Inl Out_Of_Fuel"
| "validate_loop chunk_sz data compare_buffer (Suc fuel) i =
     (if ucast i < chunk_sz then
        bind_res (arr_get data (unat i)) (\<lambda>x.
        bind_res (arr_get compare_buffer (unat i)) (\<lambda>y.
          if x \<noteq> y then Inr (-1) else validate_loop chunk_sz data compare_buffer fuel (i + 1)))
      else Inr 0)"

definition zn_validate_read :: "u64 \<Rightarrow> u8 list \<Rightarrow> u32 \<Rightarrow> u8 list \<Rightarrow> int res" where
  "zn_validate_read chunk_sz data data_id compare_buffer =
     (if length data < 4 then Inl Out_Of_Bounds
      else if u32_of_bytes data \<noteq> data_id then Inr (-1)
      else validate_loop chunk_sz data compare_buffer (Suc (unat chunk_sz)) 4)"

section \<open>Reading\<close>

definition disk_bytes :: "('dev \<Rightarrow> nat \<Rightarrow> u8) \<Rightarrow> 'dev \<Rightarrow> nat \<Rightarrow> nat \<Rightarrow> u8 list" where
  "disk_bytes content d a n = map (\<lambda>i. content d (a + i)) [0..<n]"

lemma length_disk_bytes [simp]: "length (disk_bytes content d a n) = n"
  by (simp add: disk_bytes_def)

lemma nth_disk_bytes [simp]: "i < n \<Longrightarrow> disk_bytes content d a n ! i = content d (a + i)"
  by (simp add: disk_bytes_def)

lemma disk_bytes_append:
  "disk_bytes content d a m @ disk_bytes content d (a + m) n = disk_bytes content d a (m + n)"
  by (rule nth_equalityI) (auto simp: nth_append)

lemma disk_bytes_cong:
  "(\<And>i. i < n \<Longrightarrow> content d' (a + i) = content d (a + i)) \<Longrightarrow>
   disk_bytes content d' a n = disk_bytes content d a n"
  by (simp add: disk_bytes_def)

lemma pread_okD:
  assumes "pread_ok ops content" "dev_pread ops fd n off d = (r, bs, d')"
  shows "content d' = content d" "r = int (unat n) \<Longrightarrow> bs = disk_bytes content d (unat off) (unat n)"
  using assms unfolding pread_ok_def disk_bytes_def by blast+

lemma pread_retry_ok:
  assumes ok: "pread_ok ops content" and n: "unat n < 2 ^ 63"
  shows "pread_retry ops fd n off k d = (r, d') \<Longrightarrow>
    content d' = content d \<and> (r = None \<or> r = Some (disk_bytes content d (unat off) (unat n)))"
proof (induction k arbitrary: d)
  case (Suc k)
  obtain s cs e where p: "dev_pread ops fd n off d = (s, cs, e)" by (metis prod_cases3)
  note e = pread_okD [OF ok p, folded sint_eq_unat_64 [OF n]]
  have same: "disk_bytes content e = disk_bytes content d"
    by (simp add: fun_eq_iff disk_bytes_def e(1))
  show ?case using Suc.IH [of e] Suc.prems e same p by (auto split: if_splits)
qed simp

text \<open>
  Whatever the reads report, the loop ends; it either fails or returns the stored bytes.
\<close>

lemma read_loop_ok:
  assumes ok: "pread_ok ops content" and m: "0 < max_io"
    and c: "unat chunk_sz < 2 ^ 63" "unat wp + unat chunk_sz \<le> 2 ^ 64"
  shows "unat t \<le> unat chunk_sz \<Longrightarrow> unat chunk_sz - unat t < fuel \<Longrightarrow>
    data = disk_bytes content d (unat wp) (unat t) \<Longrightarrow>
    \<exists>r d'. read_loop ops fd chunk_sz max_io wp fuel t data d = Inr (r, d') \<and> content d' = content d \<and>
      (r = None \<or> r = Some (disk_bytes content d (unat wp) (unat chunk_sz)))"
proof (induction fuel arbitrary: t data d)
  case (Suc fuel)
  show ?case
  proof (cases "t < chunk_sz")
    case False
    moreover have "t \<le> chunk_sz" using Suc.prems(1) by (simp add: word_le_nat_alt)
    ultimately have "t = chunk_sz" by simp
    then show ?thesis using Suc.prems(3) by simp
  next
    case True
    define n where "n = (if max_io < chunk_sz - t then max_io else chunk_sz - t)"
    have un: "unat (chunk_sz - t) = unat chunk_sz - unat t"
      using True by (simp add: unat_sub_if_size word_less_nat_alt)
    have n: "unat n \<le> unat chunk_sz - unat t" "0 < unat n"
      using True m un by (auto simp: n_def word_less_nat_alt)
    have n63: "unat n < 2 ^ 63" using n(1) c(1) by linarith
    have tn: "unat (t + n) = unat t + unat n"
      by (rule unat_add_64) (use n(1) c(1) Suc.prems(1) in simp)
    have wt: "unat (wp + t) = unat wp + unat t"
      by (rule unat_add_64) (use True c in \<open>simp add: word_less_nat_alt\<close>)
    obtain r d' where p: "pread_retry ops fd n (wp + t) BACKOFF_RETRIES_READ d = (r, d')" by force
    note rd = pread_retry_ok [OF ok n63 p, unfolded wt]
    show ?thesis
    proof (cases r)
      case None
      then show ?thesis using rd p True by (simp add: Let_def n_def [symmetric])
    next
      case (Some bs)
      then have bs: "bs = disk_bytes content d (unat wp + unat t) (unat n)" using rd by simp
      have same: "disk_bytes content d' = disk_bytes content d"
        using rd by (simp add: fun_eq_iff disk_bytes_def)
      have "\<exists>r' e. read_loop ops fd chunk_sz max_io wp fuel (t + n) (data @ bs) d' = Inr (r', e) \<and>
          content e = content d' \<and> (r' = None \<or> r' = Some (disk_bytes content d' (unat wp) (unat chunk_sz)))"
        by (rule Suc.IH) (use n Suc.prems tn bs same in \<open>auto simp: disk_bytes_append\<close>)
      then show ?thesis using Some p True same rd by (simp add: Let_def n_def [symmetric])
    qed
  qed
qed simp

section \<open>Writing\<close>

definition same_outside :: "('dev \<Rightarrow> nat \<Rightarrow> u8) \<Rightarrow> nat \<Rightarrow> nat \<Rightarrow> 'dev \<Rightarrow> 'dev \<Rightarrow> bool" where
  "same_outside content a n d d' \<longleftrightarrow> (\<forall>x. x < a \<or> a + n \<le> x \<longrightarrow> content d' x = content d x)"

lemma same_outside_refl [simp]: "same_outside content a n d d"
  by (simp add: same_outside_def)

lemma same_outside_trans:
  "same_outside content a n d d' \<Longrightarrow> same_outside content a n d' d'' \<Longrightarrow> same_outside content a n d d''"
  by (simp add: same_outside_def)

lemma same_outside_mono:
  "same_outside content b m d d' \<Longrightarrow> a \<le> b \<Longrightarrow> b + m \<le> a + n \<Longrightarrow> same_outside content a n d d'"
  by (simp add: same_outside_def)

lemma same_outside_bytes:
  "same_outside content a n d d' \<Longrightarrow> b + m \<le> a \<or> a + n \<le> b \<Longrightarrow>
   disk_bytes content d' b m = disk_bytes content d b m"
  by (auto simp: same_outside_def intro!: disk_bytes_cong)

lemma pwrite_okD:
  assumes "pwrite_ok ops content" "dev_pwrite ops fd bs off d = (r, d')"
  shows "same_outside content (unat off) (length bs) d d'"
    "r = int (length bs) \<Longrightarrow> disk_bytes content d' (unat off) (length bs) = bs"
  using assms unfolding pwrite_ok_def same_outside_def by (auto intro!: nth_equalityI)

lemma pwrite_retry_ok:
  assumes ok: "pwrite_ok ops content" and n: "unat n < 2 ^ 63" "length bs = unat n"
  shows "pwrite_retry ops fd bs n off k d = (r, d') \<Longrightarrow>
    same_outside content (unat off) (unat n) d d' \<and>
    (r \<longrightarrow> disk_bytes content d' (unat off) (unat n) = bs)"
proof (induction k arbitrary: d)
  case (Suc k)
  obtain s e where p: "dev_pwrite ops fd bs off d = (s, e)" by force
  note e = pwrite_okD [OF ok p, unfolded n(2), folded sint_eq_unat_64 [OF n(1)]]
  show ?case using Suc.IH [of e] Suc.prems e p
    by (auto split: if_splits intro: same_outside_trans)
qed simp

lemma write_loop_ok:
  assumes ok: "pwrite_ok ops content" and m: "0 < unat ws" "unat ws < 2 ^ 63"
    and c: "unat tw < 2 ^ 63" "unat wp + unat tw \<le> 2 ^ 64" and b: "unat tw \<le> length buf"
  shows "unat t \<le> unat tw \<Longrightarrow> unat tw - unat t < fuel \<Longrightarrow>
    disk_bytes content d (unat wp) (unat t) = take (unat t) buf \<Longrightarrow>
    \<exists>r d'. write_loop nd ops fd tw buf ws wp fuel t d = Inr (r, d') \<and> (r = 0 \<or> r = -1) \<and>
      same_outside content (unat wp) (unat tw) d d' \<and>
      (r = 0 \<longrightarrow> disk_bytes content d' (unat wp) (unat tw) = take (unat tw) buf)"
proof (induction fuel arbitrary: t d)
  case (Suc fuel)
  show ?case
  proof (cases "t < tw")
    case False
    moreover have "t \<le> tw" using Suc.prems(1) by (simp add: word_le_nat_alt)
    ultimately have "t = tw" by simp
    then show ?thesis using Suc.prems(3) by simp
  next
    case True
    have un: "unat (tw - t) = unat tw - unat t"
      using True by (simp add: unat_sub_if_size word_less_nat_alt)
    define n where "n = (if sint (tw - t) < sint ws then tw - t else ws)"
    have "unat (tw - t) < 2 ^ 63" using un c(1) by simp
    then have "sint (tw - t) < sint ws \<longleftrightarrow> unat (tw - t) < unat ws"
      by (simp only: sint_eq_unat_64 m(2) of_nat_less_iff)
    then have n: "unat n \<le> unat tw - unat t" "0 < unat n"
      using True m(1) un by (auto simp: n_def word_less_nat_alt)
    have n63: "unat n < 2 ^ 63" using n(1) c(1) by linarith
    have tn: "unat (t + n) = unat t + unat n"
      by (rule unat_add_64) (use n(1) c(1) Suc.prems(1) in simp)
    have wt: "unat (wp + t) = unat wp + unat t"
      by (rule unat_add_64) (use True c in \<open>simp add: word_less_nat_alt\<close>)
    let ?bs = "take (unat n) (drop (unat t) buf)"
    have len: "length ?bs = unat n" "\<not> length buf < unat t + unat n" using n(1) b Suc.prems(1) by simp_all
    obtain r d' where p: "pwrite_retry ops fd ?bs n (wp + t) BACKOFF_RETRIES_WRITE d = (r, d')" by force
    note w = pwrite_retry_ok [OF ok n63 len(1) p, unfolded wt]
    have out: "same_outside content (unat wp) (unat tw) d d'"
      by (rule same_outside_mono [OF w [THEN conjunct1]]) (use n(1) Suc.prems(1) in simp_all)
    show ?thesis
    proof (cases r)
      case False
      then show ?thesis using p True len(2) out by (simp add: Let_def n_def [symmetric])
    next
      case r: True
      have "disk_bytes content d' (unat wp) (unat t) = take (unat t) buf"
        using same_outside_bytes [OF w [THEN conjunct1], of "unat wp" "unat t"] Suc.prems(3) by simp
      then have "disk_bytes content d' (unat wp) (unat (t + n)) = take (unat (t + n)) buf"
        using w r unfolding tn disk_bytes_append [symmetric] by (simp add: take_add)
      then have "\<exists>r' e. write_loop nd ops fd tw buf ws wp fuel (t + n) d' = Inr (r', e) \<and>
          (r' = 0 \<or> r' = -1) \<and> same_outside content (unat wp) (unat tw) d' e \<and>
          (r' = 0 \<longrightarrow> disk_bytes content e (unat wp) (unat tw) = take (unat tw) buf)"
        by (intro Suc.IH) (use n tn Suc.prems in simp_all)
      then show ?thesis using r p True len(2) out same_outside_trans
        by (auto simp: Let_def n_def [symmetric])
    qed
  qed
qed simp

section \<open>Generated data\<close>

lemma length_bytes_of_u32 [simp]: "length (bytes_of_u32 x) = 4"
  by (simp add: bytes_of_u32_def)

lemma u32_of_bytes_of_u32: "u32_of_bytes (bytes_of_u32 x @ bs) = x"
proof -
  have "bit (u32_of_bytes (bytes_of_u32 x @ bs)) n = bit x n" if "n < 32" for n
  proof -
    consider "n < 8" | "8 \<le> n" "n < 16" | "16 \<le> n" "n < 24" | "24 \<le> n" using that by linarith
    then show ?thesis using that
      by cases (auto simp: u32_of_bytes_def bytes_of_u32_def upt_rec bit_simps)
  qed
  then show ?thesis by (intro bit_word_eqI) simp
qed

lemma bytes_of_u32_of_bytes: "4 \<le> length bs \<Longrightarrow> bytes_of_u32 (u32_of_bytes bs) = take 4 bs"
proof -
  assume "4 \<le> length bs"
  then obtain b0 b1 b2 b3 cs where bs: "bs = b0 # b1 # b2 # b3 # cs"
    by (auto simp: numeral_eq_Suc Suc_le_length_iff)
  have "ucast (drop_bit 0 (u32_of_bytes bs)) = b0" "ucast (drop_bit 8 (u32_of_bytes bs)) = b1"
    "ucast (drop_bit 16 (u32_of_bytes bs)) = b2" "ucast (drop_bit 24 (u32_of_bytes bs)) = b3"
    by (rule bit_word_eqI; auto simp: bs u32_of_bytes_def bit_simps dest: bit_imp_le_length)+
  then show ?thesis by (simp add: bytes_of_u32_def upt_rec bs)
qed

lemma validate_loop_ok:
  assumes c: "unat chunk_sz < 2 ^ 32" and len: "unat chunk_sz \<le> length data" "unat chunk_sz \<le> length cmp"
  shows "unat i \<le> unat chunk_sz \<Longrightarrow> unat chunk_sz - unat i < fuel \<Longrightarrow>
    validate_loop chunk_sz data cmp fuel i =
      Inr (if \<forall>k. unat i \<le> k \<and> k < unat chunk_sz \<longrightarrow> data ! k = cmp ! k then 0 else -1)"
proof (induction fuel arbitrary: i)
  case (Suc fuel)
  show ?case
  proof (cases "ucast i < chunk_sz")
    case True
    then have lt: "unat i < unat chunk_sz" by (simp add: word_less_nat_alt)
    have i1: "unat (i + 1) = unat i + 1" using lt c by (intro unat_inc) simp
    have ih: "validate_loop chunk_sz data cmp fuel (i + 1) =
      Inr (if \<forall>k. unat (i + 1) \<le> k \<and> k < unat chunk_sz \<longrightarrow> data ! k = cmp ! k then 0 else -1)"
      by (rule Suc.IH) (use Suc.prems i1 lt in simp_all)
    have "(\<forall>k. unat i \<le> k \<and> k < unat chunk_sz \<longrightarrow> data ! k = cmp ! k) \<longleftrightarrow>
      data ! unat i = cmp ! unat i \<and> (\<forall>k. unat (i + 1) \<le> k \<and> k < unat chunk_sz \<longrightarrow> data ! k = cmp ! k)"
    proof -
      have "unat i \<le> k \<longleftrightarrow> k = unat i \<or> unat (i + 1) \<le> k" for k by (auto simp: i1)
      then show ?thesis using lt by auto
    qed
    then show ?thesis using True lt len ih by simp
  next
    case False
    then show ?thesis by (auto simp: word_less_nat_alt)
  qed
qed simp

section \<open>Whole operations\<close>

text \<open>The byte range of a chunk, and what makes its I/O well-formed.\<close>

definition chunk_addr :: "u64 \<Rightarrow> u64 \<Rightarrow> zn_pair \<Rightarrow> u64" where
  "chunk_addr zone_size chunk_sz loc =
     CHUNK_POINTER zone_size chunk_sz (zp_chunk_offset loc) (zp_zone loc)"

definition io_ok :: "u64 \<Rightarrow> u64 \<Rightarrow> u64 \<Rightarrow> bool" where
  "io_ok chunk_sz io_size wp \<longleftrightarrow>
     unat chunk_sz < 2 ^ 63 \<and> 0 < unat io_size \<and> unat io_size < 2 ^ 63 \<and>
     unat wp + unat chunk_sz \<le> 2 ^ 64"

lemma zn_write_out_ok:
  assumes "pwrite_ok ops content" "io_ok c_sz io wp" "unat c_sz \<le> length buf"
  shows "\<exists>r d'. zn_write_out nd ops fd c_sz buf io wp d = Inr (r, d') \<and> (r = 0 \<or> r = -1) \<and>
    same_outside content (unat wp) (unat c_sz) d d' \<and>
    (r = 0 \<longrightarrow> disk_bytes content d' (unat wp) (unat c_sz) = take (unat c_sz) buf)"
  unfolding zn_write_out_def
  by (rule write_loop_ok [OF assms(1)]) (use assms(2,3) in \<open>simp_all add: io_ok_def disk_bytes_def\<close>)

lemma zn_read_from_disk_ok:
  assumes "pread_ok ops content" "io_ok c_sz io (chunk_addr z_sz c_sz loc)"
  shows "\<exists>r d'. zn_read_from_disk ops fd c_sz io z_sz loc d = Inr (r, d') \<and> content d' = content d \<and>
    (r = None \<or> r = Some (disk_bytes content d (unat (chunk_addr z_sz c_sz loc)) (unat c_sz)))"
proof -
  have "\<exists>r d'. read_loop ops fd c_sz io (chunk_addr z_sz c_sz loc) (Suc (unat c_sz)) 0 [] d = Inr (r, d') \<and>
    content d' = content d \<and>
    (r = None \<or> r = Some (disk_bytes content d (unat (chunk_addr z_sz c_sz loc)) (unat c_sz)))"
    by (rule read_loop_ok [OF assms(1)])
      (use assms(2) in \<open>simp_all add: io_ok_def disk_bytes_def word_less_nat_alt\<close>)
  then show ?thesis by (simp add: zn_read_from_disk_def Let_def chunk_addr_def)
qed

lemma zn_gen_write_buffer_ok:
  assumes "4 \<le> unat c_sz" "unat c_sz \<le> length buf"
  shows "\<exists>data. zn_gen_write_buffer c_sz x buf = Inr data \<and> length data = unat c_sz \<and>
    u32_of_bytes data = x \<and> (\<forall>k. 4 \<le> k \<and> k < unat c_sz \<longrightarrow> data ! k = buf ! k)"
  using assms by (simp add: zn_gen_write_buffer_def u32_of_bytes_of_u32 nth_append)

lemma zn_validate_read_ok:
  assumes c: "4 \<le> unat c_sz" "unat c_sz < 2 ^ 32"
    and len: "length data = unat c_sz" "unat c_sz \<le> length cmp"
  shows "zn_validate_read c_sz data x cmp =
    Inr (if u32_of_bytes data = x \<and> (\<forall>k. 4 \<le> k \<and> k < unat c_sz \<longrightarrow> data ! k = cmp ! k) then 0 else -1)"
  using c len validate_loop_ok [of c_sz data cmp 4 "Suc (unat c_sz)"]
  by (auto simp: zn_validate_read_def)

lemma generated_valid:
  assumes "4 \<le> unat c_sz" "unat c_sz < 2 ^ 32" "unat c_sz \<le> length buf" "zn_gen_write_buffer c_sz x buf = Inr data"
  shows "zn_validate_read c_sz data x buf = Inr 0"
  using zn_gen_write_buffer_ok [OF assms(1,3), of x] assms(4) zn_validate_read_ok [OF assms(1,2) _ assms(3), of data x] by auto

text \<open>A device on which every transfer is complete.\<close>

definition io_reliable :: "'dev dev_ops \<Rightarrow> bool" where
  "io_reliable ops \<longleftrightarrow>
     (\<forall>fd n off d. fst (dev_pread ops fd n off d) = int (unat n)) \<and>
     (\<forall>fd bs off d. fst (dev_pwrite ops fd bs off d) = int (length bs))"

lemma pread_retry_reliable:
  assumes "io_reliable ops" "unat n < 2 ^ 63"
  shows "fst (pread_retry ops fd n off (Suc k) d) \<noteq> None"
proof -
  have "fst (dev_pread ops fd n off d) = sint n"
    unfolding sint_eq_unat_64 [OF assms(2)] using assms(1) unfolding io_reliable_def by blast
  then show ?thesis by (auto split: prod.split)
qed

lemma pwrite_retry_reliable:
  assumes "io_reliable ops" "unat n < 2 ^ 63" "length bs = unat n"
  shows "fst (pwrite_retry ops fd bs n off (Suc k) d)"
proof -
  have "fst (dev_pwrite ops fd bs off d) = sint n"
    unfolding sint_eq_unat_64 [OF assms(2)] assms(3) [symmetric]
    using assms(1) unfolding io_reliable_def by blast
  then show ?thesis by (auto split: prod.split)
qed

lemma read_loop_reliable:
  assumes "io_reliable ops" "unat c_sz < 2 ^ 63"
  shows "read_loop ops fd c_sz io wp fuel t data d \<noteq> Inr (None, d')"
proof (induction fuel arbitrary: t data d)
  case (Suc fuel)
  let ?n = "if io < c_sz - t then io else c_sz - t"
  show ?case
  proof (cases "t < c_sz")
    case True
    then have "unat ?n \<le> unat c_sz" by (auto simp: unat_sub_if_size word_less_nat_alt)
    then have "fst (pread_retry ops fd ?n (wp + t) BACKOFF_RETRIES_READ d) \<noteq> None"
      using assms pread_retry_reliable [of ops ?n fd "wp + t" 4 d] by (simp add: BACKOFF_RETRIES_READ_def)
    then obtain bs e where "pread_retry ops fd ?n (wp + t) BACKOFF_RETRIES_READ d = (Some bs, e)"
      by (cases "pread_retry ops fd ?n (wp + t) BACKOFF_RETRIES_READ d") auto
    then show ?thesis using True Suc.IH by (simp add: Let_def)
  qed simp
qed simp

lemma write_loop_reliable:
  assumes "io_reliable ops" "unat tw < 2 ^ 63" "unat ws < 2 ^ 63"
  shows "write_loop nd ops fd tw buf ws wp fuel t d \<noteq> Inr (-1, d')"
proof (induction fuel arbitrary: t d)
  case (Suc fuel)
  define n where "n = (if sint (tw - t) < sint ws then tw - t else ws)"
  let ?bs = "take (unat n) (drop (unat t) buf)"
  show ?case
  proof (cases "t < tw \<and> \<not> length buf < unat t + unat n")
    case True
    then have n: "unat n < 2 ^ 63" "length ?bs = unat n"
      using assms by (auto simp: n_def unat_sub_if_size word_less_nat_alt)
    have "fst (pwrite_retry ops fd ?bs n (wp + t) BACKOFF_RETRIES_WRITE d)"
      using pwrite_retry_reliable [OF assms(1) n, of fd "wp + t" 7 d] by (simp add: BACKOFF_RETRIES_WRITE_def)
    then obtain e where "pwrite_retry ops fd ?bs n (wp + t) BACKOFF_RETRIES_WRITE d = (True, e)"
      by (cases "pwrite_retry ops fd ?bs n (wp + t) BACKOFF_RETRIES_WRITE d") auto
    then show ?thesis using True Suc.IH by (simp add: Let_def n_def [symmetric])
  next
    case False
    then show ?thesis by (auto simp: c_assert_def Let_def n_def [symmetric])
  qed
qed simp

lemma zn_write_out_reliable:
  "io_reliable ops \<Longrightarrow> io_ok c_sz io wp \<Longrightarrow> zn_write_out nd ops fd c_sz buf io wp d \<noteq> Inr (-1, d')"
  unfolding zn_write_out_def io_ok_def by (intro write_loop_reliable) simp_all

lemma zn_read_from_disk_reliable:
  assumes "io_reliable ops" "io_ok c_sz io (chunk_addr z_sz c_sz loc)"
    and "c_sz mod 4096 = 0" "io mod 4096 = 0" "chunk_addr z_sz c_sz loc mod 4096 = 0"
  shows "zn_read_from_disk ops fd c_sz io z_sz loc d \<noteq> Inr (None, d')"
proof -
  have "read_loop ops fd c_sz io (chunk_addr z_sz c_sz loc) (Suc (unat c_sz)) 0 [] d \<noteq> Inr (None, d')"
    by (rule read_loop_reliable [OF assms(1)]) (use assms(2) in \<open>simp add: io_ok_def\<close>)
  then show ?thesis using assms(3-5)
    by (simp add: zn_read_from_disk_def Let_def ZN_DIRECT_ALIGNMENT_def chunk_addr_def del: read_loop.simps)
qed

section \<open>Properties\<close>

text \<open>C22. A chunk that \<open>zn_write_out\<close> reports as written is what \<open>zn_read_from_disk\<close> returns for
  that location, whenever the read succeeds: both end, the write stores the buffer in blocks of
  \<open>io_size\<close> and touches no byte outside the chunk, the read returns either \<open>NULL\<close> or exactly the
  bytes written. The device is any whose positioned reads and writes behave as documented, failing
  and partial transfers included.\<close>

theorem disk_write_read_roundtrip:
  assumes "pwrite_ok ops content" and "pread_ok ops content"
    and "io_ok c_sz io (chunk_addr z_sz c_sz loc)" and "length buf = unat c_sz"
  shows "\<exists>r d1 x d2.
    zn_write_out nd ops fd c_sz buf io (chunk_addr z_sz c_sz loc) d = Inr (r, d1) \<and>
    zn_read_from_disk ops fd c_sz io z_sz loc d1 = Inr (x, d2) \<and>
    same_outside content (unat (chunk_addr z_sz c_sz loc)) (unat c_sz) d d2 \<and>
    (r = 0 \<longrightarrow> x = None \<or> x = Some buf)"
proof -
  obtain r d1 where w: "zn_write_out nd ops fd c_sz buf io (chunk_addr z_sz c_sz loc) d = Inr (r, d1)"
    "same_outside content (unat (chunk_addr z_sz c_sz loc)) (unat c_sz) d d1"
    "r = 0 \<longrightarrow> disk_bytes content d1 (unat (chunk_addr z_sz c_sz loc)) (unat c_sz) = buf"
    using zn_write_out_ok [OF assms(1,3), of buf nd fd d] assms(4) by auto
  obtain x d2 where "zn_read_from_disk ops fd c_sz io z_sz loc d1 = Inr (x, d2)" "content d2 = content d1"
    "x = None \<or> x = Some (disk_bytes content d1 (unat (chunk_addr z_sz c_sz loc)) (unat c_sz))"
    using zn_read_from_disk_ok [OF assms(2,3)] by blast
  with w show ?thesis by (auto simp: same_outside_def)
qed

lemma ram_io_reliable: "io_reliable ram_ops"
  by (auto simp: io_reliable_def ram_ops_def)

theorem disk_write_read_roundtrip_witness:
  "\<exists>r d1 x d2.
    zn_write_out True ram_ops 3 4096 (replicate 4096 7) 4096
      (chunk_addr 8192 4096 \<lparr>zp_zone = 1, zp_chunk_offset = 1, zp_id = 0, zp_in_use = False\<rparr>)
      (\<lambda>_. 0) = Inr (r, d1) \<and>
    zn_read_from_disk ram_ops 3 4096 4096 8192
      \<lparr>zp_zone = 1, zp_chunk_offset = 1, zp_id = 0, zp_in_use = False\<rparr> d1 = Inr (x, d2) \<and>
    (r = 0 \<longrightarrow> x = None \<or> x = Some (replicate 4096 7))"
proof -
  let ?loc = "\<lparr>zp_zone = 1, zp_chunk_offset = 1, zp_id = 0, zp_in_use = False\<rparr>"
  have io: "io_ok 4096 4096 (chunk_addr 8192 4096 ?loc)"
    by (simp add: io_ok_def chunk_addr_def CHUNK_POINTER_def)
  have len: "length (replicate 4096 (7 :: u8)) = unat (4096 :: u64)" by simp
  show ?thesis
    using disk_write_read_roundtrip [OF ram_ops_ok(1,2) io len, of True 3 "\<lambda>_. 0"] by blast
qed

text \<open>With aligned sizes and a device on which every transfer is complete, \<open>zn_write_out\<close>
  returns 0 and \<open>zn_read_from_disk\<close> then returns the chunk, for every block size.\<close>

lemma disk_reliable_roundtrip:
  assumes "pwrite_ok ops content" and "pread_ok ops content" and "io_reliable ops"
    and "io_ok c_sz io (chunk_addr z_sz c_sz loc)" and "length buf = unat c_sz"
    and "c_sz mod 4096 = 0" and "io mod 4096 = 0" and "chunk_addr z_sz c_sz loc mod 4096 = 0"
  shows "\<exists>d1 d2.
    zn_write_out nd ops fd c_sz buf io (chunk_addr z_sz c_sz loc) d = Inr (0, d1) \<and>
    zn_read_from_disk ops fd c_sz io z_sz loc d1 = Inr (Some buf, d2)"
proof -
  obtain r d1 where w: "zn_write_out nd ops fd c_sz buf io (chunk_addr z_sz c_sz loc) d = Inr (r, d1)"
    "r = 0 \<or> r = -1"
    "r = 0 \<longrightarrow> disk_bytes content d1 (unat (chunk_addr z_sz c_sz loc)) (unat c_sz) = buf"
    using zn_write_out_ok [OF assms(1,4), of buf nd fd d] assms(5) by auto
  have "r \<noteq> -1" using w(1) zn_write_out_reliable [OF assms(3,4)] by auto
  obtain x d2 where r: "zn_read_from_disk ops fd c_sz io z_sz loc d1 = Inr (x, d2)"
    "x = None \<or> x = Some (disk_bytes content d1 (unat (chunk_addr z_sz c_sz loc)) (unat c_sz))"
    using zn_read_from_disk_ok [OF assms(2,4)] by blast
  have "x \<noteq> None"
  proof
    assume "x = None"
    with r(1) zn_read_from_disk_reliable [OF assms(3,4,6-8)] show False by blast
  qed
  with \<open>r \<noteq> -1\<close> w r show ?thesis by auto
qed

text \<open>C25. \<open>zn_validate_read\<close> accepts a chunk for an identifier exactly when the chunk is the one
  that \<open>zn_gen_write_buffer\<close> builds for that identifier from the same reference buffer: the
  check the workload threads make on every chunk has no false positives and no false negatives.\<close>

theorem validate_iff_generated:
  assumes "4 \<le> unat c_sz" and "unat c_sz < 2 ^ 32" and "length data = unat c_sz"
    and "unat c_sz \<le> length buf"
  shows "zn_validate_read c_sz data x buf = Inr 0 \<longleftrightarrow> zn_gen_write_buffer c_sz x buf = Inr data"
proof -
  obtain g where g: "zn_gen_write_buffer c_sz x buf = Inr g" "length g = unat c_sz" "u32_of_bytes g = x"
    "\<forall>k. 4 \<le> k \<and> k < unat c_sz \<longrightarrow> g ! k = buf ! k"
    using zn_gen_write_buffer_ok [OF assms(1,4)] by blast
  have "data = g" if "u32_of_bytes data = x" "\<forall>k. 4 \<le> k \<and> k < unat c_sz \<longrightarrow> data ! k = buf ! k"
  proof (rule nth_equalityI)
    fix k assume "k < length data"
    have "take 4 data = take 4 g"
      using that(1) g(2,3) assms(1,3) bytes_of_u32_of_bytes [of data] bytes_of_u32_of_bytes [of g] by simp
    then have "data ! k = g ! k" if "k < 4" using that by (metis nth_take)
    then show "data ! k = g ! k"
      using that(2) g(4) \<open>k < length data\<close> assms(3) by (cases "k < 4") auto
  qed (use g(2) assms(3) in simp)
  then show ?thesis
    using zn_validate_read_ok [OF assms(1-3), of buf x] assms(4) g by auto
qed

theorem validate_iff_generated_witness:
  "zn_validate_read 8 [42, 0, 0, 0, 9, 9, 9, 9] 42 (replicate 8 9) = Inr 0 \<longleftrightarrow>
   zn_gen_write_buffer 8 42 (replicate 8 9) = Inr [42, 0, 0, 0, 9, 9, 9, 9]"
  by (rule validate_iff_generated) simp_all

text \<open>C27. When the device never accepts a block, \<open>zn_write_out\<close> tries exactly eight times and
  returns -1; \<open>calls\<close> counts the calls a device has seen.\<close>

theorem write_out_gives_up:
  assumes "\<And>bs off d. fst (dev_pwrite ops fd bs off d) = -1"
    and "\<And>bs off d. calls (snd (dev_pwrite ops fd bs off d)) = calls d + (1 :: nat)"
    and "0 < unat c_sz" and "io_ok c_sz io wp" and "unat c_sz \<le> length buf"
  shows "\<exists>d'. zn_write_out nd ops fd c_sz buf io wp d = Inr (-1, d') \<and> calls d' = calls d + 8"
proof -
  have retry: "\<exists>d'. pwrite_retry ops fd bs n off k d = (False, d') \<and> calls d' = calls d + k"
    if "unat n < 2 ^ 63" for bs n off k d
  proof (induction k arbitrary: d)
    case (Suc k)
    obtain e where "dev_pwrite ops fd bs off d = (-1, e)" "calls e = calls d + 1"
      using assms(1,2) [of bs off d] by (cases "dev_pwrite ops fd bs off d") auto
    moreover have "0 \<le> sint n" unfolding sint_eq_unat_64 [OF that] by (rule of_nat_0_le_iff)
    ultimately show ?case using Suc.IH [of e] by auto
  qed simp
  define n where "n = (if sint c_sz < sint io then c_sz else io)"
  have sz: "sint c_sz = int (unat c_sz)" "sint io = int (unat io)"
    by (rule sint_eq_unat_64; use assms(4) in \<open>simp add: io_ok_def\<close>)+
  have n: "unat n \<le> unat c_sz" unfolding n_def sz of_nat_less_iff by simp
  then have "unat n < 2 ^ 63" using assms(4) by (simp add: io_ok_def)
  from retry [OF this, of "take (unat n) buf" wp 8 d] obtain d' where
    "pwrite_retry ops fd (take (unat n) buf) n wp 8 d = (False, d')" "calls d' = calls d + 8" by blast
  then show ?thesis using assms(3,5) n
    by (auto simp: zn_write_out_def Let_def n_def [symmetric] BACKOFF_RETRIES_WRITE_def word_less_nat_alt)
qed

definition dead_ops :: "nat dev_ops" where
  "dead_ops = \<lparr>zbd_open_zones = (\<lambda>_ _ _ d. (0, d)), zbd_finish_zones = (\<lambda>_ _ _ d. (0, d)),
     zbd_reset_zones = (\<lambda>_ _ _ d. (0, d)), dev_pread = (\<lambda>_ _ _ d. (-1, [], d)),
     dev_pwrite = (\<lambda>_ _ _ d. (-1, Suc d))\<rparr>"

theorem write_out_gives_up_witness:
  "\<exists>d'. zn_write_out True dead_ops 3 4096 (replicate 4096 0) 4096 0 0 = Inr (-1, d') \<and> d' = 0 + 8"
  by (rule write_out_gives_up [where calls = "\<lambda>d. d"]) (simp_all add: dead_ops_def io_ok_def)

end
