(* ===== verification/ZN_Glib.thy ===== *)
theory ZN_Glib
  imports ZN_Prelude
begin

text \<open>
  What the sources use of GLib beyond plain tables: the casts that store integers in pointers, and
  queues whose links are kept by address. A \<open>GQueue\<close> used through its links is the list of its
  nodes from head to tail, each with the address of the link and the data pointer it carries; a new
  link gets an address that was never used, and a deleted link is gone, so that following a stale
  \<open>GList *\<close> is the error \<open>Bad_Pointer\<close>.
\<close>

section \<open>Integers in pointers\<close>

text \<open>
  The pointer casts on a 64-bit machine: an \<open>unsigned int\<close> is extended with zeros, also where the
  source passes a \<open>uint32_t\<close> to \<open>GINT_TO_POINTER\<close>; an \<open>int\<close> is extended with its sign.
\<close>

definition GUINT_TO_POINTER :: "u32 \<Rightarrow> u64" where
  "GUINT_TO_POINTER i = ucast i"

definition GINT_TO_POINTER :: "u32 \<Rightarrow> u64" where
  "GINT_TO_POINTER i = scast i"

definition GPOINTER_TO_INT :: "u64 \<Rightarrow> u32" where
  "GPOINTER_TO_INT p = ucast p"

definition GPOINTER_TO_UINT :: "u64 \<Rightarrow> u32" where
  "GPOINTER_TO_UINT p = ucast p"

text \<open>Identifiers that survive the conversion to \<open>int\<close> and back.\<close>

definition id_ok :: "u32 \<Rightarrow> bool" where
  "id_ok i \<longleftrightarrow> unat i < 2147483648"

lemma GUINT_inject [simp]: "GUINT_TO_POINTER i = GUINT_TO_POINTER j \<longleftrightarrow> i = j"
  by (simp add: GUINT_TO_POINTER_def)

lemma pointer_int_roundtrip:
  assumes "id_ok i"
  shows "GINT_TO_POINTER (GPOINTER_TO_INT (GUINT_TO_POINTER i)) = GUINT_TO_POINTER i"
proof -
  have "unat i < 2147483648" using assms by (simp add: id_ok_def)
  then have "uint i < 2147483648" by (metis of_nat_less_iff of_nat_numeral uint_nat)
  moreover have "- 2147483648 \<le> uint i" by (rule order_trans [OF _ uint_ge_0]) simp
  ultimately have "signed_take_bit 31 (uint i) = uint i" by (intro signed_take_bit_int_eq_self) auto
  then have "(scast i :: u64) = ucast i" unfolding scast_eq ucast_eq by (simp add: sint_uint)
  moreover have "(ucast (ucast i :: u64) :: u32) = i"
    by (rule ucast_up_ucast_id) (simp add: is_up)
  ultimately show ?thesis
    by (simp add: GINT_TO_POINTER_def GPOINTER_TO_INT_def GUINT_TO_POINTER_def)
qed

lemma GPOINTER_GUINT [simp]: "GPOINTER_TO_UINT (GUINT_TO_POINTER i) = i"
  unfolding GPOINTER_TO_UINT_def GUINT_TO_POINTER_def by (rule ucast_up_ucast_id) (simp add: is_up)

section \<open>Queues with links\<close>

record 'a gqueue =
  gq_nodes :: "(ptr \<times> 'a) list"
  gq_next :: ptr

definition g_queue_init :: "'a gqueue" where
  "g_queue_init = \<lparr>gq_nodes = [], gq_next = 0\<rparr>"

definition g_queue_push_tail :: "'a \<Rightarrow> 'a gqueue \<Rightarrow> 'a gqueue" where
  "g_queue_push_tail x q = q\<lparr>gq_nodes := gq_nodes q @ [(gq_next q, x)], gq_next := Suc (gq_next q)\<rparr>"

definition g_queue_peek_tail_link :: "'a gqueue \<Rightarrow> ptr option" where
  "g_queue_peek_tail_link q = (if gq_nodes q = [] then None else Some (fst (last (gq_nodes q))))"

definition g_queue_pop_head :: "'a gqueue \<Rightarrow> 'a option \<times> 'a gqueue" where
  "g_queue_pop_head q = (case gq_nodes q of [] \<Rightarrow> (None, q)
     | n # ns \<Rightarrow> (Some (snd n), q\<lparr>gq_nodes := ns\<rparr>))"

text \<open>\<open>node->data\<close> and \<open>g_queue_delete_link\<close> on a link of the queue.\<close>

definition node_data :: "'a gqueue \<Rightarrow> ptr \<Rightarrow> 'a res" where
  "node_data q n = deref (map_of (gq_nodes q)) n"

definition g_queue_delete_link :: "ptr \<Rightarrow> 'a gqueue \<Rightarrow> 'a gqueue res" where
  "g_queue_delete_link n q =
     (if map_of (gq_nodes q) n = None then Inl Bad_Pointer
      else Inr (q\<lparr>gq_nodes := filter (\<lambda>x. fst x \<noteq> n) (gq_nodes q)\<rparr>))"

definition gq_data :: "'a gqueue \<Rightarrow> 'a list" where
  "gq_data q = map snd (gq_nodes q)"

definition gq_ok :: "'a gqueue \<Rightarrow> bool" where
  "gq_ok q \<longleftrightarrow> distinct (map fst (gq_nodes q)) \<and> (\<forall>n \<in> fst ` set (gq_nodes q). n < gq_next q)"

lemma gq_init [simp]: "gq_ok g_queue_init" "gq_nodes g_queue_init = []"
  by (simp_all add: gq_ok_def g_queue_init_def)

lemma gq_push [simp]:
  "gq_nodes (g_queue_push_tail x q) = gq_nodes q @ [(gq_next q, x)]"
  "g_queue_peek_tail_link (g_queue_push_tail x q) = Some (gq_next q)"
  by (simp_all add: g_queue_push_tail_def g_queue_peek_tail_link_def)

lemma gq_push_ok [simp]: "gq_ok q \<Longrightarrow> gq_ok (g_queue_push_tail x q)"
  by (auto simp: gq_ok_def g_queue_push_tail_def less_Suc_eq)

lemma gq_next_fresh: "gq_ok q \<Longrightarrow> (gq_next q, x) \<notin> set (gq_nodes q)"
  by (force simp: gq_ok_def)

lemma gq_map_of: "gq_ok q \<Longrightarrow> map_of (gq_nodes q) n = Some x \<longleftrightarrow> (n, x) \<in> set (gq_nodes q)"
  by (simp add: gq_ok_def)

lemma gq_delete:
  assumes "gq_ok q" "(n, x) \<in> set (gq_nodes q)"
  shows "\<exists>q'. g_queue_delete_link n q = Inr q' \<and> gq_ok q' \<and> gq_next q' = gq_next q \<and>
    gq_nodes q' = filter (\<lambda>y. fst y \<noteq> n) (gq_nodes q)"
  using assms gq_map_of [OF assms(1), of n x]
  by (auto simp: g_queue_delete_link_def gq_ok_def distinct_map_filter)

lemma gq_pop_ok: "gq_ok q \<Longrightarrow> gq_ok (snd (g_queue_pop_head q))"
  by (auto simp: gq_ok_def g_queue_pop_head_def split: list.splits)

section \<open>A queue with a table of its links\<close>

text \<open>
  Both eviction policies keep, beside a queue, a table from the queued data to their links, whose
  value is \<open>NULL\<close> (\<open>None\<close>) for what has left the queue. They agree when the table's links are
  exactly those of the queue and nothing is queued twice.
\<close>

definition g_hash_table_lookup :: "('k \<rightharpoonup> 'v option) \<Rightarrow> 'k \<Rightarrow> 'v option" where
  "g_hash_table_lookup m k = (case m k of None \<Rightarrow> None | Some v \<Rightarrow> v)"

definition lru_ok :: "'a gqueue \<Rightarrow> ('a \<rightharpoonup> ptr option) \<Rightarrow> bool" where
  "lru_ok q m \<longleftrightarrow> gq_ok q \<and> distinct (gq_data q) \<and>
     (\<forall>k n. g_hash_table_lookup m k = Some n \<longleftrightarrow> (n, k) \<in> set (gq_nodes q))"

lemma lookup_upd [simp]:
  "g_hash_table_lookup (m(k \<mapsto> v)) k' = (if k' = k then v else g_hash_table_lookup m k')"
  by (simp add: g_hash_table_lookup_def)

lemma lru_okD:
  assumes "lru_ok q m"
  shows "gq_ok q" "distinct (gq_data q)" "g_hash_table_lookup m k = Some n \<longleftrightarrow> (n, k) \<in> set (gq_nodes q)"
  using assms unfolding lru_ok_def by blast+

lemma gq_data_mem: "k \<in> set (gq_data q) \<longleftrightarrow> (\<exists>n. (n, k) \<in> set (gq_nodes q))"
  by (force simp: gq_data_def)

lemma lru_lookup_None:
  assumes "lru_ok q m"
  shows "g_hash_table_lookup m k = None \<longleftrightarrow> k \<notin> set (gq_data q)"
  using lru_okD(3) [OF assms, of k] unfolding gq_data_mem by (cases "g_hash_table_lookup m k") auto

lemma lru_push:
  assumes ok: "lru_ok q m" and new: "x \<notin> set (gq_data q)"
  defines "q' \<equiv> g_queue_push_tail x q"
  shows "lru_ok q' (m(x \<mapsto> g_queue_peek_tail_link q'))" "gq_data q' = gq_data q @ [x]"
proof -
  show data: "gq_data q' = gq_data q @ [x]" by (simp add: q'_def gq_data_def)
  have notin: "(n, x) \<notin> set (gq_nodes q)" for n using new by (simp add: gq_data_mem)
  have "g_hash_table_lookup (m(x \<mapsto> g_queue_peek_tail_link q')) k = Some n \<longleftrightarrow> (n, k) \<in> set (gq_nodes q')" for k n
    using lru_okD(3) [OF ok, of k n] notin [of n] by (auto simp: q'_def)
  then show "lru_ok q' (m(x \<mapsto> g_queue_peek_tail_link q'))"
    using lru_okD(1,2) [OF ok] new unfolding lru_ok_def by (auto simp: data) (simp add: q'_def)
qed

lemma lru_delete:
  assumes ok: "lru_ok q m" and mem: "(n, x) \<in> set (gq_nodes q)"
    and q': "gq_ok q'" "gq_nodes q' = filter (\<lambda>y. fst y \<noteq> n) (gq_nodes q)"
  shows "lru_ok q' (m(x \<mapsto> None))" "gq_data q' = filter (\<lambda>y. y \<noteq> x) (gq_data q)"
proof -
  note I = lru_okD [OF ok]
  have uniq: "fst y = n \<longleftrightarrow> snd y = x" if y: "y \<in> set (gq_nodes q)" for y
  proof
    assume "fst y = n"
    then have "map_of (gq_nodes q) n = Some (snd y)"
      unfolding gq_map_of [OF I(1)] using y by (metis prod.collapse)
    moreover have "map_of (gq_nodes q) n = Some x" unfolding gq_map_of [OF I(1)] by (rule mem)
    ultimately show "snd y = x" by simp
  next
    assume "snd y = x"
    then have "g_hash_table_lookup m x = Some (fst y)" unfolding I(3) using y by (metis prod.collapse)
    moreover have "g_hash_table_lookup m x = Some n" unfolding I(3) by (rule mem)
    ultimately show "fst y = n" by simp
  qed
  have nodes: "gq_nodes q' = filter (\<lambda>y. snd y \<noteq> x) (gq_nodes q)"
    unfolding q'(2) by (rule filter_cong [OF refl]) (simp only: uniq)
  show data: "gq_data q' = filter (\<lambda>y. y \<noteq> x) (gq_data q)" by (simp add: gq_data_def nodes filter_map o_def)
  show "lru_ok q' (m(x \<mapsto> None))" using I q'(1) unfolding lru_ok_def by (auto simp: data nodes)
qed

text \<open>The three steps of a use: read the data, delete the link, push a new one.\<close>

lemma lru_use:
  assumes ok: "lru_ok q m" and n: "g_hash_table_lookup m x = Some n"
  shows "\<exists>q1. node_data q n = Inr x \<and> g_queue_delete_link n q = Inr q1 \<and>
    lru_ok (g_queue_push_tail x q1) (m(x \<mapsto> g_queue_peek_tail_link (g_queue_push_tail x q1))) \<and>
    gq_data (g_queue_push_tail x q1) = filter (\<lambda>y. y \<noteq> x) (gq_data q) @ [x]"
proof -
  note I = lru_okD [OF ok]
  have mem: "(n, x) \<in> set (gq_nodes q)" using n I(3) by simp
  obtain q1 where q1: "g_queue_delete_link n q = Inr q1" "gq_ok q1"
    "gq_nodes q1 = filter (\<lambda>y. fst y \<noteq> n) (gq_nodes q)" using gq_delete [OF I(1) mem] by blast
  note del = lru_delete [OF ok mem q1(2,3)]
  have "x \<notin> set (gq_data q1)" by (simp add: del(2))
  from lru_push [OF del(1) this] del(2) q1(1) show ?thesis
    using mem gq_map_of [OF I(1)] by (simp add: node_data_def)
qed

lemma lru_pop:
  assumes ok: "lru_ok q m" and d: "gq_data q = x # xs"
  shows "\<exists>q'. g_queue_pop_head q = (Some x, q') \<and> lru_ok q' (m(x \<mapsto> None)) \<and> gq_data q' = xs"
proof -
  note I = lru_okD [OF ok]
  obtain n ns where q: "gq_nodes q = (n, x) # ns" "map snd ns = xs" using d by (auto simp: gq_data_def)
  define q' where "q' = q\<lparr>gq_nodes := ns\<rparr>"
  have pop: "g_queue_pop_head q = (Some x, q')" by (simp add: g_queue_pop_head_def q q'_def)
  have "fst y \<noteq> n" if "y \<in> set ns" for y using I(1) that by (auto simp: gq_ok_def q)
  then have flt: "gq_nodes q' = filter (\<lambda>y. fst y \<noteq> n) (gq_nodes q)" by (simp add: q q'_def)
  have "(n, x) \<in> set (gq_nodes q)" by (simp add: q)
  from lru_delete(1) [OF ok this _ flt] gq_pop_ok [OF I(1)] pop q(2) show ?thesis
    by (simp add: gq_data_def q'_def)
qed

end
