(* ===== verification/ZN_Cachemap.thy ===== *)
theory ZN_Cachemap
  imports ZN_Backend ZN_Glib
begin

text \<open>
  The cache map of \<open>src/cachemap.c\<close>: the table \<open>zone_map\<close> from data identifiers to entries, the
  tables \<open>data_map\<close> from the chunks of each zone back to data identifiers, and the counters of
  active readers. Every operation holds \<open>cache_map_mutex\<close> from its first to its last access, so
  each is one atomic step; only \<open>zn_cachemap_find\<close> releases the mutex, in \<open>g_cond_wait\<close>.

  The GLib tables store machine words: an identifier enters them by \<open>GUINT_TO_POINTER\<close> or
  \<open>GINT_TO_POINTER\<close> and leaves by \<open>GPOINTER_TO_INT\<close>, casts that are written out because the
  conversion of a signed value extends the sign. \<open>data_map\<close> is a list of association lists, since
  \<open>zn_cachemap_clear_zone\<close> iterates over one of the tables.
\<close>

section \<open>Data\<close>

datatype result_type = RESULT_LOC | RESULT_COND | RESULT_EMPTY

record zone_map_result =
  zr_location :: zn_pair
  zr_type :: result_type

record zn_cachemap =
  cm_zone_map :: "u64 \<rightharpoonup> zone_map_result"
  cm_data_map :: "(u64 \<times> u64) list list"
  cm_active_readers :: "u32 list"

section \<open>Operations\<close>

definition zn_cachemap_init :: "nat \<Rightarrow> u32 list \<Rightarrow> zn_cachemap" where
  "zn_cachemap_init num_zones active_readers_arr =
     \<lparr>cm_zone_map = Map.empty, cm_data_map = replicate num_zones [],
      cm_active_readers = active_readers_arr\<rparr>"

text \<open>
  One pass of the loop of \<open>zn_cachemap_find\<close> under the mutex: it returns an entry or waits for
  the thread that is writing the chunk.
\<close>

datatype find_pass = Find_Returns zone_map_result | Find_Waits

definition zn_cachemap_find_pass :: "u32 \<Rightarrow> zn_cachemap \<Rightarrow> (find_pass \<times> zn_cachemap) res" where
  "zn_cachemap_find_pass data_id m =
     (let key = GUINT_TO_POINTER data_id in
      case cm_zone_map m key of
        Some lookup \<Rightarrow>
          (case zr_type lookup of
             RESULT_LOC \<Rightarrow>
               let z = unat (zp_zone (zr_location lookup)) in
               bind_res (arr_get (cm_active_readers m) z) (\<lambda>n.
                 Inr (Find_Returns lookup,
                      m\<lparr>cm_active_readers := (cm_active_readers m)[z := n + 1]\<rparr>))
           | RESULT_COND \<Rightarrow> Inr (Find_Waits, m)
           | RESULT_EMPTY \<Rightarrow>
               let lookup' = lookup\<lparr>zr_type := RESULT_COND\<rparr> in
               Inr (Find_Returns lookup', m\<lparr>cm_zone_map := (cm_zone_map m)(key \<mapsto> lookup')\<rparr>))
      | None \<Rightarrow>
          let wait_cond = \<lparr>zr_location = \<lparr>zp_zone = 0, zp_chunk_offset = 0, zp_id = 0, zp_in_use = False\<rparr>,
                           zr_type = RESULT_COND\<rparr> in
          Inr (Find_Returns wait_cond, m\<lparr>cm_zone_map := (cm_zone_map m)(key \<mapsto> wait_cond)\<rparr>))"

text \<open>The call as a caller without concurrent writers sees it: a wait never ends.\<close>

definition zn_cachemap_find :: "u32 \<Rightarrow> zn_cachemap \<Rightarrow> (zone_map_result \<times> zn_cachemap) res" where
  "zn_cachemap_find data_id m =
     bind_res (zn_cachemap_find_pass data_id m) (\<lambda>(r, m').
       case r of Find_Returns x \<Rightarrow> Inr (x, m') | Find_Waits \<Rightarrow> Inl Blocked)"

definition zn_cachemap_insert :: "bool \<Rightarrow> u32 \<Rightarrow> zn_pair \<Rightarrow> zn_cachemap \<Rightarrow> zn_cachemap res" where
  "zn_cachemap_insert nd data_id location m =
     (let key = GUINT_TO_POINTER data_id; z = unat (zp_zone location) in
      c_assert nd (cm_zone_map m key \<noteq> None)
        (case cm_zone_map m key of
           None \<Rightarrow> Inl Null_Deref
         | Some result \<Rightarrow>
             c_assert nd (zr_type result = RESULT_COND)
               (bind_res (arr_get (cm_data_map m) z) (\<lambda>dm.
                  Inr (m\<lparr>cm_zone_map := (cm_zone_map m)(key \<mapsto>
                             result\<lparr>zr_location := location, zr_type := RESULT_LOC\<rparr>),
                         cm_data_map := (cm_data_map m)[z :=
                             AList.update (GUINT_TO_POINTER (zp_chunk_offset location)) key dm]\<rparr>)))))"

definition zn_cachemap_clear_chunk :: "bool \<Rightarrow> zn_pair \<Rightarrow> zn_cachemap \<Rightarrow> zn_cachemap res" where
  "zn_cachemap_clear_chunk nd location m =
     (let z = unat (zp_zone location); c = GUINT_TO_POINTER (zp_chunk_offset location) in
      bind_res (arr_get (cm_data_map m) z) (\<lambda>dm.
        let data_id = GPOINTER_TO_INT (case map_of dm c of None \<Rightarrow> 0 | Some v \<Rightarrow> v);
            key = GINT_TO_POINTER data_id in
        c_assert nd (cm_zone_map m key \<noteq> None)
          (case cm_zone_map m key of
             None \<Rightarrow> Inl Null_Deref
           | Some res \<Rightarrow>
               c_assert nd (zr_type res = RESULT_LOC)
                 (c_assert nd (zp_zone (zr_location res) = zp_zone location)
                   (c_assert nd (zp_chunk_offset (zr_location res) = zp_chunk_offset location)
                     (Inr (m\<lparr>cm_zone_map := (cm_zone_map m)(key \<mapsto> res\<lparr>zr_type := RESULT_EMPTY\<rparr>),
                            cm_data_map := (cm_data_map m)[z := AList.delete c dm]\<rparr>)))))))"

text \<open>The loop of \<open>zn_cachemap_clear_zone\<close> over the values of the zone's table.\<close>

fun clear_entries :: "bool \<Rightarrow> u32 \<Rightarrow> u64 list \<Rightarrow> (u64 \<rightharpoonup> zone_map_result) \<Rightarrow> (u64 \<rightharpoonup> zone_map_result) res" where
  "clear_entries nd zone [] zm = Inr zm"
| "clear_entries nd zone (value # values) zm =
     (let key = GINT_TO_POINTER (GPOINTER_TO_INT value) in
      c_assert nd (zm key \<noteq> None)
        (case zm key of
           None \<Rightarrow> Inl Null_Deref
         | Some res \<Rightarrow>
             c_assert nd (zr_type res = RESULT_LOC)
               (c_assert nd (zp_zone (zr_location res) = zone)
                 (clear_entries nd zone values (zm(key \<mapsto> res\<lparr>zr_type := RESULT_EMPTY\<rparr>))))))"

definition zn_cachemap_clear_zone :: "bool \<Rightarrow> u32 \<Rightarrow> zn_cachemap \<Rightarrow> zn_cachemap res" where
  "zn_cachemap_clear_zone nd zone m =
     bind_res (arr_get (cm_data_map m) (unat zone)) (\<lambda>dm.
       bind_res (clear_entries nd zone (map snd dm) (cm_zone_map m)) (\<lambda>zm.
         Inr (m\<lparr>cm_zone_map := zm, cm_data_map := (cm_data_map m)[unat zone := []]\<rparr>)))"

definition zn_cachemap_fail :: "bool \<Rightarrow> u32 \<Rightarrow> zn_cachemap \<Rightarrow> zn_cachemap res" where
  "zn_cachemap_fail nd data_id m =
     (let key = GUINT_TO_POINTER data_id in
      c_assert nd (cm_zone_map m key \<noteq> None)
        (case cm_zone_map m key of
           None \<Rightarrow> Inl Null_Deref
         | Some entry \<Rightarrow>
             c_assert nd (zr_type entry = RESULT_COND)
               (Inr (m\<lparr>cm_zone_map := (cm_zone_map m)(key \<mapsto> entry\<lparr>zr_type := RESULT_EMPTY\<rparr>)\<rparr>))))"

section \<open>Abstraction and invariant\<close>

text \<open>
  What the map says of an identifier. An entry of type \<open>RESULT_EMPTY\<close> is kept for its condition
  variable only and means the same as no entry.
\<close>

datatype slot = Absent | Pending | Located zn_pair

definition entry_slot :: "zone_map_result option \<Rightarrow> slot" where
  "entry_slot e = (case e of None \<Rightarrow> Absent
     | Some r \<Rightarrow> (case zr_type r of RESULT_LOC \<Rightarrow> Located (zr_location r)
                  | RESULT_COND \<Rightarrow> Pending | RESULT_EMPTY \<Rightarrow> Absent))"

definition cm_slot :: "zn_cachemap \<Rightarrow> u32 \<Rightarrow> slot" where
  "cm_slot m i = entry_slot (cm_zone_map m (GUINT_TO_POINTER i))"

definition same_place :: "zn_pair \<Rightarrow> zn_pair \<Rightarrow> bool" where
  "same_place p q \<longleftrightarrow> zp_zone p = zp_zone q \<and> zp_chunk_offset p = zp_chunk_offset q"

text \<open>
  \<open>zone_map\<close> and \<open>data_map\<close> are inverse to each other on the located identifiers.
\<close>

definition cm_back :: "zn_cachemap \<Rightarrow> nat \<Rightarrow> u64 \<rightharpoonup> u64" where
  "cm_back m z = map_of (cm_data_map m ! z)"

definition cachemap_inv :: "nat \<Rightarrow> zn_cachemap \<Rightarrow> bool" where
  "cachemap_inv nz m \<longleftrightarrow>
     length (cm_data_map m) = nz \<and> length (cm_active_readers m) = nz \<and>
     (\<forall>z<nz. distinct (map fst (cm_data_map m ! z))) \<and>
     (\<forall>i p. cm_slot m i = Located p \<longrightarrow> id_ok i \<and> unat (zp_zone p) < nz \<and>
        cm_back m (unat (zp_zone p)) (GUINT_TO_POINTER (zp_chunk_offset p)) = Some (GUINT_TO_POINTER i)) \<and>
     (\<forall>z<nz. \<forall>k v. cm_back m z k = Some v \<longrightarrow>
        (\<exists>i p. v = GUINT_TO_POINTER i \<and> cm_slot m i = Located p \<and> unat (zp_zone p) = z \<and>
           k = GUINT_TO_POINTER (zp_chunk_offset p)))"


lemma entry_slot_simps [simp]:
  "entry_slot None = Absent"
  "entry_slot (Some r) = (case zr_type r of RESULT_LOC \<Rightarrow> Located (zr_location r)
     | RESULT_COND \<Rightarrow> Pending | RESULT_EMPTY \<Rightarrow> Absent)"
  by (simp_all add: entry_slot_def)

lemma entry_slot_iff:
  "entry_slot e = Pending \<longleftrightarrow> (\<exists>r. e = Some r \<and> zr_type r = RESULT_COND)"
  "entry_slot e = Located p \<longleftrightarrow> (\<exists>r. e = Some r \<and> zr_type r = RESULT_LOC \<and> zr_location r = p)"
  by (auto simp: entry_slot_def split: option.splits result_type.splits)

text \<open>Writing one entry changes the slot of one identifier.\<close>

lemma cm_slot_upd:
  "cm_slot (m\<lparr>cm_zone_map := (cm_zone_map m)(GUINT_TO_POINTER i \<mapsto> r)\<rparr>) =
   (cm_slot m)(i := entry_slot (Some r))"
  "cm_slot (m\<lparr>cm_zone_map := (cm_zone_map m)(GUINT_TO_POINTER i \<mapsto> r), cm_data_map := dms\<rparr>) =
   (cm_slot m)(i := entry_slot (Some r))"
  by (simp_all add: cm_slot_def fun_eq_iff)

lemma cm_slot_frame [simp]:
  "cm_slot (m\<lparr>cm_active_readers := a\<rparr>) = cm_slot m" "cm_slot (m\<lparr>cm_data_map := d\<rparr>) = cm_slot m"
  by (simp_all add: cm_slot_def fun_eq_iff)

lemma cm_back_frame [simp]:
  "cm_back (m\<lparr>cm_active_readers := a\<rparr>) = cm_back m" "cm_back (m\<lparr>cm_zone_map := d\<rparr>) = cm_back m"
  "cm_back (m\<lparr>cm_zone_map := d, cm_data_map := e\<rparr>) z = map_of (e ! z)"
  by (simp_all add: cm_back_def fun_eq_iff)

lemma cachemap_invD:
  assumes "cachemap_inv nz m"
  shows "length (cm_data_map m) = nz" "length (cm_active_readers m) = nz"
    "z < nz \<Longrightarrow> distinct (map fst (cm_data_map m ! z))"
    "cm_slot m i = Located p \<Longrightarrow> id_ok i" "cm_slot m i = Located p \<Longrightarrow> unat (zp_zone p) < nz"
    "cm_slot m i = Located p \<Longrightarrow>
       cm_back m (unat (zp_zone p)) (GUINT_TO_POINTER (zp_chunk_offset p)) = Some (GUINT_TO_POINTER i)"
    "z < nz \<Longrightarrow> cm_back m z k = Some v \<Longrightarrow>
       \<exists>i p. v = GUINT_TO_POINTER i \<and> cm_slot m i = Located p \<and> unat (zp_zone p) = z \<and>
         k = GUINT_TO_POINTER (zp_chunk_offset p)"
  using assms unfolding cachemap_inv_def by blast+

text \<open>No two identifiers share a place.\<close>

lemma slot_place_unique:
  assumes "cachemap_inv nz m" "cm_slot m i = Located p" "cm_slot m j = Located q" "same_place p q"
  shows "i = j"
  using cachemap_invD(6) [OF assms(1,2)] cachemap_invD(6) [OF assms(1,3)] assms(4)
  by (simp add: same_place_def)

text \<open>A change of entries that locates nothing new keeps the invariant.\<close>

lemma cachemap_inv_slots:
  assumes "cachemap_inv nz m" "cm_data_map m' = cm_data_map m"
    "length (cm_active_readers m') = length (cm_active_readers m)"
    "\<And>i p. cm_slot m' i = Located p \<longleftrightarrow> cm_slot m i = Located p"
  shows "cachemap_inv nz m'"
  using assms by (simp add: cachemap_inv_def cm_back_def)

lemma cachemap_inv_upd_entry:
  assumes "cachemap_inv nz m" "\<And>p. cm_slot m i \<noteq> Located p" "zr_type r \<noteq> RESULT_LOC"
  shows "cachemap_inv nz (m\<lparr>cm_zone_map := (cm_zone_map m)(GUINT_TO_POINTER i \<mapsto> r)\<rparr>)"
proof (rule cachemap_inv_slots [OF assms(1)])
  show "cm_slot (m\<lparr>cm_zone_map := (cm_zone_map m)(GUINT_TO_POINTER i \<mapsto> r)\<rparr>) j = Located p \<longleftrightarrow>
    cm_slot m j = Located p" for j p
    using assms(2,3) by (auto simp: cm_slot_upd split: result_type.splits)
qed simp_all

section \<open>Laws\<close>

lemma init_ok:
  "cachemap_inv nz (zn_cachemap_init nz (replicate nz 0))" "cm_slot (zn_cachemap_init nz ar) i = Absent"
  by (auto simp: cachemap_inv_def zn_cachemap_init_def cm_slot_def cm_back_def)

lemma find_absent:
  assumes "cachemap_inv nz m" "cm_slot m i = Absent"
  shows "\<exists>r m'. zn_cachemap_find_pass i m = Inr (Find_Returns r, m') \<and> zr_type r = RESULT_COND \<and>
    cachemap_inv nz m' \<and> cm_slot m' = (cm_slot m)(i := Pending) \<and>
    cm_active_readers m' = cm_active_readers m"
proof (cases "cm_zone_map m (GUINT_TO_POINTER i)")
  case None
  then show ?thesis using assms
    by (simp add: zn_cachemap_find_pass_def Let_def cm_slot_upd cachemap_inv_upd_entry)
next
  case (Some r)
  then have "zr_type r = RESULT_EMPTY"
    using assms(2) by (simp add: cm_slot_def split: result_type.splits)
  with Some assms show ?thesis
    by (simp add: zn_cachemap_find_pass_def Let_def cm_slot_upd cachemap_inv_upd_entry)
qed

lemma find_pending:
  assumes "cm_slot m i = Pending"
  shows "zn_cachemap_find_pass i m = Inr (Find_Waits, m)"
  using assms by (auto simp: cm_slot_def entry_slot_iff zn_cachemap_find_pass_def)

definition inc_reader :: "u32 \<Rightarrow> u32 list \<Rightarrow> u32 list" where
  "inc_reader z ar = ar[unat z := ar ! unat z + 1]"

lemma find_located:
  assumes "cachemap_inv nz m" "cm_slot m i = Located p"
  shows "\<exists>r m'. zn_cachemap_find_pass i m = Inr (Find_Returns r, m') \<and> zr_type r = RESULT_LOC \<and>
    zr_location r = p \<and> cachemap_inv nz m' \<and> cm_slot m' = cm_slot m \<and>
    cm_active_readers m' = inc_reader (zp_zone p) (cm_active_readers m)"
proof -
  obtain r where r: "cm_zone_map m (GUINT_TO_POINTER i) = Some r" "zr_type r = RESULT_LOC" "zr_location r = p"
    using assms(2) by (auto simp: cm_slot_def entry_slot_iff)
  have z: "unat (zp_zone p) < length (cm_active_readers m)"
    using cachemap_invD(2,5) [OF assms(1)] assms(2) by blast
  have "cachemap_inv nz (m\<lparr>cm_active_readers := inc_reader (zp_zone p) (cm_active_readers m)\<rparr>)"
    by (rule cachemap_inv_slots [OF assms(1)]) (simp_all add: inc_reader_def)
  with r z show ?thesis by (simp add: zn_cachemap_find_pass_def Let_def inc_reader_def)
qed

lemma cm_fail_ok:
  assumes "cachemap_inv nz m" "cm_slot m i = Pending"
  shows "\<exists>m'. zn_cachemap_fail nd i m = Inr m' \<and> cachemap_inv nz m' \<and>
    cm_slot m' = (cm_slot m)(i := Absent) \<and> cm_active_readers m' = cm_active_readers m"
proof -
  obtain r where "cm_zone_map m (GUINT_TO_POINTER i) = Some r" "zr_type r = RESULT_COND"
    using assms(2) by (auto simp: cm_slot_def entry_slot_iff)
  with assms show ?thesis
    by (simp add: zn_cachemap_fail_def Let_def cm_slot_upd cachemap_inv_upd_entry)
qed

text \<open>Whether a location is taken by some identifier.\<close>

definition place_free :: "(u32 \<Rightarrow> slot) \<Rightarrow> zn_pair \<Rightarrow> bool" where
  "place_free s p \<longleftrightarrow> (\<forall>i q. s i = Located q \<longrightarrow> \<not> same_place p q)"

lemma cm_insert_ok:
  assumes inv: "cachemap_inv nz m" and pend: "cm_slot m i = Pending"
    and ok: "id_ok i" "unat (zp_zone p) < nz" "place_free (cm_slot m) p"
  shows "\<exists>m'. zn_cachemap_insert nd i p m = Inr m' \<and> cachemap_inv nz m' \<and>
    cm_slot m' = (cm_slot m)(i := Located p) \<and> cm_active_readers m' = cm_active_readers m"
proof -
  obtain r where r: "cm_zone_map m (GUINT_TO_POINTER i) = Some r" "zr_type r = RESULT_COND"
    using pend by (auto simp: cm_slot_def entry_slot_iff)
  note I = cachemap_invD [OF inv]
  define z where "z = unat (zp_zone p)"
  define c where "c = GUINT_TO_POINTER (zp_chunk_offset p)"
  define dm where "dm = AList.update c (GUINT_TO_POINTER i) (cm_data_map m ! z)"
  define m' where "m' = m\<lparr>cm_zone_map := (cm_zone_map m)(GUINT_TO_POINTER i \<mapsto>
      r\<lparr>zr_location := p, zr_type := RESULT_LOC\<rparr>), cm_data_map := (cm_data_map m)[z := dm]\<rparr>"
  have z: "z < nz" "z < length (cm_data_map m)" using ok(2) I(1) by (simp_all add: z_def)
  have slot: "cm_slot m' = (cm_slot m)(i := Located p)" by (simp add: m'_def cm_slot_upd)
  have bk: "cm_back m' z' = (if z' = z then (cm_back m z)(c \<mapsto> GUINT_TO_POINTER i) else cm_back m z')" for z'
    using z by (simp add: m'_def dm_def cm_back_def update_conv')
  have taken: "\<not> (unat (zp_zone q) = z \<and> GUINT_TO_POINTER (zp_chunk_offset q) = c)"
    if "cm_slot m j = Located q" for j q
    using ok(3) that unfolding place_free_def same_place_def z_def c_def by (metis GUINT_inject unat_inject)
  have "cachemap_inv nz m'"
    unfolding cachemap_inv_def
  proof (intro conjI allI impI)
    show "length (cm_data_map m') = nz" "length (cm_active_readers m') = nz"
      using I(1,2) by (simp_all add: m'_def)
    show "distinct (map fst (cm_data_map m' ! z'))" if "z' < nz" for z'
      using z I(3) [OF that] by (cases "z' = z") (simp_all add: m'_def dm_def distinct_update)
  next
    fix j q assume "cm_slot m' j = Located q"
    then have "j = i \<and> q = p \<or> j \<noteq> i \<and> cm_slot m j = Located q" by (auto simp: slot split: if_splits)
    then show "id_ok j" "unat (zp_zone q) < nz"
      "cm_back m' (unat (zp_zone q)) (GUINT_TO_POINTER (zp_chunk_offset q)) = Some (GUINT_TO_POINTER j)"
      using ok(1,2) I(4,5,6) [of j q] taken [of j q] by (auto simp: bk z_def c_def)
  next
    fix z' k v assume a: "z' < nz" "cm_back m' z' k = Some v"
    show "\<exists>j q. v = GUINT_TO_POINTER j \<and> cm_slot m' j = Located q \<and> unat (zp_zone q) = z' \<and>
        k = GUINT_TO_POINTER (zp_chunk_offset q)"
    proof (cases "z' = z \<and> k = c")
      case True
      then show ?thesis using a(2) by (intro exI [of _ i] exI [of _ p]) (auto simp: bk slot z_def c_def)
    next
      case False
      then have "cm_back m z' k = Some v" using a(2) by (auto simp: bk split: if_splits)
      from I(7) [OF a(1) this] pend show ?thesis by (auto simp: slot)
    qed
  qed
  moreover have "zn_cachemap_insert nd i p m = Inr m'"
    using r z by (simp add: zn_cachemap_insert_def Let_def m'_def dm_def z_def c_def)
  ultimately show ?thesis using slot by (simp add: m'_def)
qed

lemma cm_clear_chunk_ok:
  assumes inv: "cachemap_inv nz m" and loc: "cm_slot m i = Located q" and same: "same_place q p"
  shows "\<exists>m'. zn_cachemap_clear_chunk nd p m = Inr m' \<and> cachemap_inv nz m' \<and>
    cm_slot m' = (cm_slot m)(i := Absent) \<and> cm_active_readers m' = cm_active_readers m"
proof -
  obtain r where r: "cm_zone_map m (GUINT_TO_POINTER i) = Some r" "zr_type r = RESULT_LOC" "zr_location r = q"
    using loc by (auto simp: cm_slot_def entry_slot_iff)
  note I = cachemap_invD [OF inv]
  define z where "z = unat (zp_zone p)"
  define c where "c = GUINT_TO_POINTER (zp_chunk_offset p)"
  have q: "zp_zone q = zp_zone p" "zp_chunk_offset q = zp_chunk_offset p" using same by (simp_all add: same_place_def)
  define m' where "m' = m\<lparr>cm_zone_map := (cm_zone_map m)(GUINT_TO_POINTER i \<mapsto> r\<lparr>zr_type := RESULT_EMPTY\<rparr>),
      cm_data_map := (cm_data_map m)[z := AList.delete c (cm_data_map m ! z)]\<rparr>"
  have z: "z < nz" "z < length (cm_data_map m)" using I(5) [OF loc] I(1) q by (simp_all add: z_def)
  have found: "map_of (cm_data_map m ! z) c = Some (GUINT_TO_POINTER i)"
    using I(6) [OF loc] q by (simp add: cm_back_def z_def c_def)
  have slot: "cm_slot m' = (cm_slot m)(i := Absent)" by (simp add: m'_def cm_slot_upd)
  have bk: "cm_back m' z' = (if z' = z then (cm_back m z)(c := None) else cm_back m z')" for z'
    using z by (simp add: m'_def cm_back_def delete_conv')
  have "cachemap_inv nz m'"
    unfolding cachemap_inv_def
  proof (intro conjI allI impI)
    show "length (cm_data_map m') = nz" "length (cm_active_readers m') = nz"
      using I(1,2) by (simp_all add: m'_def)
    show "distinct (map fst (cm_data_map m' ! z'))" if "z' < nz" for z'
      using z I(3) [OF that] by (cases "z' = z") (simp_all add: m'_def distinct_delete)
  next
    fix j s assume "cm_slot m' j = Located s"
    then have j: "j \<noteq> i" "cm_slot m j = Located s" by (auto simp: slot split: if_splits)
    have "\<not> same_place q s" using slot_place_unique [OF inv loc j(2)] j(1) by blast
    then show "id_ok j" "unat (zp_zone s) < nz"
      "cm_back m' (unat (zp_zone s)) (GUINT_TO_POINTER (zp_chunk_offset s)) = Some (GUINT_TO_POINTER j)"
      using I(4,5,6) [OF j(2)] q by (auto simp: bk z_def c_def same_place_def)
  next
    fix z' k v assume a: "z' < nz" "cm_back m' z' k = Some v"
    then have b: "cm_back m z' k = Some v" "\<not> (z' = z \<and> k = c)" by (auto simp: bk split: if_splits)
    obtain j s where j: "v = GUINT_TO_POINTER j" "cm_slot m j = Located s" "unat (zp_zone s) = z'"
        "k = GUINT_TO_POINTER (zp_chunk_offset s)" using I(7) [OF a(1) b(1)] by blast
    have "j \<noteq> i" using b(2) j loc q by (auto simp: z_def c_def)
    then show "\<exists>j q. v = GUINT_TO_POINTER j \<and> cm_slot m' j = Located q \<and> unat (zp_zone q) = z' \<and>
        k = GUINT_TO_POINTER (zp_chunk_offset q)" using j by (auto simp: slot)
  qed
  moreover have "zn_cachemap_clear_chunk nd p m = Inr m'"
    using r z found q pointer_int_roundtrip [OF I(4) [OF loc]]
    by (simp add: zn_cachemap_clear_chunk_def Let_def m'_def z_def [symmetric] c_def [symmetric])
  ultimately show ?thesis using slot by (simp add: m'_def)
qed

lemma clear_entries_ok:
  "distinct vs \<Longrightarrow>
   (\<And>v. v \<in> set vs \<Longrightarrow> GINT_TO_POINTER (GPOINTER_TO_INT v) = v \<and>
     (\<exists>r. zm v = Some r \<and> zr_type r = RESULT_LOC \<and> zp_zone (zr_location r) = zone)) \<Longrightarrow>
   clear_entries nd zone vs zm =
     Inr (\<lambda>k. if k \<in> set vs then map_option (zr_type_update (\<lambda>_. RESULT_EMPTY)) (zm k) else zm k)"
proof (induction vs arbitrary: zm)
  case (Cons v vs)
  obtain r where r: "zm v = Some r" "zr_type r = RESULT_LOC" "zp_zone (zr_location r) = zone"
    using Cons.prems(2) [of v] by auto
  have "clear_entries nd zone vs (zm(v \<mapsto> r\<lparr>zr_type := RESULT_EMPTY\<rparr>)) =
     Inr (\<lambda>k. if k \<in> set vs then map_option (zr_type_update (\<lambda>_. RESULT_EMPTY)) ((zm(v \<mapsto> r\<lparr>zr_type := RESULT_EMPTY\<rparr>)) k)
       else (zm(v \<mapsto> r\<lparr>zr_type := RESULT_EMPTY\<rparr>)) k)"
    by (rule Cons.IH) (use Cons.prems in auto)
  then show ?case using Cons.prems r by (auto simp: Let_def fun_eq_iff)
qed (simp add: fun_eq_iff)

lemma entry_slot_cleared:
  "entry_slot (map_option (zr_type_update (\<lambda>_. RESULT_EMPTY)) e) = Absent"
  by (cases e) simp_all

definition evict_slots :: "u32 \<Rightarrow> (u32 \<Rightarrow> slot) \<Rightarrow> u32 \<Rightarrow> slot" where
  "evict_slots zone s i = (case s i of Located p \<Rightarrow> if zp_zone p = zone then Absent else s i | _ \<Rightarrow> s i)"

lemma evict_slots_Located [simp]:
  "evict_slots zone s i = Located p \<longleftrightarrow> s i = Located p \<and> zp_zone p \<noteq> zone"
  by (auto simp: evict_slots_def split: slot.splits)

text \<open>The values in a zone's table are the identifiers located in the zone, each once.\<close>

lemma zone_values:
  assumes inv: "cachemap_inv nz m" and z: "unat zone < nz"
  shows "v \<in> set (map snd (cm_data_map m ! unat zone)) \<longleftrightarrow>
      (\<exists>i p. v = GUINT_TO_POINTER i \<and> cm_slot m i = Located p \<and> zp_zone p = zone)"
    and "distinct (map snd (cm_data_map m ! unat zone))"
proof -
  note I = cachemap_invD [OF inv]
  let ?dm = "cm_data_map m ! unat zone"
  have mem: "(k, v) \<in> set ?dm \<longleftrightarrow> cm_back m (unat zone) k = Some v" for k v
    using I(3) [OF z] by (simp add: cm_back_def)
  have "\<exists>i p. v = GUINT_TO_POINTER i \<and> cm_slot m i = Located p \<and> zp_zone p = zone"
    if v: "v \<in> set (map snd ?dm)"
  proof -
    from v obtain k where "(k, v) \<in> set ?dm" by auto
    then have "cm_back m (unat zone) k = Some v" by (simp only: mem)
    from I(7) [OF z this] show ?thesis by auto
  qed
  moreover have "GUINT_TO_POINTER i \<in> set (map snd ?dm)" if "cm_slot m i = Located p" "zp_zone p = zone" for i p
  proof -
    have "(GUINT_TO_POINTER (zp_chunk_offset p), GUINT_TO_POINTER i) \<in> set ?dm"
      unfolding mem using I(6) [OF that(1)] that(2) by simp
    then show ?thesis by force
  qed
  ultimately show "v \<in> set (map snd ?dm) \<longleftrightarrow>
      (\<exists>i p. v = GUINT_TO_POINTER i \<and> cm_slot m i = Located p \<and> zp_zone p = zone)" by blast
  have "inj_on snd (set ?dm)"
  proof (rule inj_onI)
    fix x y assume a: "x \<in> set ?dm" "y \<in> set ?dm" "snd x = snd y"
    obtain k l v where xy: "x = (k, v)" "y = (l, v)" using a(3) by (cases x, cases y) auto
    have "cm_back m (unat zone) k = Some v" "cm_back m (unat zone) l = Some v"
      using a(1,2) unfolding xy mem by blast+
    from I(7) [OF z this(1)] I(7) [OF z this(2)] show "x = y" by (auto simp: xy)
  qed
  moreover have "distinct ?dm" using I(3) [OF z] by (simp add: distinct_map)
  ultimately show "distinct (map snd ?dm)" by (simp add: distinct_map)
qed

lemma cm_clear_zone_ok:
  assumes inv: "cachemap_inv nz m" and z: "unat zone < nz"
  shows "\<exists>m'. zn_cachemap_clear_zone nd zone m = Inr m' \<and> cachemap_inv nz m' \<and>
    cm_slot m' = evict_slots zone (cm_slot m) \<and> cm_active_readers m' = cm_active_readers m"
proof -
  note I = cachemap_invD [OF inv]
  let ?vs = "map snd (cm_data_map m ! unat zone)"
  define zm where "zm = (\<lambda>k. if k \<in> set ?vs then map_option (zr_type_update (\<lambda>_. RESULT_EMPTY)) (cm_zone_map m k)
    else cm_zone_map m k)"
  define m' where "m' = m\<lparr>cm_zone_map := zm, cm_data_map := (cm_data_map m)[unat zone := []]\<rparr>"
  have "clear_entries nd zone ?vs (cm_zone_map m) = Inr zm"
    unfolding zm_def
  proof (rule clear_entries_ok [OF zone_values(2) [OF inv z]])
    fix v assume "v \<in> set ?vs"
    then obtain i p where i: "v = GUINT_TO_POINTER i" "cm_slot m i = Located p" "zp_zone p = zone"
      unfolding zone_values(1) [OF inv z] by blast
    then show "GINT_TO_POINTER (GPOINTER_TO_INT v) = v \<and>
      (\<exists>r. cm_zone_map m v = Some r \<and> zr_type r = RESULT_LOC \<and> zp_zone (zr_location r) = zone)"
      using pointer_int_roundtrip [OF I(4) [OF i(2)]] by (auto simp: cm_slot_def entry_slot_iff)
  qed
  then have run: "zn_cachemap_clear_zone nd zone m = Inr m'"
    using z I(1) by (simp add: zn_cachemap_clear_zone_def m'_def)
  have slot: "cm_slot m' = evict_slots zone (cm_slot m)"
  proof
    fix i
    have "GUINT_TO_POINTER i \<in> set ?vs \<longleftrightarrow> (\<exists>p. cm_slot m i = Located p \<and> zp_zone p = zone)"
      unfolding zone_values(1) [OF inv z] by auto
    then show "cm_slot m' i = evict_slots zone (cm_slot m) i"
      by (auto simp: cm_slot_def m'_def zm_def entry_slot_cleared evict_slots_def split: slot.splits)
  qed
  have bk: "cm_back m' z' = (if z' = unat zone then Map.empty else cm_back m z')" for z'
    using z I(1) by (simp add: m'_def cm_back_def)
  have dist: "distinct (map fst (cm_data_map m' ! z'))" if "z' < nz" for z'
    using z I(1) I(3) [OF that] by (cases "z' = unat zone") (simp_all add: m'_def)
  have "cachemap_inv nz m'"
    unfolding cachemap_inv_def slot bk
  proof (intro conjI allI impI)
    fix z' k v assume a: "z' < nz" "(if z' = unat zone then Map.empty else cm_back m z') k = Some v"
    then have "z' \<noteq> unat zone" "cm_back m z' k = Some v" by (auto split: if_splits)
    with I(7) [OF a(1)] show "\<exists>i p. v = GUINT_TO_POINTER i \<and> evict_slots zone (cm_slot m) i = Located p \<and>
      unat (zp_zone p) = z' \<and> k = GUINT_TO_POINTER (zp_chunk_offset p)" by fastforce
  qed (use I(1,2,4,5,6) dist in \<open>auto simp: m'_def\<close>)
  with run slot show ?thesis by (simp add: m'_def)
qed

section \<open>The interface\<close>

text \<open>
  What the clients of the map rely on: a view \<open>slot\<close> of the state, a counter of readers per zone,
  and for each operation what it does to both. \<open>find\<close> is one pass under the mutex.
\<close>

locale cache_index =
  fixes inv :: "'m \<Rightarrow> bool"
    and slot_of :: "'m \<Rightarrow> u32 \<Rightarrow> slot"
    and readers :: "'m \<Rightarrow> u32 list"
    and zones :: nat
    and find :: "u32 \<Rightarrow> 'm \<Rightarrow> (find_pass \<times> 'm) res"
    and insert :: "u32 \<Rightarrow> zn_pair \<Rightarrow> 'm \<Rightarrow> 'm res"
    and clear_chunk :: "zn_pair \<Rightarrow> 'm \<Rightarrow> 'm res"
    and clear_zone :: "u32 \<Rightarrow> 'm \<Rightarrow> 'm res"
    and fail :: "u32 \<Rightarrow> 'm \<Rightarrow> 'm res"
  assumes find_miss: "inv m \<Longrightarrow> slot_of m i = Absent \<Longrightarrow>
      \<exists>r m'. find i m = Inr (Find_Returns r, m') \<and> zr_type r = RESULT_COND \<and> inv m' \<and>
        slot_of m' = (slot_of m)(i := Pending) \<and> readers m' = readers m"
    and find_wait: "inv m \<Longrightarrow> slot_of m i = Pending \<Longrightarrow> find i m = Inr (Find_Waits, m)"
    and find_hit: "inv m \<Longrightarrow> slot_of m i = Located p \<Longrightarrow>
      \<exists>r m'. find i m = Inr (Find_Returns r, m') \<and> zr_type r = RESULT_LOC \<and> zr_location r = p \<and>
        inv m' \<and> slot_of m' = slot_of m \<and> readers m' = inc_reader (zp_zone p) (readers m)"
    and insert_law: "inv m \<Longrightarrow> slot_of m i = Pending \<Longrightarrow> id_ok i \<Longrightarrow> unat (zp_zone p) < zones \<Longrightarrow>
      place_free (slot_of m) p \<Longrightarrow>
      \<exists>m'. insert i p m = Inr m' \<and> inv m' \<and> slot_of m' = (slot_of m)(i := Located p) \<and>
        readers m' = readers m"
    and clear_chunk_law: "inv m \<Longrightarrow> slot_of m i = Located q \<Longrightarrow> same_place q p \<Longrightarrow>
      \<exists>m'. clear_chunk p m = Inr m' \<and> inv m' \<and> slot_of m' = (slot_of m)(i := Absent) \<and>
        readers m' = readers m"
    and clear_zone_law: "inv m \<Longrightarrow> unat z < zones \<Longrightarrow>
      \<exists>m'. clear_zone z m = Inr m' \<and> inv m' \<and> slot_of m' = evict_slots z (slot_of m) \<and>
        readers m' = readers m"
    and fail_law: "inv m \<Longrightarrow> slot_of m i = Pending \<Longrightarrow>
      \<exists>m'. fail i m = Inr m' \<and> inv m' \<and> slot_of m' = (slot_of m)(i := Absent) \<and> readers m' = readers m"
    and located_zone: "inv m \<Longrightarrow> slot_of m i = Located p \<Longrightarrow> unat (zp_zone p) < zones"
    and located_once: "inv m \<Longrightarrow> slot_of m i = Located p \<Longrightarrow> slot_of m j = Located q \<Longrightarrow>
      same_place p q \<Longrightarrow> i = j"
begin

text \<open>A miss, completed by an insert, is a hit at the inserted location.\<close>

lemma miss_insert_hit:
  assumes "inv m" "slot_of m i = Absent" "id_ok i" "unat (zp_zone p) < zones" "place_free (slot_of m) p"
  shows "\<exists>r m1 m2 r' m3. find i m = Inr (Find_Returns r, m1) \<and> zr_type r = RESULT_COND \<and>
    insert i p m1 = Inr m2 \<and> find i m2 = Inr (Find_Returns r', m3) \<and>
    zr_type r' = RESULT_LOC \<and> zr_location r' = p \<and> inv m3 \<and> slot_of m3 = (slot_of m)(i := Located p)"
proof -
  obtain r m1 where 1: "find i m = Inr (Find_Returns r, m1)" "zr_type r = RESULT_COND" "inv m1"
    "slot_of m1 = (slot_of m)(i := Pending)" using find_miss [OF assms(1,2)] by blast
  have "place_free (slot_of m1) p" using assms(5) by (auto simp: place_free_def 1(4))
  then obtain m2 where 2: "insert i p m1 = Inr m2" "inv m2" "slot_of m2 = (slot_of m1)(i := Located p)"
    using insert_law [OF 1(3) _ assms(3,4)] 1(4) by auto
  from find_hit [OF 2(2), of i p] 1 2 show ?thesis by fastforce
qed

text \<open>After a failed write the next caller gets the chunk to write again.\<close>

lemma fail_find:
  assumes "inv m" "slot_of m i = Pending"
  shows "\<exists>m1 r m2. fail i m = Inr m1 \<and> find i m1 = Inr (Find_Returns r, m2) \<and> zr_type r = RESULT_COND \<and>
    inv m2 \<and> slot_of m2 = slot_of m"
proof -
  obtain m1 where 1: "fail i m = Inr m1" "inv m1" "slot_of m1 = (slot_of m)(i := Absent)"
    using fail_law [OF assms] by blast
  with find_miss [OF 1(2), of i] assms(2) show ?thesis by fastforce
qed

text \<open>Clearing a zone leaves no identifier in it, and frees its places.\<close>

lemma clear_zone_find:
  assumes "inv m" "unat z < zones" "slot_of m i = Located p"
  shows "\<exists>m1 r m2. clear_zone z m = Inr m1 \<and> (\<forall>q. zp_zone q = z \<longrightarrow> place_free (slot_of m1) q) \<and>
    find i m1 = Inr (Find_Returns r, m2) \<and> inv m2 \<and>
    (if zp_zone p = z then zr_type r = RESULT_COND else zr_type r = RESULT_LOC \<and> zr_location r = p)"
proof -
  obtain m1 where 1: "clear_zone z m = Inr m1" "inv m1" "slot_of m1 = evict_slots z (slot_of m)"
    using clear_zone_law [OF assms(1,2)] by blast
  have free: "place_free (slot_of m1) q" if "zp_zone q = z" for q
    using that by (auto simp: 1(3) place_free_def same_place_def)
  show ?thesis
  proof (cases "zp_zone p = z")
    case True
    then have "slot_of m1 i = Absent" using assms(3) by (simp add: 1(3) evict_slots_def)
    from find_miss [OF 1(2) this] 1(1) True free show ?thesis by fastforce
  next
    case False
    then have "slot_of m1 i = Located p" using assms(3) by (simp add: 1(3))
    from find_hit [OF 1(2) this] 1(1) False free show ?thesis by fastforce
  qed
qed

end

interpretation cm: cache_index "cachemap_inv nz" cm_slot cm_active_readers nz zn_cachemap_find_pass
  "zn_cachemap_insert nd" "zn_cachemap_clear_chunk nd" "zn_cachemap_clear_zone nd" "zn_cachemap_fail nd"
  for nz nd
  by unfold_locales
    (rule find_absent find_pending find_located cm_insert_ok cm_clear_chunk_ok cm_clear_zone_ok cm_fail_ok
      cachemap_invD(5) slot_place_unique; assumption)+

section \<open>Runs against an abstract map\<close>

datatype cm_op =
    Op_Find u32
  | Op_Insert u32 zn_pair
  | Op_Clear_Chunk zn_pair
  | Op_Clear_Zone u32
  | Op_Fail u32

text \<open>What a caller learns: the answer of \<open>zn_cachemap_find\<close>, nothing from the others.\<close>

datatype cm_answer = Hit zn_pair | To_Write | Done

definition answer_of :: "zone_map_result \<Rightarrow> cm_answer" where
  "answer_of r = (if zr_type r = RESULT_LOC then Hit (zr_location r) else To_Write)"

definition cm_exec :: "bool \<Rightarrow> cm_op \<Rightarrow> zn_cachemap \<Rightarrow> (cm_answer \<times> zn_cachemap) res" where
  "cm_exec nd cmd m = (case cmd of
       Op_Find i \<Rightarrow> bind_res (zn_cachemap_find i m) (\<lambda>(r, m'). Inr (answer_of r, m'))
     | Op_Insert i p \<Rightarrow> bind_res (zn_cachemap_insert nd i p m) (\<lambda>m'. Inr (Done, m'))
     | Op_Clear_Chunk p \<Rightarrow> bind_res (zn_cachemap_clear_chunk nd p m) (\<lambda>m'. Inr (Done, m'))
     | Op_Clear_Zone z \<Rightarrow> bind_res (zn_cachemap_clear_zone nd z m) (\<lambda>m'. Inr (Done, m'))
     | Op_Fail i \<Rightarrow> bind_res (zn_cachemap_fail nd i m) (\<lambda>m'. Inr (Done, m')))"

fun cm_run :: "bool \<Rightarrow> cm_op list \<Rightarrow> zn_cachemap \<Rightarrow> (cm_answer list \<times> zn_cachemap) res" where
  "cm_run nd [] m = Inr ([], m)"
| "cm_run nd (cmd # ops) m =
     bind_res (cm_exec nd cmd m) (\<lambda>(a, m1).
       bind_res (cm_run nd ops m1) (\<lambda>(as, m2). Inr (a # as, m2)))"

text \<open>
  The contract: one partial map from identifiers to places. \<open>spec_step nz cmd s a s'\<close> holds when
  \<open>cmd\<close> may be called in state \<open>s\<close>, answers \<open>a\<close> and leads to \<open>s'\<close>.
\<close>

inductive spec_step :: "nat \<Rightarrow> cm_op \<Rightarrow> (u32 \<Rightarrow> slot) \<Rightarrow> cm_answer \<Rightarrow> (u32 \<Rightarrow> slot) \<Rightarrow> bool"
  for nz :: nat where
  find_hit: "s i = Located p \<Longrightarrow> spec_step nz (Op_Find i) s (Hit p) s"
| find_miss: "s i = Absent \<Longrightarrow> spec_step nz (Op_Find i) s To_Write (s(i := Pending))"
| insert: "s i = Pending \<Longrightarrow> id_ok i \<Longrightarrow> unat (zp_zone p) < nz \<Longrightarrow> place_free s p \<Longrightarrow>
    spec_step nz (Op_Insert i p) s Done (s(i := Located p))"
| clear_chunk: "s i = Located q \<Longrightarrow> same_place q p \<Longrightarrow>
    spec_step nz (Op_Clear_Chunk p) s Done (s(i := Absent))"
| clear_zone: "unat z < nz \<Longrightarrow> spec_step nz (Op_Clear_Zone z) s Done (evict_slots z s)"
| fail: "s i = Pending \<Longrightarrow> spec_step nz (Op_Fail i) s Done (s(i := Absent))"

inductive spec_run :: "nat \<Rightarrow> cm_op list \<Rightarrow> (u32 \<Rightarrow> slot) \<Rightarrow> cm_answer list \<Rightarrow> (u32 \<Rightarrow> slot) \<Rightarrow> bool"
  for nz :: nat where
  empty: "spec_run nz [] s [] s"
| step: "spec_step nz cmd s a s1 \<Longrightarrow> spec_run nz ops s1 as s2 \<Longrightarrow> spec_run nz (cmd # ops) s (a # as) s2"

inductive_cases spec_run_NilE: "spec_run nz [] s as s'"
inductive_cases spec_run_ConsE: "spec_run nz (cmd # ops) s as s'"

lemma cm_exec_refines:
  assumes "spec_step nz cmd (cm_slot m) a s'" "cachemap_inv nz m"
  shows "\<exists>m'. cm_exec nd cmd m = Inr (a, m') \<and> cachemap_inv nz m' \<and> cm_slot m' = s'"
  using assms(1)
proof cases
  case (find_hit i p)
  with cm.find_hit [OF assms(2), of i p] show ?thesis
    by (auto simp: cm_exec_def zn_cachemap_find_def answer_of_def)
next
  case (find_miss i)
  with cm.find_miss [OF assms(2), of i] show ?thesis
    by (auto simp: cm_exec_def zn_cachemap_find_def answer_of_def)
next
  case (insert i p)
  with cm.insert_law [OF assms(2), of i p nd] show ?thesis by (auto simp: cm_exec_def)
next
  case (clear_chunk i q p)
  with cm.clear_chunk_law [OF assms(2), of i q p nd] show ?thesis by (auto simp: cm_exec_def)
next
  case (clear_zone z)
  with cm.clear_zone_law [OF assms(2), of z nd] show ?thesis by (auto simp: cm_exec_def)
next
  case (fail i)
  with cm.fail_law [OF assms(2), of i nd] show ?thesis by (auto simp: cm_exec_def)
qed

lemma cm_run_refines:
  assumes "spec_run nz ops s as s'"
  shows "cachemap_inv nz m \<Longrightarrow> cm_slot m = s \<Longrightarrow>
    \<exists>m'. cm_run nd ops m = Inr (as, m') \<and> cachemap_inv nz m' \<and> cm_slot m' = s'"
  using assms
proof (induction arbitrary: m)
  case (step cmd s a s1 ops as s2)
  obtain m1 where "cm_exec nd cmd m = Inr (a, m1)" "cachemap_inv nz m1" "cm_slot m1 = s1"
    using cm_exec_refines [of nz cmd m a s1 nd] step by blast
  with step.IH [of m1] show ?case by auto
qed auto

section \<open>Properties\<close>

text \<open>C17. The cache map refines one partial map from identifiers to places: for every sequence of
  calls that the abstract map allows, the two hash tables and their pointer conversions run without
  fault from the initial state, give the same answers and stay consistent with each other
  (every located identifier has its chunk entry and every chunk entry its identifier).\<close>

theorem cachemap_refines_partial_map:
  assumes "spec_run nz ops (\<lambda>_. Absent) as s'"
  shows "\<exists>m'. cm_run nd ops (zn_cachemap_init nz (replicate nz 0)) = Inr (as, m') \<and>
    cachemap_inv nz m' \<and> cm_slot m' = s'"
  by (rule cm_run_refines [OF assms init_ok(1)]) (simp add: fun_eq_iff init_ok(2))

theorem cachemap_refines_partial_map_witness:
  "\<exists>m'. cm_run False [Op_Find 7, Op_Insert 7 (pair_at 1 0), Op_Find 7, Op_Find 9, Op_Fail 9,
      Op_Clear_Zone 1, Op_Find 7, Op_Insert 7 (pair_at 0 0), Op_Clear_Chunk (pair_at 0 0), Op_Find 7]
      (zn_cachemap_init 2 (replicate 2 0)) =
     Inr ([To_Write, Done, Hit (pair_at 1 0), To_Write, Done, Done, To_Write, Done, Done, To_Write], m') \<and>
    cachemap_inv 2 m'"
proof -
  note ev = id_ok_def pair_at_def place_free_def same_place_def evict_slots_def
  have "\<exists>s'. spec_run 2 [Op_Find 7, Op_Insert 7 (pair_at 1 0), Op_Find 7, Op_Find 9, Op_Fail 9,
      Op_Clear_Zone 1, Op_Find 7, Op_Insert 7 (pair_at 0 0), Op_Clear_Chunk (pair_at 0 0), Op_Find 7]
     (\<lambda>_. Absent)
     [To_Write, Done, Hit (pair_at 1 0), To_Write, Done, Done, To_Write, Done, Done, To_Write] s'"
    apply (rule exI)
    apply (rule spec_run.step [OF spec_step.find_miss], simp)
    apply (rule spec_run.step [OF spec_step.insert], simp, simp add: ev, simp add: ev, simp add: ev)
    apply (rule spec_run.step [OF spec_step.find_hit], simp)
    apply (rule spec_run.step [OF spec_step.find_miss], simp)
    apply (rule spec_run.step [OF spec_step.fail], simp)
    apply (rule spec_run.step [OF spec_step.clear_zone], simp)
    apply (rule spec_run.step [OF spec_step.find_miss], simp add: ev)
    apply (rule spec_run.step [OF spec_step.insert], simp, simp add: ev, simp add: ev, simp add: ev)
    apply (rule spec_run.step [OF spec_step.clear_chunk [where i = 7]], simp, simp add: ev)
    apply (rule spec_run.step [OF spec_step.find_miss], simp)
    apply (rule spec_run.empty)
    done
  then show ?thesis using cachemap_refines_partial_map by blast
qed

text \<open>\<open>zn_cachemap_clear_zone\<close> on a consistent map makes every identifier located in the zone
  miss, leaves every other identifier where it is, frees all places of the zone and does not touch
  the reader counts.\<close>

lemma cachemap_clear_zone_exact:
  assumes "cachemap_inv nz m" and "unat z < nz"
  shows "\<exists>m'. zn_cachemap_clear_zone nd z m = Inr m' \<and> cachemap_inv nz m' \<and>
    (\<forall>i p. cm_slot m' i = Located p \<longleftrightarrow> cm_slot m i = Located p \<and> zp_zone p \<noteq> z) \<and>
    (\<forall>i. cm_slot m' i = Pending \<longleftrightarrow> cm_slot m i = Pending) \<and>
    cm_back m' (unat z) = Map.empty \<and> cm_active_readers m' = cm_active_readers m"
proof -
  obtain m' where m': "zn_cachemap_clear_zone nd z m = Inr m'" "cachemap_inv nz m'"
    "cm_slot m' = evict_slots z (cm_slot m)" "cm_active_readers m' = cm_active_readers m"
    using cm.clear_zone_law [OF assms] by blast
  have "cm_back m' (unat z) k = None" for k
    using cachemap_invD(7) [OF m'(2) assms(2), of k] m'(3) by (cases "cm_back m' (unat z) k") auto
  moreover have "cm_slot m' i = Pending \<longleftrightarrow> cm_slot m i = Pending" for i
    unfolding m'(3) by (auto simp: evict_slots_def split: slot.splits)
  ultimately show ?thesis using m' by (auto simp: fun_eq_iff)
qed

text \<open>A reader that is told to write a chunk and inserts it at a free place is followed by
  readers that hit exactly that place, each counted on the zone; and after the writer reports a
  failure the next reader is told to write again.\<close>

lemma cachemap_miss_insert_hit:
  assumes "cachemap_inv nz m" and "cm_slot m i = Absent" and "id_ok i"
    and "unat (zp_zone p) < nz" and "place_free (cm_slot m) p"
  shows "\<exists>r m1 m2 r' m3 m4. zn_cachemap_find i m = Inr (r, m1) \<and> zr_type r = RESULT_COND \<and>
    zn_cachemap_insert nd i p m1 = Inr m2 \<and> zn_cachemap_find i m2 = Inr (r', m3) \<and>
    zr_type r' = RESULT_LOC \<and> zr_location r' = p \<and>
    zn_cachemap_fail nd i m1 = Inr m4 \<and> cm_slot m4 = cm_slot m"
proof -
  obtain r m1 m2 r' m3 where 1: "zn_cachemap_find_pass i m = Inr (Find_Returns r, m1)" "zr_type r = RESULT_COND"
    "zn_cachemap_insert nd i p m1 = Inr m2" "zn_cachemap_find_pass i m2 = Inr (Find_Returns r', m3)"
    "zr_type r' = RESULT_LOC" "zr_location r' = p"
    using cm.miss_insert_hit [OF assms, of nd] by blast
  have m1: "cachemap_inv nz m1" "cm_slot m1 = (cm_slot m)(i := Pending)"
    using cm.find_miss [OF assms(1,2)] 1(1) by auto
  obtain m4 where "zn_cachemap_fail nd i m1 = Inr m4" "cm_slot m4 = cm_slot m"
    using cm.fail_law [OF m1(1), of i nd] m1(2) assms(2) by (auto simp: fun_upd_idem)
  with 1 show ?thesis by (auto simp: zn_cachemap_find_def)
qed


end
