(* ===== verification/ZN_Zone_State.thy ===== *)
theory ZN_Zone_State
  imports ZN_Backend
begin

text \<open>
  The zone state manager of \<open>src/zone_state_manager.c\<close>: the condition of every zone, the queues of
  free and of active zones, and the accounting of writes in flight. A \<open>struct zn_zone *\<close> in a queue
  points into the array \<open>state\<close> and is the index of its element. Every function holds
  \<open>state_mutex\<close> throughout, so each call is one atomic step. Where a function reaches the device
  the call is a parameter (\<open>dev_ops\<close>) and may fail.

  \<open>writes_occurring\<close> is an \<open>int\<close> that the source only combines with unsigned operands, so it is
  kept as its 32-bit pattern.
\<close>

section \<open>Data\<close>

datatype zn_zone_condition = ZN_ZONE_FREE | ZN_ZONE_FULL | ZN_ZONE_ACTIVE | ZN_ZONE_WRITE_OCCURING

datatype zsm_get_active_zone_error =
    ZSM_GET_ACTIVE_ZONE_SUCCESS
  | ZSM_GET_ACTIVE_ZONE_RETRY
  | ZSM_GET_ACTIVE_ZONE_ERROR
  | ZSM_GET_ACTIVE_ZONE_EVICT

record zn_zone =
  zz_state :: zn_zone_condition
  zz_zone_id :: u32
  zz_chunk_offset :: u32
  zz_invalid :: "u32 list"

record zone_state_manager =
  zs_active :: "nat list"
  zs_free :: "nat list"
  zs_state :: "zn_zone list"
  zs_writes_occurring :: u32
  zs_fd :: int
  zs_zone_cap :: u64
  zs_zone_size :: u64
  zs_chunk_size :: u64
  zs_max_nr_active_zones :: u32
  zs_max_zone_chunks :: u64
  zs_num_zones :: u32
  zs_backend_type :: zn_backend

abbreviation g_queue_get_length :: "'a list \<Rightarrow> u32" where
  "g_queue_get_length q \<equiv> of_nat (length q)"

abbreviation zone_at :: "zone_state_manager \<Rightarrow> nat \<Rightarrow> zn_zone" where
  "zone_at st z \<equiv> zs_state st ! z"

text \<open>Assignment to fields of \<open>*zone\<close>.\<close>

definition set_zone :: "nat \<Rightarrow> zn_zone \<Rightarrow> zone_state_manager \<Rightarrow> zone_state_manager" where
  "set_zone z v st = st\<lparr>zs_state := (zs_state st)[z := v]\<rparr>"

section \<open>Operations\<close>

definition close_zone :: "'dev dev_ops \<Rightarrow> nat \<Rightarrow> zone_state_manager \<Rightarrow> 'dev \<Rightarrow>
    int \<times> zone_state_manager \<times> 'dev" where
  "close_zone ops z st d =
     (if zz_state (zone_at st z) = ZN_ZONE_FULL then (0, st, d)
      else
        let wp = CHUNK_POINTER (zs_zone_size st) (zs_chunk_size st) 0 (zz_zone_id (zone_at st z));
            (ret, d') = (if zs_backend_type st = ZE_BACKEND_ZNS
                         then zbd_finish_zones ops (zs_fd st) wp (zs_zone_cap st) d else (0, d)) in
        if ret \<noteq> 0 then (ret, st, d')
        else (ret, set_zone z ((zone_at st z)\<lparr>zz_state := ZN_ZONE_FULL, zz_chunk_offset := 0\<rparr>) st, d'))"

definition reset_zone :: "'dev dev_ops \<Rightarrow> nat \<Rightarrow> zone_state_manager \<Rightarrow> 'dev \<Rightarrow>
    int \<times> zone_state_manager \<times> 'dev" where
  "reset_zone ops z st d =
     (if zz_state (zone_at st z) = ZN_ZONE_FREE then (0, st, d)
      else
        let wp = CHUNK_POINTER (zs_zone_size st) (zs_chunk_size st) 0 (zz_zone_id (zone_at st z));
            (ret, d') = (if zs_backend_type st = ZE_BACKEND_ZNS
                         then zbd_reset_zones ops (zs_fd st) wp (zs_zone_cap st) d else (0, d)) in
        if ret \<noteq> 0 then (ret, st, d')
        else (ret, (set_zone z ((zone_at st z)\<lparr>zz_state := ZN_ZONE_FREE, zz_chunk_offset := 0\<rparr>) st)
                     \<lparr>zs_free := zs_free st @ [z]\<rparr>, d'))"

definition open_zone :: "bool \<Rightarrow> 'dev dev_ops \<Rightarrow> nat \<Rightarrow> zone_state_manager \<Rightarrow> 'dev \<Rightarrow>
    (int \<times> zone_state_manager \<times> 'dev) res" where
  "open_zone nd ops z st d =
     c_assert nd (zz_state (zone_at st z) = ZN_ZONE_FREE)
       (if g_queue_get_length (zs_active st) + zs_writes_occurring st \<ge> zs_max_nr_active_zones st
        then Inr (-1, st, d)
        else
          let wp = CHUNK_POINTER (zs_zone_size st) (zs_chunk_size st) 0 (zz_zone_id (zone_at st z));
              (ret, d') = (if zs_backend_type st = ZE_BACKEND_ZNS
                           then zbd_open_zones ops (zs_fd st) wp 1 d else (0, d)) in
          if ret \<noteq> 0 then Inr (ret, st, d')
          else Inr (0, (set_zone z ((zone_at st z)\<lparr>zz_state := ZN_ZONE_ACTIVE, zz_chunk_offset := 0\<rparr>) st)
                         \<lparr>zs_active := zs_active st @ [z]\<rparr>, d'))"

definition zsm_init :: "u32 \<Rightarrow> int \<Rightarrow> u64 \<Rightarrow> u64 \<Rightarrow> u64 \<Rightarrow> u32 \<Rightarrow> zn_backend \<Rightarrow> zone_state_manager res" where
  "zsm_init num_zones fd zone_cap zone_size chunk_size max_nr_active_zones backend_type =
     (if chunk_size = 0 then Inl Div_By_Zero
      else Inr \<lparr>zs_active = [], zs_free = [0..<unat num_zones],
        zs_state = map (\<lambda>i. \<lparr>zz_state = ZN_ZONE_FREE, zz_zone_id = of_nat i, zz_chunk_offset = 0,
                            zz_invalid = []\<rparr>) [0..<unat num_zones],
        zs_writes_occurring = 0, zs_fd = fd, zs_zone_cap = zone_cap, zs_zone_size = zone_size,
        zs_chunk_size = chunk_size, zs_max_nr_active_zones = max_nr_active_zones,
        zs_max_zone_chunks = zone_cap div chunk_size, zs_num_zones = num_zones,
        zs_backend_type = backend_type\<rparr>)"

text \<open>
  The part of \<open>zsm_get_active_zone\<close> after an active zone is known to be in the queue. The caller's
  \<open>*pair\<close> is a cell: only the successful return assigns it.
\<close>

definition take_active_zone :: "bool \<Rightarrow> zn_pair cell \<Rightarrow> zone_state_manager \<Rightarrow> 'dev \<Rightarrow>
    (zsm_get_active_zone_error \<times> zn_pair cell \<times> zone_state_manager \<times> 'dev) res" where
  "take_active_zone nd pair st d =
     (case zs_active st of
        [] \<Rightarrow> Inl Null_Deref
      | z # active \<Rightarrow>
          c_assert nd (zz_state (zone_at st z) = ZN_ZONE_ACTIVE)
            (Inr (ZSM_GET_ACTIVE_ZONE_SUCCESS,
                  Init \<lparr>zp_zone = zz_zone_id (zone_at st z), zp_chunk_offset = zz_chunk_offset (zone_at st z),
                        zp_id = 0, zp_in_use = False\<rparr>,
                  (set_zone z ((zone_at st z)\<lparr>zz_state := ZN_ZONE_WRITE_OCCURING\<rparr>) st)
                    \<lparr>zs_active := active, zs_writes_occurring := zs_writes_occurring st + 1\<rparr>,
                  d)))"

definition zsm_get_active_zone :: "bool \<Rightarrow> 'dev dev_ops \<Rightarrow> zn_pair cell \<Rightarrow> zone_state_manager \<Rightarrow> 'dev \<Rightarrow>
    (zsm_get_active_zone_error \<times> zn_pair cell \<times> zone_state_manager \<times> 'dev) res" where
  "zsm_get_active_zone nd ops pair st d =
     (let active_queue_size = g_queue_get_length (zs_active st) :: u32;
          writer_size = zs_writes_occurring st;
          free_queue_size = g_queue_get_length (zs_free st) :: u32 in
      if active_queue_size + writer_size = 0 \<and> free_queue_size = 0
      then Inr (ZSM_GET_ACTIVE_ZONE_EVICT, pair, st, d)
      else c_assert nd (active_queue_size + writer_size > 0 \<or> free_queue_size > 0)
        (if active_queue_size = 0 then
           if active_queue_size + writer_size < zs_max_nr_active_zones st \<and> free_queue_size > 0 then
             (case zs_free st of
                [] \<Rightarrow> Inl Null_Deref
              | z # free \<Rightarrow>
                  c_assert nd (zz_state (zone_at st z) = ZN_ZONE_FREE)
                    (bind_res (open_zone nd ops z (st\<lparr>zs_free := free\<rparr>) d) (\<lambda>(ret, st', d').
                       if ret \<noteq> 0
                       then c_assert nd False (Inr (ZSM_GET_ACTIVE_ZONE_ERROR, pair, st', d'))
                       else take_active_zone nd pair st' d')))
           else Inr (ZSM_GET_ACTIVE_ZONE_RETRY, pair, st, d)
         else take_active_zone nd pair st d))"

definition zsm_return_active_zone :: "bool \<Rightarrow> 'dev dev_ops \<Rightarrow> zn_pair \<Rightarrow> zone_state_manager \<Rightarrow> 'dev \<Rightarrow>
    (int \<times> zone_state_manager \<times> 'dev) res" where
  "zsm_return_active_zone nd ops pair st d =
     c_assert nd (g_queue_get_length (zs_active st) + zs_writes_occurring st \<le> zs_max_nr_active_zones st)
       (let z = unat (zp_zone pair) in
        bind_res (arr_get (zs_state st) z) (\<lambda>zone.
          c_assert nd (zz_state zone = ZN_ZONE_WRITE_OCCURING)
            (c_assert nd (zz_chunk_offset zone = zp_chunk_offset pair)
              (let zone' = zone\<lparr>zz_chunk_offset := zz_chunk_offset zone + 1\<rparr>;
                   st' = (set_zone z zone' st)\<lparr>zs_writes_occurring := zs_writes_occurring st - 1\<rparr> in
               if ucast (zz_chunk_offset zone') = zs_max_zone_chunks st
               then Inr (close_zone ops z st' d)
               else Inr (0, (set_zone z (zone'\<lparr>zz_state := ZN_ZONE_ACTIVE\<rparr>) st')
                              \<lparr>zs_active := zs_active st @ [z]\<rparr>, d)))))"

definition zsm_evict :: "bool \<Rightarrow> 'dev dev_ops \<Rightarrow> int \<Rightarrow> zone_state_manager \<Rightarrow> 'dev \<Rightarrow>
    (int \<times> zone_state_manager \<times> 'dev) res" where
  "zsm_evict nd ops zone_to_free st d =
     (if zone_to_free < 0 then Inl Out_Of_Bounds
      else
        let z = nat zone_to_free in
        bind_res (arr_get (zs_state st) z) (\<lambda>zone.
          c_assert nd (zz_state zone = ZN_ZONE_FULL)
            (let (ret, st', d') = reset_zone ops z st d in
             if ret = 0 then Inr (ret, st', d')
             else c_assert nd (zz_state (zone_at st' z) = ZN_ZONE_FREE)
               (Inr (0, set_zone z ((zone_at st' z)\<lparr>zz_invalid := []\<rparr>) st', d')))))"

definition zsm_failed_to_write :: "bool \<Rightarrow> zn_pair \<Rightarrow> zone_state_manager \<Rightarrow> zone_state_manager res" where
  "zsm_failed_to_write nd pair st =
     c_assert nd (g_queue_get_length (zs_active st) + zs_writes_occurring st \<le> zs_max_nr_active_zones st)
       (let z = unat (zp_zone pair) in
        bind_res (arr_get (zs_state st) z) (\<lambda>zone.
          c_assert nd (zz_state zone = ZN_ZONE_WRITE_OCCURING)
            (c_assert nd (zz_chunk_offset zone = zp_chunk_offset pair)
              (c_assert nd (ucast (zz_chunk_offset zone) < zs_max_zone_chunks st)
                (Inr ((set_zone z (zone\<lparr>zz_state := ZN_ZONE_ACTIVE\<rparr>) st)
                        \<lparr>zs_writes_occurring := zs_writes_occurring st - 1,
                         zs_active := zs_active st @ [z]\<rparr>))))))"

definition zsm_get_num_active_zones :: "zone_state_manager \<Rightarrow> u32" where
  "zsm_get_num_active_zones st = g_queue_get_length (zs_active st) + zs_writes_occurring st"

definition zsm_get_num_free_zones :: "zone_state_manager \<Rightarrow> u32" where
  "zsm_get_num_free_zones st = g_queue_get_length (zs_free st)"

text \<open>The loop of \<open>zsm_get_num_full_zones\<close>, over \<open>n\<close> zones from \<open>i\<close>.\<close>

fun count_full :: "zn_zone list \<Rightarrow> nat \<Rightarrow> nat \<Rightarrow> u32 \<Rightarrow> u32 res" where
  "count_full zones i 0 acc = Inr acc"
| "count_full zones i (Suc n) acc =
     bind_res (arr_get zones i) (\<lambda>zone.
       count_full zones (Suc i) n (if zz_state zone = ZN_ZONE_FULL then acc + 1 else acc))"

definition zsm_get_num_full_zones :: "zone_state_manager \<Rightarrow> u32 res" where
  "zsm_get_num_full_zones st = count_full (zs_state st) 0 (unat (zs_num_zones st)) 0"

definition zsm_get_num_invalid_chunks :: "zone_state_manager \<Rightarrow> u32 \<Rightarrow> u32 res" where
  "zsm_get_num_invalid_chunks st zone =
     bind_res (arr_get (zs_state st) (unat zone)) (\<lambda>z. Inr (g_queue_get_length (zz_invalid z)))"

definition zsm_mark_chunk_invalid :: "zn_pair \<Rightarrow> zone_state_manager \<Rightarrow> zone_state_manager res" where
  "zsm_mark_chunk_invalid location st =
     bind_res (arr_get (zs_state st) (unat (zp_zone location))) (\<lambda>zone.
       Inr (set_zone (unat (zp_zone location))
              (zone\<lparr>zz_invalid := zz_invalid zone @ [zp_chunk_offset location]\<rparr>) st))"

section \<open>Invariant\<close>

text \<open>
  A zone is being written when a caller holds it: its condition says so and it has room. (A zone
  whose closing failed keeps the condition with no room left; nobody holds it.)
\<close>

definition zone_fine :: "u64 \<Rightarrow> nat \<Rightarrow> zn_zone \<Rightarrow> bool" where
  "zone_fine mx z zone \<longleftrightarrow> zz_zone_id zone = of_nat z \<and>
     (case zz_state zone of
        ZN_ZONE_FREE \<Rightarrow> zz_chunk_offset zone = 0
      | ZN_ZONE_FULL \<Rightarrow> zz_chunk_offset zone = 0
      | ZN_ZONE_ACTIVE \<Rightarrow> unat (zz_chunk_offset zone) < unat mx
      | ZN_ZONE_WRITE_OCCURING \<Rightarrow> unat (zz_chunk_offset zone) \<le> unat mx)"

definition is_writing :: "u64 \<Rightarrow> zn_zone \<Rightarrow> bool" where
  "is_writing mx zone \<longleftrightarrow> zz_state zone = ZN_ZONE_WRITE_OCCURING \<and> unat (zz_chunk_offset zone) < unat mx"

definition writers :: "zone_state_manager \<Rightarrow> nat set" where
  "writers st = {z. z < length (zs_state st) \<and> is_writing (zs_max_zone_chunks st) (zone_at st z)}"

definition zsm_inv :: "zone_state_manager \<Rightarrow> bool" where
  "zsm_inv st \<longleftrightarrow>
     length (zs_state st) = unat (zs_num_zones st) \<and>
     0 < unat (zs_max_zone_chunks st) \<and> unat (zs_max_zone_chunks st) < 2 ^ 32 \<and>
     distinct (zs_active st) \<and> distinct (zs_free st) \<and>
     (\<forall>z < length (zs_state st). zone_fine (zs_max_zone_chunks st) z (zone_at st z)) \<and>
     (\<forall>z. z \<in> set (zs_active st) \<longleftrightarrow> z < length (zs_state st) \<and> zz_state (zone_at st z) = ZN_ZONE_ACTIVE) \<and>
     (\<forall>z \<in> set (zs_free st). z < length (zs_state st) \<and> zz_state (zone_at st z) = ZN_ZONE_FREE) \<and>
     card (writers st) = unat (zs_writes_occurring st) \<and>
     length (zs_active st) + unat (zs_writes_occurring st) \<le> unat (zs_max_nr_active_zones st)"

text \<open>
  No zone is out of circulation: every free zone is in the free queue and every zone in condition
  \<open>ZN_ZONE_WRITE_OCCURING\<close> is held. A failing \<open>zbd\<close> call is what breaks it.
\<close>

definition zsm_tight :: "zone_state_manager \<Rightarrow> bool" where
  "zsm_tight st \<longleftrightarrow> (\<forall>z < length (zs_state st).
     (zz_state (zone_at st z) = ZN_ZONE_FREE \<longrightarrow> z \<in> set (zs_free st)) \<and>
     (zz_state (zone_at st z) = ZN_ZONE_WRITE_OCCURING \<longrightarrow> is_writing (zs_max_zone_chunks st) (zone_at st z)))"

definition zbd_reliable :: "'dev dev_ops \<Rightarrow> bool" where
  "zbd_reliable ops \<longleftrightarrow> (\<forall>fd off len d. fst (zbd_open_zones ops fd off len d) = 0 \<and>
     fst (zbd_finish_zones ops fd off len d) = 0 \<and> fst (zbd_reset_zones ops fd off len d) = 0)"

lemma set_zone_simps [simp]:
  "zs_active (set_zone z v st) = zs_active st" "zs_free (set_zone z v st) = zs_free st"
  "zs_state (set_zone z v st) = (zs_state st)[z := v]"
  "zs_writes_occurring (set_zone z v st) = zs_writes_occurring st"
  "zs_max_zone_chunks (set_zone z v st) = zs_max_zone_chunks st"
  "zs_max_nr_active_zones (set_zone z v st) = zs_max_nr_active_zones st"
  "zs_num_zones (set_zone z v st) = zs_num_zones st" "zs_backend_type (set_zone z v st) = zs_backend_type st"
  "zs_fd (set_zone z v st) = zs_fd st" "zs_zone_cap (set_zone z v st) = zs_zone_cap st"
  "zs_zone_size (set_zone z v st) = zs_zone_size st" "zs_chunk_size (set_zone z v st) = zs_chunk_size st"
  by (simp_all add: set_zone_def)

lemma finite_writers [simp]: "finite (writers st)"
  by (simp add: writers_def)

lemma writers_eq:
  assumes "zs_state st' = (zs_state st)[z := v]" "zs_max_zone_chunks st' = zs_max_zone_chunks st"
    "z < length (zs_state st)"
  shows "writers st' = (if is_writing (zs_max_zone_chunks st) v then insert z (writers st) else writers st - {z})"
  using assms by (auto simp: writers_def nth_list_update)

lemma card_writers_le: "card (writers st) \<le> length (zs_state st)"
  using card_mono [of "{..<length (zs_state st)}" "writers st"] by (auto simp: writers_def)

lemma zsm_invD:
  assumes "zsm_inv st"
  shows "length (zs_state st) = unat (zs_num_zones st)"
    "0 < unat (zs_max_zone_chunks st)" "unat (zs_max_zone_chunks st) < 2 ^ 32"
    "distinct (zs_active st)" "distinct (zs_free st)"
    "z < length (zs_state st) \<Longrightarrow> zone_fine (zs_max_zone_chunks st) z (zone_at st z)"
    "z \<in> set (zs_active st) \<longleftrightarrow> z < length (zs_state st) \<and> zz_state (zone_at st z) = ZN_ZONE_ACTIVE"
    "z \<in> set (zs_free st) \<Longrightarrow> z < length (zs_state st)"
    "z \<in> set (zs_free st) \<Longrightarrow> zz_state (zone_at st z) = ZN_ZONE_FREE"
    "card (writers st) = unat (zs_writes_occurring st)"
    "length (zs_active st) + unat (zs_writes_occurring st) \<le> unat (zs_max_nr_active_zones st)"
  using assms unfolding zsm_inv_def by blast+

text \<open>Queue lengths are small enough for the 32-bit sums.\<close>

lemma queue_lengths:
  assumes "zsm_inv st"
  shows "unat (g_queue_get_length (zs_active st) :: u32) = length (zs_active st)"
    "unat (g_queue_get_length (zs_free st) :: u32) = length (zs_free st)"
    "unat (g_queue_get_length (zs_active st) + zs_writes_occurring st :: u32) =
       length (zs_active st) + unat (zs_writes_occurring st)"
proof -
  note I = zsm_invD [OF assms]
  have "length (zs_active st) + unat (zs_writes_occurring st) < 2 ^ 32"
    using le_less_trans [OF I(11) unat_u32_lt] by simp
  moreover have "length (zs_free st) \<le> length (zs_state st)"
    using card_mono [of "{..<length (zs_state st)}" "set (zs_free st)"] I(5,8) distinct_card [of "zs_free st"]
    by auto
  then have "length (zs_free st) < 2 ^ 32"
    using le_less_trans [of _ _ 4294967296, OF _ unat_u32_lt [of "zs_num_zones st"]] I(1) by simp
  ultimately show "unat (g_queue_get_length (zs_active st) :: u32) = length (zs_active st)"
    "unat (g_queue_get_length (zs_free st) :: u32) = length (zs_free st)"
    "unat (g_queue_get_length (zs_active st) + zs_writes_occurring st :: u32) =
       length (zs_active st) + unat (zs_writes_occurring st)"
    by (simp_all add: unat_of_nat_u32 unat_word_ariths)
qed

text \<open>The invariant of the initial state.\<close>

lemma zsm_init_ok:
  assumes "0 < unat cap div unat csz" "unat cap div unat csz < 2 ^ 32"
  shows "\<exists>st. zsm_init n fd cap zsz csz mx be = Inr st \<and> zsm_inv st \<and> zsm_tight st \<and>
    (\<forall>z < unat n. zz_state (zone_at st z) = ZN_ZONE_FREE) \<and> length (zs_state st) = unat n"
proof -
  have "csz \<noteq> 0" using assms(1) by auto
  moreover have "unat (cap div csz) = unat cap div unat csz" by (rule unat_div_distrib)
  moreover have "writers \<lparr>zs_active = [], zs_free = [0..<unat n],
        zs_state = map (\<lambda>i. \<lparr>zz_state = ZN_ZONE_FREE, zz_zone_id = of_nat i, zz_chunk_offset = 0,
                            zz_invalid = []\<rparr>) [0..<unat n],
        zs_writes_occurring = 0, zs_fd = fd, zs_zone_cap = cap, zs_zone_size = zsz,
        zs_chunk_size = csz, zs_max_nr_active_zones = mx,
        zs_max_zone_chunks = cap div csz, zs_num_zones = n, zs_backend_type = be\<rparr> = {}"
    by (auto simp: writers_def is_writing_def)
  ultimately show ?thesis using assms
    by (simp add: zsm_init_def zsm_inv_def zsm_tight_def zone_fine_def)
qed

text \<open>Replacing one zone and moving it between the queues: what has to be checked.\<close>

lemma zsm_inv_move:
  assumes inv: "zsm_inv st" and z: "z < length (zs_state st)"
    and upd: "zs_state st' = (zs_state st)[z := v]"
    and frame: "zs_max_zone_chunks st' = zs_max_zone_chunks st" "zs_num_zones st' = zs_num_zones st"
      "zs_max_nr_active_zones st' = zs_max_nr_active_zones st"
    and fine: "zone_fine (zs_max_zone_chunks st) z v"
    and act: "distinct (zs_active st')" "\<And>x. x \<noteq> z \<Longrightarrow> x \<in> set (zs_active st') \<longleftrightarrow> x \<in> set (zs_active st)"
      "z \<in> set (zs_active st') \<longleftrightarrow> zz_state v = ZN_ZONE_ACTIVE"
    and free: "distinct (zs_free st')" "\<And>x. x \<noteq> z \<Longrightarrow> x \<in> set (zs_free st') \<Longrightarrow> x \<in> set (zs_free st)"
      "z \<in> set (zs_free st') \<Longrightarrow> zz_state v = ZN_ZONE_FREE"
    and cnt: "card (writers st') = unat (zs_writes_occurring st')"
    and bound: "length (zs_active st') + unat (zs_writes_occurring st') \<le> unat (zs_max_nr_active_zones st)"
  shows "zsm_inv st'"
proof -
  note I = zsm_invD [OF inv]
  have at: "zone_at st' x = (if x = z then v else zone_at st x)" if "x < length (zs_state st)" for x
    using that z by (simp add: upd nth_list_update)
  have "zone_fine (zs_max_zone_chunks st') x (zone_at st' x)" if "x < length (zs_state st')" for x
    using that at [of x] I(6) [of x] fine by (cases "x = z") (simp_all add: upd frame)
  moreover have "x \<in> set (zs_active st') \<longleftrightarrow> x < length (zs_state st') \<and> zz_state (zone_at st' x) = ZN_ZONE_ACTIVE" for x
    using at [of x] act(2) [of x] act(3) I(7) [of x] z by (cases "x = z") (auto simp: upd)
  moreover have "x < length (zs_state st') \<and> zz_state (zone_at st' x) = ZN_ZONE_FREE" if "x \<in> set (zs_free st')" for x
    using that at [of x] free(2) [of x] free(3) I(8,9) [of x] z by (cases "x = z") (auto simp: upd)
  ultimately show ?thesis
    unfolding zsm_inv_def using I(1-3) act(1) free(1) cnt bound upd frame by simp
qed

lemma zsm_tight_move:
  assumes "zsm_tight st" "zs_state st' = (zs_state st)[z := v]"
    "zs_max_zone_chunks st' = zs_max_zone_chunks st"
    "\<And>x. x \<noteq> z \<Longrightarrow> x \<in> set (zs_free st) \<Longrightarrow> x \<in> set (zs_free st')"
    "zz_state v = ZN_ZONE_FREE \<Longrightarrow> z \<in> set (zs_free st')"
    "zz_state v = ZN_ZONE_WRITE_OCCURING \<Longrightarrow> is_writing (zs_max_zone_chunks st) v"
  shows "zsm_tight st'"
  unfolding zsm_tight_def
proof (intro allI impI)
  fix x assume "x < length (zs_state st')"
  then show "(zz_state (zone_at st' x) = ZN_ZONE_FREE \<longrightarrow> x \<in> set (zs_free st')) \<and>
     (zz_state (zone_at st' x) = ZN_ZONE_WRITE_OCCURING \<longrightarrow> is_writing (zs_max_zone_chunks st') (zone_at st' x))"
    using assms unfolding zsm_tight_def by (cases "x = z") simp_all
qed

section \<open>The life of a zone\<close>

text \<open>
  What the manager promises of a zone, apart from queues and counters: it is free, fills up chunk
  by chunk while it is handed to one writer at a time, is full, is emptied. \<open>Stuck\<close> is a zone whose
  closing failed.
\<close>

datatype zone_view = Free | Filling nat | Writing nat | Full | Stuck

definition view_zone :: "u64 \<Rightarrow> zn_zone \<Rightarrow> zone_view" where
  "view_zone mx zone = (case zz_state zone of
       ZN_ZONE_FREE \<Rightarrow> Free
     | ZN_ZONE_FULL \<Rightarrow> Full
     | ZN_ZONE_ACTIVE \<Rightarrow> Filling (unat (zz_chunk_offset zone))
     | ZN_ZONE_WRITE_OCCURING \<Rightarrow>
         if is_writing mx zone then Writing (unat (zz_chunk_offset zone)) else Stuck)"

definition zview :: "zone_state_manager \<Rightarrow> nat \<Rightarrow> zone_view" where
  "zview st z = view_zone (zs_max_zone_chunks st) (zone_at st z)"

lemma zview_upd:
  assumes "zs_state st' = (zs_state st)[z := v]" "zs_max_zone_chunks st' = zs_max_zone_chunks st"
    "z < length (zs_state st)"
  shows "zview st' = (zview st)(z := view_zone (zs_max_zone_chunks st) v)"
proof
  fix x show "zview st' x = ((zview st)(z := view_zone (zs_max_zone_chunks st) v)) x"
    using assms by (cases "x = z") (simp_all add: zview_def)
qed

lemma zview_iff:
  "zview st z = Free \<longleftrightarrow> zz_state (zone_at st z) = ZN_ZONE_FREE"
  "zview st z = Full \<longleftrightarrow> zz_state (zone_at st z) = ZN_ZONE_FULL"
  "zview st z = Filling c \<longleftrightarrow> zz_state (zone_at st z) = ZN_ZONE_ACTIVE \<and> unat (zz_chunk_offset (zone_at st z)) = c"
  "zview st z = Writing c \<longleftrightarrow> is_writing (zs_max_zone_chunks st) (zone_at st z) \<and> unat (zz_chunk_offset (zone_at st z)) = c"
  by (auto simp: zview_def view_zone_def is_writing_def split: zn_zone_condition.splits)

text \<open>The fields that no operation changes.\<close>

definition zsm_cfg where
  "zsm_cfg st = (zs_fd st, zs_zone_cap st, zs_zone_size st, zs_chunk_size st, zs_max_nr_active_zones st,
     zs_max_zone_chunks st, zs_num_zones st, zs_backend_type st)"

lemma zsm_cfg_frame [simp]:
  "zsm_cfg (set_zone z v st) = zsm_cfg st" "zsm_cfg (st\<lparr>zs_active := a\<rparr>) = zsm_cfg st"
  "zsm_cfg (st\<lparr>zs_free := f\<rparr>) = zsm_cfg st" "zsm_cfg (st\<lparr>zs_writes_occurring := w\<rparr>) = zsm_cfg st"
  by (simp_all add: zsm_cfg_def)

definition chunk_at :: "nat \<Rightarrow> nat \<Rightarrow> zn_pair" where
  "chunk_at z c = \<lparr>zp_zone = of_nat z, zp_chunk_offset = of_nat c, zp_id = 0, zp_in_use = False\<rparr>"

text \<open>A write in flight keeps its zone out of both queues, and is counted.\<close>

lemma active_nonempty_room:
  assumes "zsm_inv st" "zs_active st = z # act"
  shows "unat (zs_writes_occurring st + 1) = unat (zs_writes_occurring st) + 1"
proof -
  have "unat (zs_writes_occurring st) + 1 \<le> unat (zs_max_nr_active_zones st)"
    using zsm_invD(11) [OF assms(1)] assms(2) by simp
  from le_less_trans [OF this unat_u32_lt] show ?thesis by (intro unat_inc) simp
qed

lemma take_active_ok:
  assumes inv: "zsm_inv st" and act: "zs_active st = z # act"
  shows "\<exists>c st'. take_active_zone nd pair st d = Inr (ZSM_GET_ACTIVE_ZONE_SUCCESS, Init (chunk_at z c), st', d) \<and>
    z < length (zs_state st) \<and> zview st z = Filling c \<and> c < unat (zs_max_zone_chunks st) \<and>
    zsm_inv st' \<and> zview st' = (zview st)(z := Writing c) \<and> zsm_cfg st' = zsm_cfg st \<and>
    zs_free st' = zs_free st \<and> (zsm_tight st \<longrightarrow> zsm_tight st')"
proof -
  note I = zsm_invD [OF inv]
  let ?zone = "zone_at st z"
  have z: "z < length (zs_state st)" "zz_state ?zone = ZN_ZONE_ACTIVE" using I(7) [of z] act by auto
  have fine: "zz_zone_id ?zone = of_nat z" "unat (zz_chunk_offset ?zone) < unat (zs_max_zone_chunks st)"
    using I(6) [OF z(1)] z(2) by (simp_all add: zone_fine_def)
  define v where "v = ?zone\<lparr>zz_state := ZN_ZONE_WRITE_OCCURING\<rparr>"
  define st' where "st' = (set_zone z v st)\<lparr>zs_active := act, zs_writes_occurring := zs_writes_occurring st + 1\<rparr>"
  have v: "is_writing (zs_max_zone_chunks st) v" using fine(2) by (simp add: v_def is_writing_def)
  have upd: "zs_state st' = (zs_state st)[z := v]" "zs_max_zone_chunks st' = zs_max_zone_chunks st"
    by (simp_all add: st'_def)
  have "z \<notin> writers st" using z(2) by (simp add: writers_def is_writing_def)
  then have cnt: "card (writers st') = unat (zs_writes_occurring st')"
    using I(10) active_nonempty_room [OF inv act] v unfolding writers_eq [OF upd z(1)] by (simp add: st'_def)
  have "zsm_inv st'"
    by (rule zsm_inv_move [OF inv z(1) upd(1)])
      (use I(4,5,9,11) act z fine cnt active_nonempty_room [OF inv act] in
        \<open>auto simp: st'_def v_def zone_fine_def\<close>)
  moreover have "zsm_tight st'" if "zsm_tight st"
    by (rule zsm_tight_move [OF that upd]) (use v in \<open>auto simp: st'_def v_def\<close>)
  moreover have "take_active_zone nd pair st d =
      Inr (ZSM_GET_ACTIVE_ZONE_SUCCESS, Init (chunk_at z (unat (zz_chunk_offset ?zone))), st', d)"
    using act z fine by (simp add: take_active_zone_def chunk_at_def st'_def v_def)
  moreover have "zview st z = Filling (unat (zz_chunk_offset ?zone))" by (simp add: zview_iff z)
  moreover have "zview st' = (zview st)(z := Writing (unat (zz_chunk_offset ?zone)))"
    using v by (simp add: zview_upd [OF upd z(1)]) (simp add: view_zone_def v_def is_writing_def)
  ultimately show ?thesis using z(1) fine(2) by (auto simp: st'_def)
qed

text \<open>\<open>open_zone\<close> on the head of the free queue, which the caller has just removed.\<close>

lemma open_zone_ok:
  assumes inv: "zsm_inv st" and fr: "zs_free st = z # rest"
    and room: "length (zs_active st) + unat (zs_writes_occurring st) < unat (zs_max_nr_active_zones st)"
  shows "\<exists>r st' d'. open_zone nd ops z (st\<lparr>zs_free := rest\<rparr>) d = Inr (r, st', d') \<and>
    (d' = d \<or> (\<exists>off. d' = snd (zbd_open_zones ops (zs_fd st) off 1 d))) \<and>
    (r = 0 \<longrightarrow> zsm_inv st' \<and> zview st' = (zview st)(z := Filling 0) \<and> zsm_cfg st' = zsm_cfg st \<and>
      zs_active st' = zs_active st @ [z] \<and> zs_free st' = rest \<and> (zsm_tight st \<longrightarrow> zsm_tight st')) \<and>
    (r \<noteq> 0 \<longrightarrow> st' = st\<lparr>zs_free := rest\<rparr> \<and> (\<exists>off. r = fst (zbd_open_zones ops (zs_fd st) off 1 d)))"
proof -
  note I = zsm_invD [OF inv]
  have z: "z < length (zs_state st)" "zz_state (zone_at st z) = ZN_ZONE_FREE" using I(8,9) [of z] fr by auto
  define wp where "wp = CHUNK_POINTER (zs_zone_size st) (zs_chunk_size st) 0 (zz_zone_id (zone_at st z))"
  define e where "e = (if zs_backend_type st = ZE_BACKEND_ZNS then zbd_open_zones ops (zs_fd st) wp 1 d else (0, d))"
  define v where "v = (zone_at st z)\<lparr>zz_state := ZN_ZONE_ACTIVE, zz_chunk_offset := 0\<rparr>"
  define st' where "st' = (set_zone z v (st\<lparr>zs_free := rest\<rparr>))\<lparr>zs_active := zs_active st @ [z]\<rparr>"
  have upd: "zs_state st' = (zs_state st)[z := v]" "zs_max_zone_chunks st' = zs_max_zone_chunks st"
    by (simp_all add: st'_def)
  have nw: "\<not> is_writing (zs_max_zone_chunks st) v" "z \<notin> writers st" "z \<notin> set (zs_active st)"
    using z(2) I(7) [of z] by (simp_all add: v_def is_writing_def writers_def)
  have run: "open_zone nd ops z (st\<lparr>zs_free := rest\<rparr>) d =
      (if fst e \<noteq> 0 then Inr (fst e, st\<lparr>zs_free := rest\<rparr>, snd e) else Inr (0, st', snd e))"
    using z room queue_lengths [OF inv]
    by (auto simp: open_zone_def word_le_nat_alt Let_def wp_def e_def st'_def v_def split: prod.split)
  have cnt: "card (writers st') = unat (zs_writes_occurring st')"
    using I(10) nw unfolding writers_eq [OF upd z(1)] by (simp add: st'_def)
  have "zsm_inv st'"
    by (rule zsm_inv_move [OF inv z(1) upd(1)])
      (use I(2,4,5) I(6) [OF z(1)] cnt fr nw z room in \<open>auto simp: st'_def v_def zone_fine_def\<close>)
  moreover have "zsm_tight st'" if "zsm_tight st"
    by (rule zsm_tight_move [OF that upd]) (use fr in \<open>auto simp: st'_def v_def\<close>)
  moreover have "zview st' = (zview st)(z := Filling 0)"
    by (simp add: zview_upd [OF upd z(1)]) (simp add: view_zone_def v_def)
  ultimately show ?thesis using run by (auto simp: e_def st'_def)
qed

lemma queue_zero:
  assumes "zsm_inv st"
  shows "g_queue_get_length (zs_active st) + zs_writes_occurring st = (0 :: u32) \<longleftrightarrow>
      zs_active st = [] \<and> zs_writes_occurring st = 0"
    "g_queue_get_length (zs_active st) = (0 :: u32) \<longleftrightarrow> zs_active st = []"
    "g_queue_get_length (zs_free st) = (0 :: u32) \<longleftrightarrow> zs_free st = []"
proof -
  have eq0: "w = 0 \<longleftrightarrow> unat w = 0" for w :: u32 by (simp add: unat_eq_zero)
  show "g_queue_get_length (zs_active st) + zs_writes_occurring st = (0 :: u32) \<longleftrightarrow>
      zs_active st = [] \<and> zs_writes_occurring st = 0"
    "g_queue_get_length (zs_active st) = (0 :: u32) \<longleftrightarrow> zs_active st = []"
    "g_queue_get_length (zs_free st) = (0 :: u32) \<longleftrightarrow> zs_free st = []"
    unfolding eq0 queue_lengths [OF assms] by simp_all
qed

lemma get_from_active:
  assumes "zsm_inv st" "zs_active st = z # act"
  shows "zsm_get_active_zone nd ops pair st d = take_active_zone nd pair st d"
  using assms(2) queue_zero [OF assms(1)]
  by (simp add: zsm_get_active_zone_def Let_def word_gt_0 del: of_nat_Suc)

lemma get_idle:
  assumes "zsm_inv st" "zs_active st = []"
    "zs_free st = [] \<or> \<not> zs_writes_occurring st < zs_max_nr_active_zones st"
  shows "zsm_get_active_zone nd ops pair st d =
    Inr (if zs_free st = [] \<and> zs_writes_occurring st = 0 then ZSM_GET_ACTIVE_ZONE_EVICT
      else ZSM_GET_ACTIVE_ZONE_RETRY, pair, st, d)"
  using assms(2,3) queue_zero [OF assms(1)]
  by (auto simp: zsm_get_active_zone_def Let_def word_gt_0)

lemma get_from_free:
  assumes "zsm_inv st" "zs_active st = []" "zs_free st = z # rest"
    "zs_writes_occurring st < zs_max_nr_active_zones st"
    "open_zone nd ops z (st\<lparr>zs_free := rest\<rparr>) d = Inr (r, st1, d1)"
  shows "zsm_get_active_zone nd ops pair st d =
    (if r \<noteq> 0 then c_assert nd False (Inr (ZSM_GET_ACTIVE_ZONE_ERROR, pair, st1, d1))
     else take_active_zone nd pair st1 d1)"
proof -
  have "zz_state (zone_at st z) = ZN_ZONE_FREE" using zsm_invD(9) [OF assms(1)] assms(3) by simp
  then show ?thesis
    using assms(2-5) queue_zero [OF assms(1)]
    by (simp add: zsm_get_active_zone_def Let_def word_gt_0 del: of_nat_Suc)
qed

text \<open>The four ways \<open>zsm_get_active_zone\<close> ends.\<close>

lemma zsm_get_cases [consumes 1, case_names evict retry failed success]:
  fixes ops :: "'dev dev_ops" and d :: 'dev
  assumes inv: "zsm_inv st"
  obtains (evict) "zs_active st = []" "zs_free st = []" "zs_writes_occurring st = 0"
      "zsm_get_active_zone nd ops pair st d = Inr (ZSM_GET_ACTIVE_ZONE_EVICT, pair, st, d)"
  | (retry) "zs_active st = []" "zs_writes_occurring st \<noteq> 0 \<or> zs_free st \<noteq> []"
      "zs_free st = [] \<or> unat (zs_max_nr_active_zones st) \<le> unat (zs_writes_occurring st)"
      "zsm_get_active_zone nd ops pair st d = Inr (ZSM_GET_ACTIVE_ZONE_RETRY, pair, st, d)"
  | (failed) z rest r off d' where "zs_free st = z # rest" "r \<noteq> 0"
      "r = fst (zbd_open_zones ops (zs_fd st) off 1 d)"
      "zsm_get_active_zone nd ops pair st d =
        (if nd then Inr (ZSM_GET_ACTIVE_ZONE_ERROR, pair, st\<lparr>zs_free := rest\<rparr>, d') else Inl Assert_Failed)"
  | (success) z c st' d' where
      "zsm_get_active_zone nd ops pair st d = Inr (ZSM_GET_ACTIVE_ZONE_SUCCESS, Init (chunk_at z c), st', d')"
      "z < length (zs_state st)" "c < unat (zs_max_zone_chunks st)"
      "zview st z = Filling c \<or> zview st z = Free \<and> c = 0" "zview st' = (zview st)(z := Writing c)"
      "zsm_inv st'" "zsm_tight st \<Longrightarrow> zsm_tight st'" "zsm_cfg st' = zsm_cfg st"
      "d' = d \<or> (\<exists>off. d' = snd (zbd_open_zones ops (zs_fd st) off 1 d))"
proof (cases "zs_active st")
  case (Cons z act)
  obtain c st' where "take_active_zone nd pair st d = Inr (ZSM_GET_ACTIVE_ZONE_SUCCESS, Init (chunk_at z c), st', d)"
    "z < length (zs_state st)" "zview st z = Filling c" "c < unat (zs_max_zone_chunks st)"
    "zsm_inv st'" "zview st' = (zview st)(z := Writing c)" "zsm_cfg st' = zsm_cfg st"
    "zsm_tight st \<longrightarrow> zsm_tight st'" using take_active_ok [OF inv Cons, of nd pair d] by blast
  then show thesis
    by (intro success [of z c st' d]) (simp_all add: get_from_active [OF inv Cons])
next
  case act: Nil
  show thesis
  proof (cases "zs_free st = [] \<or> \<not> zs_writes_occurring st < zs_max_nr_active_zones st")
    case True
    from get_idle [OF inv act this, of nd ops pair d] True act evict retry show thesis
      by (cases "zs_free st = [] \<and> zs_writes_occurring st = 0") (auto simp: word_less_nat_alt)
  next
    case False
    then obtain z rest where fr: "zs_free st = z # rest"
      and room: "zs_writes_occurring st < zs_max_nr_active_zones st" by (cases "zs_free st") auto
    have isfree: "zview st z = Free" "z < length (zs_state st)"
      using zsm_invD(8,9) [OF inv] fr by (simp_all add: zview_iff)
    obtain r st1 d1 where o: "open_zone nd ops z (st\<lparr>zs_free := rest\<rparr>) d = Inr (r, st1, d1)"
      "d1 = d \<or> (\<exists>off. d1 = snd (zbd_open_zones ops (zs_fd st) off 1 d))"
      "r = 0 \<longrightarrow> zsm_inv st1 \<and> zview st1 = (zview st)(z := Filling 0) \<and> zsm_cfg st1 = zsm_cfg st \<and>
         zs_active st1 = zs_active st @ [z] \<and> (zsm_tight st \<longrightarrow> zsm_tight st1)"
      "r \<noteq> 0 \<longrightarrow> st1 = st\<lparr>zs_free := rest\<rparr> \<and> (\<exists>off. r = fst (zbd_open_zones ops (zs_fd st) off 1 d))"
      using open_zone_ok [OF inv fr, of nd ops d] room act by (auto simp: word_less_nat_alt)
    note run = get_from_free [OF inv act fr room o(1), of pair]
    show thesis
    proof (cases "r = 0")
      case False
      then show thesis using failed [OF fr False] o(4) run by (auto simp: c_assert_def)
    next
      case True
      then have s1: "zsm_inv st1" "zview st1 = (zview st)(z := Filling 0)" "zsm_cfg st1 = zsm_cfg st"
        "zs_active st1 = [z]" "zsm_tight st \<longrightarrow> zsm_tight st1" using o(3) act by auto
      obtain c st' where t: "take_active_zone nd pair st1 d1 = Inr (ZSM_GET_ACTIVE_ZONE_SUCCESS, Init (chunk_at z c), st', d1)"
        "zview st1 z = Filling c" "c < unat (zs_max_zone_chunks st1)"
        "zsm_inv st'" "zview st' = (zview st1)(z := Writing c)" "zsm_cfg st' = zsm_cfg st1"
        "zsm_tight st1 \<longrightarrow> zsm_tight st'" using take_active_ok [OF s1(1,4), of nd pair d1] by blast
      show thesis by (rule success [of z c st' d1])
        (use s1 t isfree True run o(2) in \<open>auto simp: zsm_cfg_def\<close>)
    qed
  qed
qed

text \<open>A pair that was handed out and not yet given back.\<close>

definition held :: "zone_state_manager \<Rightarrow> zn_pair \<Rightarrow> bool" where
  "held st p \<longleftrightarrow> unat (zp_zone p) < length (zs_state st) \<and>
     zview st (unat (zp_zone p)) = Writing (unat (zp_chunk_offset p))"

lemma heldD:
  assumes "zsm_inv st" "held st p"
  shows "unat (zp_zone p) < length (zs_state st)"
    "zz_state (zone_at st (unat (zp_zone p))) = ZN_ZONE_WRITE_OCCURING"
    "zz_chunk_offset (zone_at st (unat (zp_zone p))) = zp_chunk_offset p"
    "unat (zp_chunk_offset p) < unat (zs_max_zone_chunks st)"
    "unat (zp_zone p) \<in> writers st" "unat (zp_zone p) \<notin> set (zs_active st)"
    "unat (zp_zone p) \<notin> set (zs_free st)"
    "unat (zs_writes_occurring st - 1) = unat (zs_writes_occurring st) - 1" "0 < unat (zs_writes_occurring st)"
proof -
  note I = zsm_invD [OF assms(1)]
  show h: "unat (zp_zone p) < length (zs_state st)"
    "zz_state (zone_at st (unat (zp_zone p))) = ZN_ZONE_WRITE_OCCURING"
    "zz_chunk_offset (zone_at st (unat (zp_zone p))) = zp_chunk_offset p"
    "unat (zp_chunk_offset p) < unat (zs_max_zone_chunks st)"
    using assms(2) by (auto simp: held_def zview_iff is_writing_def)
  show w: "unat (zp_zone p) \<in> writers st" using h by (simp add: writers_def is_writing_def)
  show "unat (zp_zone p) \<notin> set (zs_active st)" using I(7) [of "unat (zp_zone p)"] h by auto
  show "unat (zp_zone p) \<notin> set (zs_free st)" using I(9) [of "unat (zp_zone p)"] h by auto
  show pos: "0 < unat (zs_writes_occurring st)" using w I(10) by (metis card_gt_0_iff empty_iff finite_writers)
  then have "0 < zs_writes_occurring st" by (simp add: word_less_nat_alt)
  then show "unat (zs_writes_occurring st - 1) = unat (zs_writes_occurring st) - 1" by (rule unat_dec)
qed

text \<open>Ending a write: the zone leaves the set of writers and, unless it is full, rejoins the active queue.\<close>

lemma end_write_inv:
  assumes inv: "zsm_inv st" and h: "held st p" and z: "z = unat (zp_zone p)"
    and upd: "zs_state st' = (zs_state st)[z := v]"
    and frame: "zs_max_zone_chunks st' = zs_max_zone_chunks st" "zs_num_zones st' = zs_num_zones st"
      "zs_max_nr_active_zones st' = zs_max_nr_active_zones st" "zs_free st' = zs_free st"
      "zs_writes_occurring st' = zs_writes_occurring st - 1"
    and act: "zs_active st' = (if zz_state v = ZN_ZONE_ACTIVE then zs_active st @ [z] else zs_active st)"
    and v: "zone_fine (zs_max_zone_chunks st) z v" "\<not> is_writing (zs_max_zone_chunks st) v"
      "zz_state v \<noteq> ZN_ZONE_FREE"
  shows "zsm_inv st'" and "zsm_tight st \<Longrightarrow> zz_state v \<noteq> ZN_ZONE_WRITE_OCCURING \<Longrightarrow> zsm_tight st'"
proof -
  note I = zsm_invD [OF inv] and H = heldD [OF inv h, folded z]
  have "card (writers st') = unat (zs_writes_occurring st')"
    using H(5,8) I(10) v(2) by (simp add: writers_eq [OF upd frame(1) H(1)] frame(5))
  then show "zsm_inv st'"
    by (intro zsm_inv_move [OF inv H(1) upd])
      (use I(4,5,11) H v frame act in \<open>auto split: if_splits\<close>)
  show "zsm_tight st \<Longrightarrow> zz_state v \<noteq> ZN_ZONE_WRITE_OCCURING \<Longrightarrow> zsm_tight st'"
    using zsm_tight_move [OF _ upd frame(1)] frame(4) v(3) by simp
qed

lemma zsm_failed_to_write_ok:
  assumes inv: "zsm_inv st" and h: "held st p"
  shows "\<exists>st'. zsm_failed_to_write nd p st = Inr st' \<and> zsm_inv st' \<and> (zsm_tight st \<longrightarrow> zsm_tight st') \<and>
    zsm_cfg st' = zsm_cfg st \<and> zview st' = (zview st)(unat (zp_zone p) := Filling (unat (zp_chunk_offset p)))"
proof -
  note I = zsm_invD [OF inv] and H = heldD [OF inv h]
  define z where "z = unat (zp_zone p)"
  define v where "v = (zone_at st z)\<lparr>zz_state := ZN_ZONE_ACTIVE\<rparr>"
  define st' where "st' = (set_zone z v st)\<lparr>zs_writes_occurring := zs_writes_occurring st - 1,
    zs_active := zs_active st @ [z]\<rparr>"
  have run: "zsm_failed_to_write nd p st = Inr st'"
    using H queue_lengths(3) [OF inv] I(11)
    by (simp add: zsm_failed_to_write_def st'_def v_def z_def Let_def word_le_nat_alt word_less_nat_alt)
  have v: "zone_fine (zs_max_zone_chunks st) z v" using I(6) [OF H(1)] H(2-4)
    by (simp add: zone_fine_def v_def z_def)
  have "zsm_inv st'" "zsm_tight st \<Longrightarrow> zsm_tight st'"
    by (rule end_write_inv [OF inv h z_def, where v = v];
        use v in \<open>simp add: st'_def v_def is_writing_def\<close>)+
  moreover have "zview st' = (zview st)(z := Filling (unat (zp_chunk_offset p)))"
    using H(1,3) by (subst zview_upd [where st = st and z = z and v = v])
      (simp_all add: st'_def z_def v_def view_zone_def)
  ultimately show ?thesis using run by (simp add: z_def st'_def)
qed

text \<open>What a completed write leads to.\<close>

definition after_write :: "zone_state_manager \<Rightarrow> nat \<Rightarrow> int \<Rightarrow> zone_view" where
  "after_write st c r = (if c + 1 < unat (zs_max_zone_chunks st) then Filling (c + 1)
     else if r = 0 then Full else Stuck)"

lemma zsm_return_active_zone_ok:
  fixes ops :: "'dev dev_ops"
  assumes inv: "zsm_inv st" and h: "held st p"
  shows "\<exists>r st' d'. zsm_return_active_zone nd ops p st d = Inr (r, st', d') \<and> zsm_inv st' \<and>
    (zsm_tight st \<longrightarrow> r = 0 \<longrightarrow> zsm_tight st') \<and> zsm_cfg st' = zsm_cfg st \<and> zs_free st' = zs_free st \<and>
    zview st' = (zview st)(unat (zp_zone p) := after_write st (unat (zp_chunk_offset p)) r) \<and>
    (d' = d \<and> r = 0 \<or> (\<exists>off. zbd_finish_zones ops (zs_fd st) off (zs_zone_cap st) d = (r, d')))"
proof -
  note I = zsm_invD [OF inv] and H = heldD [OF inv h]
  define z where "z = unat (zp_zone p)"
  define c where "c = unat (zp_chunk_offset p)"
  have inc: "unat (zp_chunk_offset p + 1) = c + 1"
    using H(4) I(3) unfolding c_def by (intro unat_inc) simp
  define v1 where "v1 = (zone_at st z)\<lparr>zz_chunk_offset := zp_chunk_offset p + 1\<rparr>"
  define st1 where "st1 = (set_zone z v1 st)\<lparr>zs_writes_occurring := zs_writes_occurring st - 1\<rparr>"
  have z: "z < length (zs_state st)" "zone_at st1 z = v1" "zz_state v1 = ZN_ZONE_WRITE_OCCURING"
    using H(1,2) by (simp_all add: z_def st1_def v1_def)
  have last: "ucast (zp_chunk_offset p + 1) = zs_max_zone_chunks st \<longleftrightarrow> c + 1 = unat (zs_max_zone_chunks st)"
    using inc by (metis unat_inject unat_ucast_u32_u64)
  define fin where "fin = (if c + 1 = unat (zs_max_zone_chunks st) then close_zone ops z st1 d
    else (0, (set_zone z (v1\<lparr>zz_state := ZN_ZONE_ACTIVE\<rparr>) st1)\<lparr>zs_active := zs_active st @ [z]\<rparr>, d))"
  have run: "zsm_return_active_zone nd ops p st d = Inr fin"
    using H queue_lengths(3) [OF inv] I(11) last
    by (simp add: zsm_return_active_zone_def Let_def word_le_nat_alt z_def v1_def st1_def fin_def)
  obtain r st' d' where fin: "fin = (r, st', d')" using prod_cases3 by blast
  define w where "w = (if c + 1 < unat (zs_max_zone_chunks st) then v1\<lparr>zz_state := ZN_ZONE_ACTIVE\<rparr>
    else if r = 0 then v1\<lparr>zz_state := ZN_ZONE_FULL, zz_chunk_offset := 0\<rparr> else v1)"
  have c: "c < unat (zs_max_zone_chunks st)" using H(4) by (simp add: c_def)
  have st': "st' = (set_zone z w st)\<lparr>zs_writes_occurring := zs_writes_occurring st - 1,
      zs_active := (if c + 1 < unat (zs_max_zone_chunks st) then zs_active st @ [z] else zs_active st)\<rparr>"
    and dev: "d' = d \<and> r = 0 \<or> (\<exists>off. zbd_finish_zones ops (zs_fd st) off (zs_zone_cap st) d = (r, d'))"
    using fin c z unfolding fin_def
    by (auto simp: close_zone_def Let_def st1_def w_def set_zone_def split: if_splits prod.splits)
  have w: "zone_fine (zs_max_zone_chunks st) z w" "\<not> is_writing (zs_max_zone_chunks st) w"
    "zz_state w \<noteq> ZN_ZONE_FREE" "r = 0 \<Longrightarrow> zz_state w \<noteq> ZN_ZONE_WRITE_OCCURING"
    "zz_state w = ZN_ZONE_ACTIVE \<longleftrightarrow> c + 1 < unat (zs_max_zone_chunks st)"
    using I(6) [OF z(1)] c z(3) inc by (auto simp: w_def zone_fine_def is_writing_def v1_def)
  have "zsm_inv st'" "zsm_tight st \<Longrightarrow> r = 0 \<Longrightarrow> zsm_tight st'"
    by (rule end_write_inv [OF inv h z_def, where v = w]; use w in \<open>simp add: st'\<close>)+
  moreover have "zview st' = (zview st)(z := after_write st c r)"
    using z(1,3) c inc by (subst zview_upd [where st = st and z = z and v = w])
      (auto simp: st' w_def view_zone_def after_write_def v1_def is_writing_def)
  ultimately show ?thesis using run fin dev by (auto simp: z_def c_def st')
qed

lemma zsm_evict_ok:
  fixes ops :: "'dev dev_ops"
  assumes inv: "zsm_inv st" and z: "z < length (zs_state st)" "zview st z = Full"
  shows "\<exists>st' d' r off. zbd_reset_zones ops (zs_fd st) off (zs_zone_cap st) d = (r, d') \<and>
      off = CHUNK_POINTER (zs_zone_size st) (zs_chunk_size st) 0 (of_nat z) \<and>
      (zs_backend_type st = ZE_BACKEND_ZNS \<and> r \<noteq> 0 \<and>
         zsm_evict nd ops (int z) st d = (if nd then Inr (0, st', d') else Inl Assert_Failed) \<and>
         zsm_inv st' \<and> zview st' = zview st \<and> zs_free st' = zs_free st \<and> zsm_cfg st' = zsm_cfg st
       \<or> (zs_backend_type st = ZE_BACKEND_ZNS \<longrightarrow> r = 0) \<and>
         zsm_evict nd ops (int z) st d = Inr (0, st', if zs_backend_type st = ZE_BACKEND_ZNS then d' else d) \<and>
         zsm_inv st' \<and> (zsm_tight st \<longrightarrow> zsm_tight st') \<and> zview st' = (zview st)(z := Free) \<and>
         zs_free st' = zs_free st @ [z] \<and> zsm_cfg st' = zsm_cfg st)"
proof -
  note I = zsm_invD [OF inv]
  have full: "zz_state (zone_at st z) = ZN_ZONE_FULL" using z(2) by (simp add: zview_iff)
  have id: "zz_zone_id (zone_at st z) = of_nat z" using I(6) [OF z(1)] by (simp add: zone_fine_def)
  define off where "off = CHUNK_POINTER (zs_zone_size st) (zs_chunk_size st) 0 (of_nat z)"
  obtain r d' where dev: "zbd_reset_zones ops (zs_fd st) off (zs_zone_cap st) d = (r, d')" by force
  have out: "z \<notin> set (zs_active st)" "z \<notin> set (zs_free st)" "z \<notin> writers st"
    using I(7,9) [of z] full by (auto simp: writers_def is_writing_def)
  show ?thesis
  proof (cases "zs_backend_type st = ZE_BACKEND_ZNS \<and> r \<noteq> 0")
    case True
    define v where "v = (zone_at st z)\<lparr>zz_invalid := []\<rparr>"
    have upd: "zs_state (set_zone z v st) = (zs_state st)[z := v]" by simp
    have v: "zz_state v = ZN_ZONE_FULL" "zone_fine (zs_max_zone_chunks st) z v"
      "\<not> is_writing (zs_max_zone_chunks st) v"
      using full I(6) [OF z(1)] by (simp_all add: v_def zone_fine_def is_writing_def)
    have "zsm_inv (set_zone z v st)"
      by (rule zsm_inv_move [OF inv z(1) upd])
        (use I v out in \<open>simp_all add: writers_eq [OF upd _ z(1)]\<close>)
    moreover have "zview (set_zone z v st) = zview st"
      using z v by (simp add: zview_upd [OF upd _ z(1)] view_zone_def fun_upd_idem)
    moreover have "zsm_evict nd ops (int z) st d = (if nd then Inr (0, set_zone z v st, d') else Inl Assert_Failed)"
      using True dev full z(1) id
      by (simp add: zsm_evict_def reset_zone_def Let_def off_def [symmetric] v_def c_assert_def)
    ultimately show ?thesis using True dev unfolding off_def by auto
  next
    case False
    define v where "v = (zone_at st z)\<lparr>zz_state := ZN_ZONE_FREE, zz_chunk_offset := 0\<rparr>"
    define st' where "st' = (set_zone z v st)\<lparr>zs_free := zs_free st @ [z]\<rparr>"
    have upd: "zs_state st' = (zs_state st)[z := v]" "zs_max_zone_chunks st' = zs_max_zone_chunks st"
      by (simp_all add: st'_def)
    have v: "zz_state v = ZN_ZONE_FREE" "zone_fine (zs_max_zone_chunks st) z v"
      "\<not> is_writing (zs_max_zone_chunks st) v"
      using id by (simp_all add: v_def zone_fine_def is_writing_def)
    have "card (writers st') = unat (zs_writes_occurring st')"
      using v out I(10) unfolding writers_eq [OF upd z(1)] by (simp add: st'_def)
    then have "zsm_inv st'"
      by (intro zsm_inv_move [OF inv z(1) upd(1)]) (use I v out in \<open>auto simp: st'_def\<close>)
    moreover have "zsm_tight st \<longrightarrow> zsm_tight st'"
      using zsm_tight_move [OF _ upd] v(1) by (auto simp: st'_def)
    moreover have "zview st' = (zview st)(z := Free)"
      using v by (simp add: zview_upd [OF upd z(1)] view_zone_def)
    moreover have "zsm_evict nd ops (int z) st d =
        Inr (0, st', if zs_backend_type st = ZE_BACKEND_ZNS then d' else d)"
      using False dev full z(1) id
      by (auto simp: zsm_evict_def reset_zone_def Let_def off_def [symmetric] v_def st'_def)
    ultimately show ?thesis using False dev unfolding off_def by (auto simp: st'_def)
  qed
qed

lemma zsm_mark_ok:
  assumes inv: "zsm_inv st" and z: "unat (zp_zone p) < length (zs_state st)"
  shows "\<exists>st'. zsm_mark_chunk_invalid p st = Inr st' \<and> zsm_inv st' \<and> (zsm_tight st \<longrightarrow> zsm_tight st') \<and>
    zview st' = zview st \<and> zsm_cfg st' = zsm_cfg st \<and> zs_free st' = zs_free st"
proof -
  note I = zsm_invD [OF inv]
  define v where "v = (zone_at st (unat (zp_zone p)))
    \<lparr>zz_invalid := zz_invalid (zone_at st (unat (zp_zone p))) @ [zp_chunk_offset p]\<rparr>"
  define st' where "st' = set_zone (unat (zp_zone p)) v st"
  have upd: "zs_state st' = (zs_state st)[unat (zp_zone p) := v]" "zs_max_zone_chunks st' = zs_max_zone_chunks st"
    by (simp_all add: st'_def)
  have v: "zz_state v = zz_state (zone_at st (unat (zp_zone p)))"
    "is_writing (zs_max_zone_chunks st) v \<longleftrightarrow> unat (zp_zone p) \<in> writers st"
    "view_zone (zs_max_zone_chunks st) v = zview st (unat (zp_zone p))"
    "zone_fine (zs_max_zone_chunks st) (unat (zp_zone p)) v"
    using z I(6) [OF z] by (auto simp: v_def is_writing_def writers_def view_zone_def zview_def zone_fine_def
        split: zn_zone_condition.splits)
  have "writers st' = writers st" using v(2) by (auto simp: writers_eq [OF upd z])
  then have "zsm_inv st'"
    by (intro zsm_inv_move [OF inv z upd(1)]) (use I z v in \<open>auto simp: st'_def\<close>)
  moreover have "zsm_tight st'" if "zsm_tight st"
    by (rule zsm_tight_move [OF that upd]) (use that z v in \<open>auto simp: st'_def zsm_tight_def writers_def\<close>)
  moreover have "zview st' = zview st" by (simp add: zview_upd [OF upd z] v(3))
  moreover have "zsm_mark_chunk_invalid p st = Inr st'" using z by (simp add: zsm_mark_chunk_invalid_def st'_def v_def)
  ultimately show ?thesis by (auto simp: st'_def)
qed

section \<open>The interface\<close>

text \<open>
  What the cache relies on, for a device whose zone commands succeed: \<open>get\<close> hands out the next
  chunk of one zone, \<open>ret\<close> or \<open>failw\<close> ends the write, \<open>evict\<close> empties a full zone.
\<close>

locale zone_allocator =
  fixes inv :: "'s \<Rightarrow> bool"
    and view :: "'s \<Rightarrow> nat \<Rightarrow> zone_view"
    and zones :: "'s \<Rightarrow> nat"
    and chunks :: "'s \<Rightarrow> nat"
    and get :: "'s \<Rightarrow> 'd \<Rightarrow> (zsm_get_active_zone_error \<times> zn_pair cell \<times> 's \<times> 'd) res"
    and ret :: "zn_pair \<Rightarrow> 's \<Rightarrow> 'd \<Rightarrow> (int \<times> 's \<times> 'd) res"
    and failw :: "zn_pair \<Rightarrow> 's \<Rightarrow> 's res"
    and evict :: "nat \<Rightarrow> 's \<Rightarrow> 'd \<Rightarrow> (int \<times> 's \<times> 'd) res"
  assumes get_law: "inv s \<Longrightarrow> \<exists>e p s' d'. get s d = Inr (e, p, s', d') \<and> inv s' \<and>
      zones s' = zones s \<and> chunks s' = chunks s \<and>
      (e = ZSM_GET_ACTIVE_ZONE_SUCCESS \<and> (\<exists>z c. z < zones s \<and> c < chunks s \<and> p = Init (chunk_at z c) \<and>
          (view s z = Filling c \<or> view s z = Free \<and> c = 0) \<and> view s' = (view s)(z := Writing c))
       \<or> e = ZSM_GET_ACTIVE_ZONE_EVICT \<and> s' = s \<and> d' = d \<and> (\<forall>z < zones s. view s z = Full)
       \<or> e = ZSM_GET_ACTIVE_ZONE_RETRY \<and> s' = s \<and> d' = d \<and> (\<exists>z < zones s. \<exists>c. view s z = Writing c))"
    and ret_law: "inv s \<Longrightarrow> z < zones s \<Longrightarrow> c < chunks s \<Longrightarrow> view s z = Writing c \<Longrightarrow>
      \<exists>s' d'. ret (chunk_at z c) s d = Inr (0, s', d') \<and> inv s' \<and> zones s' = zones s \<and> chunks s' = chunks s \<and>
        view s' = (view s)(z := if c + 1 < chunks s then Filling (c + 1) else Full)"
    and failw_law: "inv s \<Longrightarrow> z < zones s \<Longrightarrow> c < chunks s \<Longrightarrow> view s z = Writing c \<Longrightarrow>
      \<exists>s'. failw (chunk_at z c) s = Inr s' \<and> inv s' \<and> zones s' = zones s \<and> chunks s' = chunks s \<and>
        view s' = (view s)(z := Filling c)"
    and evict_law: "inv s \<Longrightarrow> z < zones s \<Longrightarrow> view s z = Full \<Longrightarrow>
      \<exists>s' d'. evict z s d = Inr (0, s', d') \<and> inv s' \<and> zones s' = zones s \<and> chunks s' = chunks s \<and>
        view s' = (view s)(z := Free)"
begin

text \<open>A single writer never has to retry: it gets a chunk, or every zone is full.\<close>

lemma sequential_get:
  assumes "inv s" "\<And>z c. z < zones s \<Longrightarrow> view s z \<noteq> Writing c"
  shows "(\<exists>z c s' d'. get s d = Inr (ZSM_GET_ACTIVE_ZONE_SUCCESS, Init (chunk_at z c), s', d') \<and>
      z < zones s \<and> c < chunks s \<and> inv s' \<and> view s' = (view s)(z := Writing c)) \<or>
    (\<forall>z < zones s. view s z = Full)"
  using get_law [OF assms(1), of d] assms(2) by blast

text \<open>When every zone is full, evicting any of them lets the writer continue at its first chunk.\<close>

lemma evict_then_get:
  assumes "inv s" "\<And>z. z < zones s \<Longrightarrow> view s z = Full" "x < zones s"
  shows "\<exists>s1 d1 s2 d2. evict x s d = Inr (0, s1, d1) \<and>
    get s1 d1 = Inr (ZSM_GET_ACTIVE_ZONE_SUCCESS, Init (chunk_at x 0), s2, d2) \<and> inv s2 \<and>
    view s2 = (view s)(x := Writing 0)"
proof -
  obtain s1 d1 where e: "evict x s d = Inr (0, s1, d1)" "inv s1" "zones s1 = zones s"
    "view s1 = (view s)(x := Free)" using evict_law [OF assms(1,3)] assms(2,3) by blast
  obtain r p s2 d2 where g: "get s1 d1 = Inr (r, p, s2, d2)" "inv s2"
    "r = ZSM_GET_ACTIVE_ZONE_SUCCESS \<and> (\<exists>z c. z < zones s1 \<and> c < chunks s1 \<and> p = Init (chunk_at z c) \<and>
        (view s1 z = Filling c \<or> view s1 z = Free \<and> c = 0) \<and> view s2 = (view s1)(z := Writing c))
     \<or> r = ZSM_GET_ACTIVE_ZONE_EVICT \<and> (\<forall>z < zones s1. view s1 z = Full)
     \<or> r = ZSM_GET_ACTIVE_ZONE_RETRY \<and> (\<exists>z < zones s1. \<exists>c. view s1 z = Writing c)"
    using get_law [OF e(2), of d1] by blast
  have vx: "view s1 z = (if z = x then Free else Full)" if "z < zones s" for z
    using e(4) assms(2) [OF that] by simp
  have "r = ZSM_GET_ACTIVE_ZONE_SUCCESS \<and> p = Init (chunk_at x 0) \<and> view s2 = (view s1)(x := Writing 0)"
    using g(3) vx assms(3) e(3) by (auto split: if_splits)
  with e g(1,2) show ?thesis by auto
qed

end

definition zsm_sound :: "'dev dev_ops \<Rightarrow> zone_state_manager \<Rightarrow> bool" where
  "zsm_sound ops st \<longleftrightarrow> zsm_inv st \<and> zsm_tight st \<and> 0 < zs_max_nr_active_zones st \<and> zbd_reliable ops"

lemma zsm_cfgD:
  assumes "zsm_cfg st' = zsm_cfg st"
  shows "zs_fd st' = zs_fd st" "zs_zone_cap st' = zs_zone_cap st" "zs_zone_size st' = zs_zone_size st"
    "zs_chunk_size st' = zs_chunk_size st" "zs_max_nr_active_zones st' = zs_max_nr_active_zones st"
    "zs_max_zone_chunks st' = zs_max_zone_chunks st" "zs_num_zones st' = zs_num_zones st"
    "zs_backend_type st' = zs_backend_type st"
  using assms by (simp_all add: zsm_cfg_def)

lemma zsm_soundD:
  assumes "zsm_sound ops st"
  shows "zsm_inv st" "zsm_tight st" "0 < zs_max_nr_active_zones st" "zbd_reliable ops"
    "length (zs_state st) = unat (zs_num_zones st)"
  using assms zsm_invD(1) by (auto simp: zsm_sound_def)

text \<open>A zone that nobody holds is free, filling or full.\<close>

lemma tight_views:
  assumes "zsm_inv st" "zsm_tight st" "z < length (zs_state st)"
  shows "zview st z = Free \<and> z \<in> set (zs_free st) \<or> (\<exists>c. zview st z = Filling c \<and> z \<in> set (zs_active st)) \<or>
    (\<exists>c. zview st z = Writing c \<and> z \<in> writers st) \<or> zview st z = Full"
  using assms(2,3) zsm_invD(7) [OF assms(1), of z]
  by (auto simp: zsm_tight_def zview_def view_zone_def writers_def is_writing_def split: zn_zone_condition.splits)

lemma no_writer_views:
  assumes "zs_writes_occurring st = 0" "zsm_inv st"
  shows "writers st = {}"
  using zsm_invD(10) [OF assms(2)] assms(1) by simp

lemma get_reliable:
  assumes snd: "zsm_sound ops st"
  shows "\<exists>e p st' d'. zsm_get_active_zone nd ops pair st d = Inr (e, p, st', d') \<and> zsm_sound ops st' \<and>
    zsm_cfg st' = zsm_cfg st \<and> (d' = d \<or> (\<exists>off. d' = snd (zbd_open_zones ops (zs_fd st) off 1 d))) \<and>
    (e = ZSM_GET_ACTIVE_ZONE_SUCCESS \<and> (\<exists>z c. z < unat (zs_num_zones st) \<and> c < unat (zs_max_zone_chunks st) \<and>
        p = Init (chunk_at z c) \<and> (zview st z = Filling c \<or> zview st z = Free \<and> c = 0) \<and>
        zview st' = (zview st)(z := Writing c))
     \<or> e = ZSM_GET_ACTIVE_ZONE_EVICT \<and> st' = st \<and> d' = d \<and> (\<forall>z < unat (zs_num_zones st). zview st z = Full)
     \<or> e = ZSM_GET_ACTIVE_ZONE_RETRY \<and> st' = st \<and> d' = d \<and>
        (\<exists>z < unat (zs_num_zones st). \<exists>c. zview st z = Writing c))"
proof -
  note S = zsm_soundD [OF snd]
  from S(1) show ?thesis
  proof (cases rule: zsm_get_cases [where nd = nd and ops = ops and pair = pair and d = d])
    case evict
    have "zview st z = Full" if "z < length (zs_state st)" for z
      using tight_views [OF S(1,2) that] evict no_writer_views [OF evict(3) S(1)] by simp
    with evict(4) snd S(5) show ?thesis by auto
  next
    case retry
    have "zs_writes_occurring st \<noteq> 0" using retry(2,3) S(3) by (auto simp: word_less_nat_alt)
    then have "card (writers st) \<noteq> 0" using zsm_invD(10) [OF S(1)] by (simp add: unat_eq_zero)
    then obtain z where z: "z \<in> writers st" by fastforce
    then have "\<exists>c. zview st z = Writing c" by (auto simp: writers_def zview_iff)
    moreover have "z < unat (zs_num_zones st)" using z S(5) by (simp add: writers_def)
    ultimately show ?thesis using retry(4) snd by auto
  next
    case (failed z rest r off d')
    then show ?thesis using S(4) by (simp add: zbd_reliable_def)
  next
    case (success z c st' d')
    then have "zsm_sound ops st'" using S by (auto simp: zsm_sound_def zsm_cfg_def)
    with success S(5) show ?thesis by auto
  qed
qed

lemma ret_reliable:
  assumes snd: "zsm_sound ops st" and h: "held st p"
  shows "\<exists>st' d'. zsm_return_active_zone nd ops p st d = Inr (0, st', d') \<and> zsm_sound ops st' \<and>
    zsm_cfg st' = zsm_cfg st \<and> (d' = d \<or> (\<exists>off. d' = snd (zbd_finish_zones ops (zs_fd st) off (zs_zone_cap st) d))) \<and>
    zview st' = (zview st)(unat (zp_zone p) := after_write st (unat (zp_chunk_offset p)) 0)"
proof -
  note S = zsm_soundD [OF snd]
  obtain r st' d' where r: "zsm_return_active_zone nd ops p st d = Inr (r, st', d')" "zsm_inv st'"
    "zsm_tight st \<longrightarrow> r = 0 \<longrightarrow> zsm_tight st'" "zsm_cfg st' = zsm_cfg st"
    "zview st' = (zview st)(unat (zp_zone p) := after_write st (unat (zp_chunk_offset p)) r)"
    "d' = d \<and> r = 0 \<or> (\<exists>off. zbd_finish_zones ops (zs_fd st) off (zs_zone_cap st) d = (r, d'))"
    using zsm_return_active_zone_ok [OF S(1) h, of nd ops d] by blast
  have "r = 0" using r(6) S(4) unfolding zbd_reliable_def by (metis fst_conv)
  moreover have "zsm_sound ops st'" using r \<open>r = 0\<close> S by (auto simp: zsm_sound_def zsm_cfg_def)
  moreover have "d' = d \<or> (\<exists>off. d' = snd (zbd_finish_zones ops (zs_fd st) off (zs_zone_cap st) d))"
    using r(6) by (metis snd_conv)
  ultimately show ?thesis using r by auto
qed

lemma failed_reliable:
  assumes "zsm_sound ops st" "held st p"
  shows "\<exists>st'. zsm_failed_to_write nd p st = Inr st' \<and> zsm_sound ops st' \<and> zsm_cfg st' = zsm_cfg st \<and>
    zview st' = (zview st)(unat (zp_zone p) := Filling (unat (zp_chunk_offset p)))"
  using zsm_failed_to_write_ok [OF zsm_soundD(1) [OF assms(1)] assms(2), of nd] zsm_soundD [OF assms(1)]
  by (auto simp: zsm_sound_def zsm_cfg_def)

lemma evict_reliable:
  assumes snd: "zsm_sound ops st" and z: "z < unat (zs_num_zones st)" "zview st z = Full"
  shows "\<exists>st' d'. zsm_evict nd ops (int z) st d = Inr (0, st', d') \<and> zsm_sound ops st' \<and>
    zsm_cfg st' = zsm_cfg st \<and> zview st' = (zview st)(z := Free) \<and> zs_free st' = zs_free st @ [z] \<and>
    (d' = d \<or> d' = snd (zbd_reset_zones ops (zs_fd st)
       (CHUNK_POINTER (zs_zone_size st) (zs_chunk_size st) 0 (of_nat z)) (zs_zone_cap st) d))"
proof -
  note S = zsm_soundD [OF snd]
  have "z < length (zs_state st)" using z(1) S(5) by simp
  from zsm_evict_ok [OF S(1) this z(2), of ops d nd] obtain st' d' r where
    dev: "zbd_reset_zones ops (zs_fd st) (CHUNK_POINTER (zs_zone_size st) (zs_chunk_size st) 0 (of_nat z)) (zs_zone_cap st) d = (r, d')"
    and "r \<noteq> 0 \<or> zsm_evict nd ops (int z) st d = Inr (0, st', if zs_backend_type st = ZE_BACKEND_ZNS then d' else d) \<and>
         zsm_inv st' \<and> (zsm_tight st \<longrightarrow> zsm_tight st') \<and> zview st' = (zview st)(z := Free) \<and>
         zs_free st' = zs_free st @ [z] \<and> zsm_cfg st' = zsm_cfg st" by blast
  moreover have "r = 0" using dev S(4) unfolding zbd_reliable_def by (metis fst_conv)
  ultimately have e: "zsm_evict nd ops (int z) st d = Inr (0, st', if zs_backend_type st = ZE_BACKEND_ZNS then d' else d)"
    "zsm_inv st'" "zsm_tight st'" "zview st' = (zview st)(z := Free)" "zs_free st' = zs_free st @ [z]"
    "zsm_cfg st' = zsm_cfg st" using S(2) by auto
  have "zsm_sound ops st'" using e S by (auto simp: zsm_sound_def zsm_cfg_def)
  with e dev show ?thesis by auto
qed

lemma chunk_at_unat:
  assumes "zsm_inv st" "z < length (zs_state st)" "c < unat (zs_max_zone_chunks st)"
  shows "unat (zp_zone (chunk_at z c)) = z" "unat (zp_chunk_offset (chunk_at z c)) = c"
proof -
  have "z < 2 ^ 32" using less_trans [OF assms(2) [unfolded zsm_invD(1) [OF assms(1)]] unat_u32_lt] by simp
  then show "unat (zp_zone (chunk_at z c)) = z" by (simp add: chunk_at_def unat_of_nat_u32)
  have "c < 2 ^ 32" using assms(3) zsm_invD(3) [OF assms(1)] by simp
  then show "unat (zp_chunk_offset (chunk_at z c)) = c" by (simp add: chunk_at_def unat_of_nat_u32)
qed

lemma held_chunk_at:
  assumes "zsm_inv st" "z < length (zs_state st)" "c < unat (zs_max_zone_chunks st)"
  shows "held st (chunk_at z c) \<longleftrightarrow> zview st z = Writing c"
  by (simp add: held_def chunk_at_unat [OF assms] assms(2))

interpretation zs: zone_allocator "zsm_sound ops" zview "\<lambda>st. unat (zs_num_zones st)"
  "\<lambda>st. unat (zs_max_zone_chunks st)" "zsm_get_active_zone nd ops pair" "zsm_return_active_zone nd ops"
  "zsm_failed_to_write nd" "\<lambda>z. zsm_evict nd ops (int z)"
  for ops :: "'dev dev_ops" and nd pair
proof
  fix s and d :: 'dev assume s: "zsm_sound ops s"
  from get_reliable [OF s, of nd pair d]
  show "\<exists>e p s' d'. zsm_get_active_zone nd ops pair s d = Inr (e, p, s', d') \<and> zsm_sound ops s' \<and>
      unat (zs_num_zones s') = unat (zs_num_zones s) \<and> unat (zs_max_zone_chunks s') = unat (zs_max_zone_chunks s) \<and>
      (e = ZSM_GET_ACTIVE_ZONE_SUCCESS \<and> (\<exists>z c. z < unat (zs_num_zones s) \<and> c < unat (zs_max_zone_chunks s) \<and>
          p = Init (chunk_at z c) \<and>
          (zview s z = Filling c \<or> zview s z = Free \<and> c = 0) \<and> zview s' = (zview s)(z := Writing c))
       \<or> e = ZSM_GET_ACTIVE_ZONE_EVICT \<and> s' = s \<and> d' = d \<and> (\<forall>z < unat (zs_num_zones s). zview s z = Full)
       \<or> e = ZSM_GET_ACTIVE_ZONE_RETRY \<and> s' = s \<and> d' = d \<and>
          (\<exists>z < unat (zs_num_zones s). \<exists>c. zview s z = Writing c))"
    by (elim exE conjE) (intro exI conjI, assumption+, simp_all add: zsm_cfg_def)
next
  fix s z c and d :: 'dev assume a: "zsm_sound ops s" "z < unat (zs_num_zones s)" "c < unat (zs_max_zone_chunks s)"
    "zview s z = Writing c"
  note S = zsm_soundD [OF a(1)]
  have z: "z < length (zs_state s)" using a(2) S(5) by simp
  have h: "held s (chunk_at z c)" by (simp add: held_chunk_at [OF S(1) z a(3)] a(4))
  show "\<exists>s' d'. zsm_return_active_zone nd ops (chunk_at z c) s d = Inr (0, s', d') \<and> zsm_sound ops s' \<and>
      unat (zs_num_zones s') = unat (zs_num_zones s) \<and> unat (zs_max_zone_chunks s') = unat (zs_max_zone_chunks s) \<and>
      zview s' = (zview s)(z := if c + 1 < unat (zs_max_zone_chunks s) then Filling (c + 1) else Full)"
    using ret_reliable [OF a(1) h, of nd d]
    by (auto simp: zsm_cfg_def after_write_def chunk_at_unat [OF S(1) z a(3)])
  show "\<exists>s'. zsm_failed_to_write nd (chunk_at z c) s = Inr s' \<and> zsm_sound ops s' \<and>
      unat (zs_num_zones s') = unat (zs_num_zones s) \<and> unat (zs_max_zone_chunks s') = unat (zs_max_zone_chunks s) \<and>
      zview s' = (zview s)(z := Filling c)"
    using failed_reliable [OF a(1) h, of nd] by (auto simp: zsm_cfg_def chunk_at_unat [OF S(1) z a(3)])
next
  fix s z and d :: 'dev assume a: "zsm_sound ops s" "z < unat (zs_num_zones s)" "zview s z = Full"
  show "\<exists>s' d'. zsm_evict nd ops (int z) s d = Inr (0, s', d') \<and> zsm_sound ops s' \<and>
      unat (zs_num_zones s') = unat (zs_num_zones s) \<and> unat (zs_max_zone_chunks s') = unat (zs_max_zone_chunks s) \<and>
      zview s' = (zview s)(z := Free)"
    using evict_reliable [OF a, of nd d] by (auto simp: zsm_cfg_def)
qed

section \<open>Runs of concurrent callers\<close>

text \<open>
  The states that any interleaving of callers reaches, with the set of pairs in their hands. Each
  call is atomic under the mutex, so an interleaving is a sequence of calls. A caller gives back
  only a pair it holds, once; zones are evicted when they are full (\<open>zn_fg_evict\<close> and the garbage
  collector take them from queues that only full zones enter).
\<close>

inductive zsm_reach :: "bool \<Rightarrow> 'dev dev_ops \<Rightarrow> zone_state_manager \<Rightarrow> zone_state_manager \<Rightarrow> 'dev \<Rightarrow> zn_pair set \<Rightarrow> bool"
  for nd :: bool and ops :: "'dev dev_ops" and st0 :: zone_state_manager where
  init: "zsm_reach nd ops st0 st0 d {}"
| get_success: "zsm_reach nd ops st0 st d H \<Longrightarrow>
    zsm_get_active_zone nd ops pair st d = Inr (ZSM_GET_ACTIVE_ZONE_SUCCESS, Init p, st', d') \<Longrightarrow>
    zsm_reach nd ops st0 st' d' (insert p H)"
| get_other: "zsm_reach nd ops st0 st d H \<Longrightarrow>
    zsm_get_active_zone nd ops pair st d = Inr (e, pair', st', d') \<Longrightarrow> e \<noteq> ZSM_GET_ACTIVE_ZONE_SUCCESS \<Longrightarrow>
    zsm_reach nd ops st0 st' d' H"
| ret: "zsm_reach nd ops st0 st d H \<Longrightarrow> p \<in> H \<Longrightarrow>
    zsm_return_active_zone nd ops p st d = Inr (r, st', d') \<Longrightarrow> zsm_reach nd ops st0 st' d' (H - {p})"
| failed: "zsm_reach nd ops st0 st d H \<Longrightarrow> p \<in> H \<Longrightarrow>
    zsm_failed_to_write nd p st = Inr st' \<Longrightarrow> zsm_reach nd ops st0 st' d (H - {p})"
| evict: "zsm_reach nd ops st0 st d H \<Longrightarrow> z < length (zs_state st) \<Longrightarrow>
    zz_state (zone_at st z) = ZN_ZONE_FULL \<Longrightarrow> zsm_evict nd ops (int z) st d = Inr (r, st', d') \<Longrightarrow>
    zsm_reach nd ops st0 st' d' H"
| mark: "zsm_reach nd ops st0 st d H \<Longrightarrow> unat (zp_zone p) < length (zs_state st) \<Longrightarrow>
    zsm_mark_chunk_invalid p st = Inr st' \<Longrightarrow> zsm_reach nd ops st0 st' d H"

definition hands :: "zone_state_manager \<Rightarrow> zn_pair set" where
  "hands st = {p. held st p \<and> zp_id p = 0 \<and> \<not> zp_in_use p}"

lemma chunk_at_eq:
  "p = chunk_at z c \<longleftrightarrow> zp_zone p = of_nat z \<and> zp_chunk_offset p = of_nat c \<and> zp_id p = 0 \<and> \<not> zp_in_use p"
  by (cases p) (auto simp: chunk_at_def)

lemma hands_writing:
  assumes inv: "zsm_inv st'" and z: "z < length (zs_state st')" "c < unat (zs_max_zone_chunks st')"
    and v: "zview st' = (zview st)(z := Writing c)" "\<And>c. zview st z \<noteq> Writing c"
    and len: "length (zs_state st') = length (zs_state st)"
  shows "hands st' = insert (chunk_at z c) (hands st)"
proof -
  note U = chunk_at_unat [OF inv z]
  have "p \<in> hands st' \<longleftrightarrow> p = chunk_at z c \<or> p \<in> hands st" for p
  proof -
    have z': "unat (zp_zone p) = z \<longleftrightarrow> zp_zone p = of_nat z" and c': "unat (zp_chunk_offset p) = c \<longleftrightarrow> zp_chunk_offset p = of_nat c"
      using U by (auto simp: chunk_at_def)
    show ?thesis
      using z(1) v(2) unfolding chunk_at_eq z' [symmetric] c' [symmetric]
      by (cases "unat (zp_zone p) = z") (auto simp: hands_def held_def v(1) len)
  qed
  then show ?thesis by auto
qed

lemma hands_ended:
  assumes v: "zview st' = (zview st)(unat (zp_zone p) := w)" "\<And>c. w \<noteq> Writing c" and p: "p \<in> hands st"
    and len: "length (zs_state st') = length (zs_state st)"
  shows "hands st' = hands st - {p}"
proof -
  have "q \<in> hands st' \<longleftrightarrow> q \<in> hands st \<and> q \<noteq> p" for q
    using p v(2) by (cases "zp_zone q = zp_zone p") (cases q; cases p; auto simp: hands_def held_def v(1) len)+
  then show ?thesis by auto
qed

lemma hands_same:
  assumes "zview st' = (zview st)(z := w)" "\<And>c. w \<noteq> Writing c" "\<And>c. zview st z \<noteq> Writing c"
    "length (zs_state st') = length (zs_state st)"
  shows "hands st' = hands st"
  using assms by (auto simp: hands_def held_def)

text \<open>
  The abstract machine: \<open>n\<close> zones of \<open>mx\<close> chunks, at most \<open>k\<close> of them open for writing, each
  moving through its life one step at a time.
\<close>

inductive zone_move :: "nat \<Rightarrow> zone_view \<Rightarrow> zone_view \<Rightarrow> bool" for mx :: nat where
  open_write: "0 < mx \<Longrightarrow> zone_move mx Free (Writing 0)"
| next_write: "c < mx \<Longrightarrow> zone_move mx (Filling c) (Writing c)"
| give_up: "c < mx \<Longrightarrow> zone_move mx (Writing c) (Filling c)"
| written: "c + 1 < mx \<Longrightarrow> zone_move mx (Writing c) (Filling (c + 1))"
| filled: "c + 1 = mx \<Longrightarrow> zone_move mx (Writing c) Full"
| stuck: "c + 1 = mx \<Longrightarrow> zone_move mx (Writing c) Stuck"
| reset: "zone_move mx Full Free"

definition zone_open :: "zone_view \<Rightarrow> bool" where
  "zone_open v \<longleftrightarrow> (case v of Filling c \<Rightarrow> True | Writing c \<Rightarrow> True | _ \<Rightarrow> False)"

inductive zone_life :: "nat \<Rightarrow> nat \<Rightarrow> nat \<Rightarrow> (nat \<Rightarrow> zone_view) \<Rightarrow> bool" for n mx k :: nat where
  start: "zone_life n mx k (\<lambda>_. Free)"
| move: "zone_life n mx k V \<Longrightarrow> z < n \<Longrightarrow> zone_move mx (V z) w \<Longrightarrow>
    card {x. x < n \<and> zone_open ((V(z := w)) x)} \<le> k \<Longrightarrow> zone_life n mx k (V(z := w))"

definition zviews :: "zone_state_manager \<Rightarrow> nat \<Rightarrow> zone_view" where
  "zviews st z = (if z < length (zs_state st) then zview st z else Free)"

lemma zone_open_iff:
  "zone_open (zview st x) \<longleftrightarrow> zz_state (zone_at st x) = ZN_ZONE_ACTIVE \<or> is_writing (zs_max_zone_chunks st) (zone_at st x)"
  by (cases "zz_state (zone_at st x)") (simp_all add: zone_open_def zview_def view_zone_def is_writing_def)

lemma open_zones_eq:
  assumes "zsm_inv st"
  shows "{x. x < length (zs_state st) \<and> zone_open (zviews st x)} = set (zs_active st) \<union> writers st"
proof (rule set_eqI)
  fix x show "x \<in> {x. x < length (zs_state st) \<and> zone_open (zviews st x)} \<longleftrightarrow> x \<in> set (zs_active st) \<union> writers st"
    unfolding Un_iff zsm_invD(7) [OF assms, of x] by (auto simp: zviews_def zone_open_iff writers_def)
qed

lemma card_open_zones:
  assumes "zsm_inv st"
  shows "card {x. x < length (zs_state st) \<and> zone_open (zviews st x)} =
    length (zs_active st) + unat (zs_writes_occurring st)"
proof -
  have "x \<notin> writers st" if "x \<in> set (zs_active st)" for x
    using that unfolding zsm_invD(7) [OF assms, of x] by (simp add: writers_def is_writing_def)
  then have "set (zs_active st) \<inter> writers st = {}" by blast
  then show ?thesis
    unfolding open_zones_eq [OF assms] using zsm_invD(4,10) [OF assms]
    by (simp add: card_Un_disjoint distinct_card)
qed

definition zsm_life :: "zone_state_manager \<Rightarrow> bool" where
  "zsm_life st \<longleftrightarrow> zone_life (length (zs_state st)) (unat (zs_max_zone_chunks st))
     (unat (zs_max_nr_active_zones st)) (zviews st)"

lemma zsm_life_move:
  assumes "zsm_life st" "zsm_inv st'" "zsm_cfg st' = zsm_cfg st" "length (zs_state st') = length (zs_state st)"
    "z < length (zs_state st)" "zview st' = (zview st)(z := w)"
    "zone_move (unat (zs_max_zone_chunks st)) (zview st z) w"
  shows "zsm_life st'"
proof -
  have eq: "zviews st' = (zviews st)(z := w)" using assms(4-6) by (auto simp: zviews_def fun_eq_iff)
  have "card {x. x < length (zs_state st) \<and> zone_open (((zviews st)(z := w)) x)} \<le> unat (zs_max_nr_active_zones st)"
    using card_open_zones [OF assms(2)] zsm_invD(11) [OF assms(2)] assms(3,4)
    by (simp add: eq [symmetric] zsm_cfg_def)
  then show ?thesis
    using zone_life.move [of _ _ _ "zviews st" z w] assms unfolding zsm_life_def eq
    by (simp add: zviews_def zsm_cfg_def)
qed

definition reach_inv :: "zone_state_manager \<Rightarrow> zone_state_manager \<Rightarrow> zn_pair set \<Rightarrow> bool" where
  "reach_inv st0 st H \<longleftrightarrow> zsm_inv st \<and> H = hands st \<and> zsm_cfg st = zsm_cfg st0 \<and> zsm_life st \<and>
     length (zs_state st) = length (zs_state st0)"

lemma reach_inv_step:
  assumes "reach_inv st0 st H" "zsm_inv st'" "zsm_cfg st' = zsm_cfg st" "z < length (zs_state st)"
    "zview st' = (zview st)(z := w)" "zone_move (unat (zs_max_zone_chunks st)) (zview st z) w" "H' = hands st'"
  shows "reach_inv st0 st' H'"
proof -
  have len: "length (zs_state st') = length (zs_state st)"
    using assms(1-3) zsm_invD(1) [of st'] zsm_invD(1) [of st] by (simp add: reach_inv_def zsm_cfg_def)
  then show ?thesis using assms zsm_life_move [of st st' z w] by (simp add: reach_inv_def)
qed

lemma same_length:
  "zsm_inv st \<Longrightarrow> zsm_inv st' \<Longrightarrow> zsm_cfg st' = zsm_cfg st \<Longrightarrow> length (zs_state st') = length (zs_state st)"
  using zsm_invD(1) [of st] zsm_invD(1) [of st'] by (simp add: zsm_cfg_def)

lemma reach_same_view:
  assumes "reach_inv st0 st H" "zsm_inv st'" "zview st' = zview st" "zsm_cfg st' = zsm_cfg st"
  shows "reach_inv st0 st' H"
proof -
  have len: "length (zs_state st') = length (zs_state st)"
    by (rule same_length [OF _ assms(2,4)]) (use assms(1) in \<open>simp add: reach_inv_def\<close>)
  have vs: "zviews st' = zviews st" by (simp add: fun_eq_iff zviews_def len assms(3))
  have "hands st' = hands st" by (simp add: hands_def held_def len assms(3))
  moreover have "zsm_life st' \<longleftrightarrow> zsm_life st"
    unfolding zsm_life_def len vs zsm_cfgD [OF assms(4)] by (rule refl)
  ultimately show ?thesis using assms len by (simp add: reach_inv_def)
qed

lemma writers_frame: "writers (st\<lparr>zs_free := f\<rparr>) = writers st"
  by (simp add: writers_def)

lemma reach_get:
  assumes r: "reach_inv st0 st H" and run: "zsm_get_active_zone nd ops pair st d = Inr (e, pair', st', d')"
  shows "reach_inv st0 st' (if e = ZSM_GET_ACTIVE_ZONE_SUCCESS then insert (SOME p. pair' = Init p) H else H)"
proof -
  have inv: "zsm_inv st" and H: "H = hands st" using r by (simp_all add: reach_inv_def)
  from inv show ?thesis
  proof (cases rule: zsm_get_cases [where nd = nd and ops = ops and pair = pair and d = d])
    case (failed z rest x off d1)
    then have "st' = st\<lparr>zs_free := rest\<rparr>" "e = ZSM_GET_ACTIVE_ZONE_ERROR" using run by (auto split: if_splits)
    moreover have "zsm_inv (st\<lparr>zs_free := rest\<rparr>)"
      using inv failed(1) unfolding zsm_inv_def writers_frame by auto
    moreover have "zview (st\<lparr>zs_free := rest\<rparr>) = zview st" by (simp add: fun_eq_iff zview_def)
    ultimately show ?thesis using reach_same_view [OF r, of st'] by simp
  next
    case (success z c st1 d1)
    then have st': "st1 = st'" "e = ZSM_GET_ACTIVE_ZONE_SUCCESS" "pair' = Init (chunk_at z c)" using run by auto
    have len: "length (zs_state st') = length (zs_state st)"
      using same_length [OF inv success(6,8)] st' by simp
    have "hands st' = insert (chunk_at z c) (hands st)"
      by (rule hands_writing) (use success st' len in \<open>auto simp: zsm_cfg_def\<close>)
    moreover have "zone_move (unat (zs_max_zone_chunks st)) (zview st z) (Writing c)"
      using success(3,4) by (auto intro: zone_move.intros)
    ultimately show ?thesis
      using reach_inv_step [OF r, of st' z "Writing c"] success st' H by simp
  qed (use run r in auto)
qed

lemma hands_move:
  assumes "reach_inv st0 st H" "p \<in> H"
  shows "held st p" "unat (zp_zone p) < length (zs_state st)"
    "zview st (unat (zp_zone p)) = Writing (unat (zp_chunk_offset p))"
    "unat (zp_chunk_offset p) < unat (zs_max_zone_chunks st)"
  using assms by (auto simp: reach_inv_def hands_def held_def zview_iff is_writing_def)

lemma reach_ret:
  assumes r: "reach_inv st0 st H" and p: "p \<in> H" and run: "zsm_return_active_zone nd ops p st d = Inr (x, st', d')"
  shows "reach_inv st0 st' (H - {p})"
proof -
  note M = hands_move [OF r p]
  have inv: "zsm_inv st" and H: "H = hands st" using r by (simp_all add: reach_inv_def)
  have st': "zsm_inv st'" "zsm_cfg st' = zsm_cfg st"
    "zview st' = (zview st)(unat (zp_zone p) := after_write st (unat (zp_chunk_offset p)) x)"
    using zsm_return_active_zone_ok [OF inv M(1), of nd ops d] run by auto
  have "hands st' = hands st - {p}"
    by (rule hands_ended [OF st'(3)])
      (use p H same_length [OF inv st'(1,2)] in \<open>auto simp: after_write_def split: if_splits\<close>)
  moreover have "zone_move (unat (zs_max_zone_chunks st)) (zview st (unat (zp_zone p)))
      (after_write st (unat (zp_chunk_offset p)) x)"
    using M(3,4) by (auto simp: after_write_def intro: zone_move.intros zone_move.written [simplified])
  ultimately show ?thesis using reach_inv_step [OF r st'(1,2) M(2) st'(3)] H by simp
qed

lemma reach_failed:
  assumes r: "reach_inv st0 st H" and p: "p \<in> H" and run: "zsm_failed_to_write nd p st = Inr st'"
  shows "reach_inv st0 st' (H - {p})"
proof -
  note M = hands_move [OF r p]
  have inv: "zsm_inv st" and H: "H = hands st" using r by (simp_all add: reach_inv_def)
  have st': "zsm_inv st'" "zsm_cfg st' = zsm_cfg st"
    "zview st' = (zview st)(unat (zp_zone p) := Filling (unat (zp_chunk_offset p)))"
    using zsm_failed_to_write_ok [OF inv M(1), of nd] run by auto
  have "hands st' = hands st - {p}"
    by (rule hands_ended [OF st'(3)]) (use p H same_length [OF inv st'(1,2)] in auto)
  moreover have "zone_move (unat (zs_max_zone_chunks st)) (zview st (unat (zp_zone p)))
      (Filling (unat (zp_chunk_offset p)))" using M(3,4) by (auto intro: zone_move.intros)
  ultimately show ?thesis using reach_inv_step [OF r st'(1,2) M(2) st'(3)] H by simp
qed

lemma reach_evict:
  assumes r: "reach_inv st0 st H" and z: "z < length (zs_state st)" "zz_state (zone_at st z) = ZN_ZONE_FULL"
    and run: "zsm_evict nd ops (int z) st d = Inr (x, st', d')"
  shows "reach_inv st0 st' H"
proof -
  have inv: "zsm_inv st" and H: "H = hands st" using r by (simp_all add: reach_inv_def)
  have full: "zview st z = Full" using z(2) by (simp add: zview_iff)
  have st': "zsm_inv st'" "zsm_cfg st' = zsm_cfg st" "zview st' = zview st \<or> zview st' = (zview st)(z := Free)"
    using zsm_evict_ok [OF inv z(1) full, of ops d nd] run by (auto split: if_splits)
  show ?thesis
  proof (cases "zview st' = zview st")
    case True
    then show ?thesis using reach_same_view [OF r st'(1) _ st'(2)] by blast
  next
    case False
    then have v: "zview st' = (zview st)(z := Free)" using st'(3) by blast
    have "hands st' = hands st"
      by (rule hands_same [OF v]) (use full same_length [OF inv st'(1,2)] in auto)
    then show ?thesis using reach_inv_step [OF r st'(1,2) z(1) v] full H by (auto intro: zone_move.intros)
  qed
qed

lemma zsm_reach_inv:
  assumes "zsm_reach nd ops st0 st d H" "reach_inv st0 st0 {}"
  shows "reach_inv st0 st H"
  using assms
proof (induction rule: zsm_reach.induct)
  case (get_success st d H pair p st' d')
  then show ?case using reach_get [of st0 st H nd ops pair d _ "Init p" st' d'] by fastforce
next
  case (get_other st d H pair e pair' st' d')
  then show ?case using reach_get [of st0 st H nd ops pair d e pair' st' d'] by auto
next
  case (mark st d H p st')
  then have "zsm_inv st" by (simp add: reach_inv_def)
  from zsm_mark_ok [OF this mark.hyps(2)] mark show ?case using reach_same_view [of st0 st H st'] by auto
qed (auto intro: reach_ret reach_failed reach_evict)

lemma init_reach_inv:
  assumes "zsm_init n fd cap zsz csz mx be = Inr st0" "0 < unat cap div unat csz" "unat cap div unat csz < 2 ^ 32"
  shows "reach_inv st0 st0 {}" "zsm_tight st0" "length (zs_state st0) = unat n"
    "unat (zs_max_zone_chunks st0) = unat cap div unat csz" "zs_max_nr_active_zones st0 = mx"
proof -
  have s: "zsm_inv st0" "zsm_tight st0" "\<forall>z < unat n. zz_state (zone_at st0 z) = ZN_ZONE_FREE"
    "length (zs_state st0) = unat n"
    using zsm_init_ok [OF assms(2,3), of n fd zsz mx be] assms(1) by auto
  show "unat (zs_max_zone_chunks st0) = unat cap div unat csz" "zs_max_nr_active_zones st0 = mx"
    using assms(1) by (auto simp: zsm_init_def unat_div_distrib split: if_splits)
  have v: "zview st0 z = Free" if "z < length (zs_state st0)" for z
    using s(3,4) that by (simp add: zview_iff)
  then have "zviews st0 = (\<lambda>_. Free)" by (simp add: zviews_def fun_eq_iff)
  moreover have "hands st0 = {}" using v by (auto simp: hands_def held_def)
  ultimately show "reach_inv st0 st0 {}" using s(1) by (simp add: reach_inv_def zsm_life_def zone_life.start)
  show "zsm_tight st0" "length (zs_state st0) = unat n" using s by simp_all
qed

lemma zsm_reach_tight:
  assumes "zsm_reach nd ops st0 st d H" "reach_inv st0 st0 {}" "zsm_sound ops st0"
  shows "zsm_sound ops st"
  using assms
proof (induction rule: zsm_reach.induct)
  case (get_success st d H pair p st' d')
  then show ?case using get_reliable [of ops st nd pair d] by auto
next
  case (get_other st d H pair e pair' st' d')
  then show ?case using get_reliable [of ops st nd pair d] by auto
next
  case (ret st d H p r st' d')
  from zsm_reach_inv [OF ret.hyps(1) ret.prems(1)] ret(2) have "held st p" by (rule hands_move)
  with ret show ?case using ret_reliable [of ops st p nd d] by auto
next
  case (failed st d H p st')
  from zsm_reach_inv [OF failed.hyps(1) failed.prems(1)] failed(2) have "held st p" by (rule hands_move)
  with failed show ?case using failed_reliable [of ops st p nd] by auto
next
  case (evict st d H z r st' d')
  then have "z < unat (zs_num_zones st)" "zview st z = Full" using zsm_soundD(5) [of ops st] by (auto simp: zview_iff)
  with evict show ?case using evict_reliable [of ops st z nd d] by auto
next
  case (mark st d H p st')
  then have s: "zsm_sound ops st" by blast
  from zsm_mark_ok [OF zsm_soundD(1) [OF s] mark.hyps(2)] mark.hyps(3) zsm_soundD [OF s]
  show ?case by (auto simp: zsm_sound_def zsm_cfg_def)
qed

section \<open>Properties\<close>

text \<open>C15. In every state that any interleaving of callers reaches, on a device whose commands may
  fail, no two writers hold the same zone, a held zone is in neither queue and has room for the
  chunk, the number of held pairs is \<open>writes_occurring\<close>, and active zones and writers together
  stay within \<open>max_nr_active_zones\<close>.\<close>

theorem zsm_exclusive_writers:
  assumes "zsm_init n fd cap zsz csz mx be = Inr st0"
    and "0 < unat cap div unat csz" and "unat cap div unat csz < 2 ^ 32"
    and "zsm_reach nd ops st0 st d H"
  shows "inj_on zp_zone H \<and> card H = unat (zs_writes_occurring st) \<and>
    length (zs_active st) + card H \<le> unat mx \<and> distinct (zs_active st @ zs_free st) \<and>
    (\<forall>p \<in> H. unat (zp_zone p) < unat n \<and> unat (zp_chunk_offset p) < unat cap div unat csz \<and>
       unat (zp_zone p) \<notin> set (zs_active st @ zs_free st))"
proof -
  note A = init_reach_inv [OF assms(1-3)]
  have R: "reach_inv st0 st H" by (rule zsm_reach_inv [OF assms(4) A(1)])
  then have inv: "zsm_inv st" and H: "H = hands st" and cfg: "zsm_cfg st = zsm_cfg st0"
    and len: "length (zs_state st) = unat n" using A(3) by (simp_all add: reach_inv_def)
  note I = zsm_invD [OF inv] and M = hands_move [OF R] and C = zsm_cfgD [OF cfg]
  have inj: "inj_on zp_zone H"
  proof (rule inj_onI)
    fix p q assume "p \<in> H" "q \<in> H" "zp_zone p = zp_zone q"
    then show "p = q" using M(3) [of p] M(3) [of q] by (cases p; cases q) (auto simp: H hands_def)
  qed
  have img: "(\<lambda>p. unat (zp_zone p)) ` H = writers st"
  proof (intro equalityI subsetI)
    fix z assume "z \<in> writers st"
    then have z: "z < length (zs_state st)" "zview st z = Writing (unat (zz_chunk_offset (zone_at st z)))"
      "unat (zz_chunk_offset (zone_at st z)) < unat (zs_max_zone_chunks st)"
      by (auto simp: writers_def zview_iff is_writing_def)
    have "chunk_at z (unat (zz_chunk_offset (zone_at st z))) \<in> H"
      using held_chunk_at [OF inv z(1,3)] z(2) by (simp add: H hands_def) (simp add: chunk_at_def)
    then show "z \<in> (\<lambda>p. unat (zp_zone p)) ` H" using chunk_at_unat(1) [OF inv z(1,3)] by force
  qed (use heldD(5) [OF inv M(1)] in auto)
  have "inj_on (\<lambda>p. unat (zp_zone p)) H" using inj by (simp add: inj_on_def)
  from card_image [OF this] img have card: "card H = unat (zs_writes_occurring st)" using I(10) by simp
  have "z \<notin> set (zs_free st)" if "z \<in> set (zs_active st)" for z
    using that I(9) [of z] unfolding I(7) [of z] by auto
  then have "distinct (zs_active st @ zs_free st)" using I(4,5) by auto
  moreover have "unat (zp_zone p) \<notin> set (zs_active st @ zs_free st)" if "p \<in> H" for p
    using heldD(6,7) [OF inv M(1) [OF that]] by simp
  ultimately show ?thesis using inj card I(11) M(2,4) A(4,5) C(5,6) len by auto
qed

text \<open>A small device: two zones of two chunks, one of which may be active; a writer takes the first
  chunk, gives it back, and takes the second.\<close>

definition sample_zsm :: zone_state_manager where
  "sample_zsm = \<lparr>zs_active = [], zs_free = [0, 1],
     zs_state = [\<lparr>zz_state = ZN_ZONE_FREE, zz_zone_id = 0, zz_chunk_offset = 0, zz_invalid = []\<rparr>,
                 \<lparr>zz_state = ZN_ZONE_FREE, zz_zone_id = 1, zz_chunk_offset = 0, zz_invalid = []\<rparr>],
     zs_writes_occurring = 0, zs_fd = 3, zs_zone_cap = 8192, zs_zone_size = 8192, zs_chunk_size = 4096,
     zs_max_nr_active_zones = 1, zs_max_zone_chunks = 2, zs_num_zones = 2, zs_backend_type = ZE_BACKEND_ZNS\<rparr>"

lemma sample_zsm_init: "zsm_init 2 3 8192 8192 4096 1 ZE_BACKEND_ZNS = Inr sample_zsm"
  by (simp add: zsm_init_def sample_zsm_def upt_rec)

definition sample_zsm_writing :: "u32 \<Rightarrow> zone_state_manager" where
  "sample_zsm_writing c = sample_zsm\<lparr>zs_free := [1], zs_writes_occurring := 1,
     zs_state := [\<lparr>zz_state = ZN_ZONE_WRITE_OCCURING, zz_zone_id = 0, zz_chunk_offset = c, zz_invalid = []\<rparr>,
                  \<lparr>zz_state = ZN_ZONE_FREE, zz_zone_id = 1, zz_chunk_offset = 0, zz_invalid = []\<rparr>]\<rparr>"

lemma sample_zsm_reach:
  "\<exists>d. zsm_reach False ram_ops sample_zsm (sample_zsm_writing 1) d {chunk_at 0 1}"
proof -
  define st1 where "st1 = (sample_zsm_writing 0)\<lparr>zs_writes_occurring := 0, zs_active := [0],
     zs_state := [\<lparr>zz_state = ZN_ZONE_ACTIVE, zz_zone_id = 0, zz_chunk_offset = 1, zz_invalid = []\<rparr>,
                  \<lparr>zz_state = ZN_ZONE_FREE, zz_zone_id = 1, zz_chunk_offset = 0, zz_invalid = []\<rparr>]\<rparr>"
  note ev = sample_zsm_def sample_zsm_writing_def chunk_at_def st1_def Let_def set_zone_def
  have g1: "zsm_get_active_zone False ram_ops Indet sample_zsm d =
      Inr (ZSM_GET_ACTIVE_ZONE_SUCCESS, Init (chunk_at 0 0), sample_zsm_writing 0, d)" for d
    by (simp add: zsm_get_active_zone_def open_zone_def take_active_zone_def ram_ops_def ev)
  have r1: "zsm_return_active_zone False ram_ops (chunk_at 0 0) (sample_zsm_writing 0) d = Inr (0, st1, d)" for d
    by (simp add: zsm_return_active_zone_def ev)
  have g2: "zsm_get_active_zone False ram_ops Indet st1 d =
      Inr (ZSM_GET_ACTIVE_ZONE_SUCCESS, Init (chunk_at 0 1), sample_zsm_writing 1, d)" for d
    by (simp add: zsm_get_active_zone_def take_active_zone_def ev)
  have "zsm_reach False ram_ops sample_zsm (sample_zsm_writing 0) (\<lambda>_. 0) {chunk_at 0 0}"
    by (rule zsm_reach.get_success [OF zsm_reach.init g1])
  from zsm_reach.ret [OF this _ r1] have "zsm_reach False ram_ops sample_zsm st1 (\<lambda>_. 0) {}" by simp
  from zsm_reach.get_success [OF this g2] show ?thesis by blast
qed

theorem zsm_exclusive_writers_witness:
  "card {chunk_at 0 1} = unat (zs_writes_occurring (sample_zsm_writing 1)) \<and>
   distinct (zs_active (sample_zsm_writing 1) @ zs_free (sample_zsm_writing 1))"
proof -
  obtain d where "zsm_reach False ram_ops sample_zsm (sample_zsm_writing 1) d {chunk_at 0 1}"
    using sample_zsm_reach by blast
  from zsm_exclusive_writers [OF sample_zsm_init _ _ this] show ?thesis by simp
qed



text \<open>C16. On a device whose zone commands succeed, no call in any interleaving faults or fails an
  assertion: \<open>zsm_get_active_zone\<close> returns success, retry (only while some writer holds a zone) or
  evict (only when every zone is full), and returning, giving up and evicting succeed.\<close>

theorem zsm_calls_succeed:
  assumes "zsm_init n fd cap zsz csz mx be = Inr st0"
    and "0 < unat cap div unat csz" and "unat cap div unat csz < 2 ^ 32" and "0 < mx"
    and "zbd_reliable ops" and "zsm_reach nd ops st0 st d H"
  shows "(\<exists>e p st' d'. zsm_get_active_zone nd ops pair st d = Inr (e, p, st', d') \<and>
      (e = ZSM_GET_ACTIVE_ZONE_SUCCESS \<or> e = ZSM_GET_ACTIVE_ZONE_RETRY \<and> H \<noteq> {} \<or>
       e = ZSM_GET_ACTIVE_ZONE_EVICT \<and> (\<forall>z < unat n. zz_state (zone_at st z) = ZN_ZONE_FULL))) \<and>
    (\<forall>p \<in> H. (\<exists>st' d'. zsm_return_active_zone nd ops p st d = Inr (0, st', d')) \<and>
       (\<exists>st'. zsm_failed_to_write nd p st = Inr st')) \<and>
    (\<forall>z < unat n. zz_state (zone_at st z) = ZN_ZONE_FULL \<longrightarrow>
       (\<exists>st' d'. zsm_evict nd ops (int z) st d = Inr (0, st', d')))"
proof -
  note A = init_reach_inv [OF assms(1-3)]
  have R: "reach_inv st0 st H" by (rule zsm_reach_inv [OF assms(6) A(1)])
  have "zsm_sound ops st0" using A(1,2,5) assms(4,5) by (simp add: zsm_sound_def reach_inv_def)
  from zsm_reach_tight [OF assms(6) A(1) this] have s: "zsm_sound ops st" .
  note S = zsm_soundD [OF s]
  have n: "unat (zs_num_zones st) = unat n" "length (zs_state st) = unat n"
    using S(5) R A(3) by (simp_all add: reach_inv_def)
  have "H \<noteq> {}" if z: "z < unat n" "zview st z = Writing c" for z c
  proof -
    have "c < unat (zs_max_zone_chunks st)" using z(2) by (auto simp: zview_iff is_writing_def)
    with z n have "held st (chunk_at z c)" by (simp add: held_chunk_at [OF S(1)])
    then have "chunk_at z c \<in> H" using R by (simp add: reach_inv_def hands_def) (simp add: chunk_at_def)
    then show ?thesis by blast
  qed
  moreover have "\<exists>st' d'. zsm_evict nd ops (int z) st d = Inr (0, st', d')"
    if "z < unat n" "zz_state (zone_at st z) = ZN_ZONE_FULL" for z
    using evict_reliable [OF s, of z nd d] that n by (auto simp: zview_iff)
  moreover have "(\<exists>st' d'. zsm_return_active_zone nd ops p st d = Inr (0, st', d')) \<and>
       (\<exists>st'. zsm_failed_to_write nd p st = Inr st')" if "p \<in> H" for p
    using ret_reliable [OF s hands_move(1) [OF R that], of nd d]
      failed_reliable [OF s hands_move(1) [OF R that], of nd] by blast
  ultimately show ?thesis
    using get_reliable [OF s, of nd pair d] n by (simp add: zview_iff) blast
qed

theorem zsm_calls_succeed_witness:
  "\<exists>d st' d'. zsm_return_active_zone False ram_ops (chunk_at 0 1) (sample_zsm_writing 1) d = Inr (0, st', d')"
proof -
  obtain d where r: "zsm_reach False ram_ops sample_zsm (sample_zsm_writing 1) d {chunk_at 0 1}"
    using sample_zsm_reach by blast
  have "zbd_reliable ram_ops" by (simp add: zbd_reliable_def ram_ops_def)
  from zsm_calls_succeed [OF sample_zsm_init _ _ _ this r, of Indet] show ?thesis by auto
qed

section \<open>Device failures\<close>

text \<open>
  What the source does when a zone command fails. A zone that cannot be opened leaves the free
  queue for good; a zone that cannot be finished keeps the condition \<open>ZN_ZONE_WRITE_OCCURING\<close> and
  is counted no more; a failed reset is reported as success.
\<close>

text \<open>C37. When opening a zone fails (assertions off), \<open>zsm_get_active_zone\<close> returns the error after it has
  taken the zone from the free queue and puts it into no queue: the zone is lost.\<close>

theorem open_failure_loses_zone:
  assumes "zsm_inv st" "zs_active st = []" "zs_free st = z # rest" "zs_backend_type st = ZE_BACKEND_ZNS"
    "zs_writes_occurring st < zs_max_nr_active_zones st"
    "\<And>off. fst (zbd_open_zones ops (zs_fd st) off 1 d) \<noteq> 0"
  shows "\<exists>d'. zsm_get_active_zone True ops pair st d =
    Inr (ZSM_GET_ACTIVE_ZONE_ERROR, pair, st\<lparr>zs_free := rest\<rparr>, d')"
  using assms(1)
proof (cases rule: zsm_get_cases [where nd = True and ops = ops and pair = pair and d = d])
  case (success z' c st' d')
  have "open_zone True ops z (st\<lparr>zs_free := rest\<rparr>) d \<noteq> Inr (0, st1, d1)" for st1 d1
    using assms(2,4,5) assms(6) [of "CHUNK_POINTER (zs_zone_size st) (zs_chunk_size st) 0 (zz_zone_id (zone_at st z))"]
    by (auto simp: open_zone_def Let_def split: prod.split)
  moreover obtain r st1 d1 where "open_zone True ops z (st\<lparr>zs_free := rest\<rparr>) d = Inr (r, st1, d1)"
    using open_zone_ok [OF assms(1,3), of True ops d] assms(2,5) by (auto simp: word_less_nat_alt)
  ultimately show ?thesis
    using get_from_free [OF assms(1-3,5), of True ops d r st1 d1 pair] success(1) by (cases "r = 0") auto
qed (use assms in \<open>auto simp: word_less_nat_alt\<close>)

theorem open_failure_loses_zone_witness:
  "\<exists>d'. zsm_get_active_zone True (ram_ops\<lparr>zbd_open_zones := \<lambda>_ _ _ d. (-1, d)\<rparr>) Indet sample_zsm (\<lambda>_. 0) =
    Inr (ZSM_GET_ACTIVE_ZONE_ERROR, Indet, sample_zsm\<lparr>zs_free := [1]\<rparr>, d')"
proof -
  have "zsm_inv sample_zsm"
    using zsm_init_ok [of 8192 4096 2 3 8192 1 ZE_BACKEND_ZNS] sample_zsm_init by simp
  then show ?thesis by (rule open_failure_loses_zone) (simp_all add: sample_zsm_def)
qed

text \<open>C38. When resetting a zone fails (assertions off), \<open>zsm_evict\<close> reports success although the zone is
  still full and not in the free queue.\<close>

theorem evict_failure_reports_success:
  assumes "zsm_inv st" "z < length (zs_state st)" "zz_state (zone_at st z) = ZN_ZONE_FULL"
    "zs_backend_type st = ZE_BACKEND_ZNS"
    "\<And>off. fst (zbd_reset_zones ops (zs_fd st) off (zs_zone_cap st) d) \<noteq> 0"
  shows "\<exists>st' d'. zsm_evict True ops (int z) st d = Inr (0, st', d') \<and> zview st' = zview st \<and>
    zs_free st' = zs_free st"
proof -
  have "zview st z = Full" using assms(3) by (simp add: zview_iff)
  from zsm_evict_ok [OF assms(1,2) this, of ops d True] show ?thesis
    using assms(4) assms(5) [of "CHUNK_POINTER (zs_zone_size st) (zs_chunk_size st) 0 (of_nat z)"] by auto
qed

definition sample_zsm_full :: zone_state_manager where
  "sample_zsm_full = sample_zsm\<lparr>zs_free := [1],
     zs_state := [\<lparr>zz_state = ZN_ZONE_FULL, zz_zone_id = 0, zz_chunk_offset = 0, zz_invalid = []\<rparr>,
                  \<lparr>zz_state = ZN_ZONE_FREE, zz_zone_id = 1, zz_chunk_offset = 0, zz_invalid = []\<rparr>]\<rparr>"

theorem evict_failure_reports_success_witness:
  "\<exists>st' d'. zsm_evict True (ram_ops\<lparr>zbd_reset_zones := \<lambda>_ _ _ d. (-1, d)\<rparr>) 0 sample_zsm_full (\<lambda>_. 0) = Inr (0, st', d') \<and>
    zview st' = zview sample_zsm_full \<and> zs_free st' = [1]"
proof -
  have "zsm_inv sample_zsm_full"
    by (auto simp: zsm_inv_def sample_zsm_full_def sample_zsm_def writers_def is_writing_def zone_fine_def less_Suc_eq
        nth_Cons split: nat.splits)
  from evict_failure_reports_success [OF this, of 0 "ram_ops\<lparr>zbd_reset_zones := \<lambda>_ _ _ d. (-1, d)\<rparr>" "\<lambda>_. 0"]
  show ?thesis by (simp add: sample_zsm_full_def sample_zsm_def)
qed

end
