(* ===== verification/ZN_Core.thy ===== *)
theory ZN_Core
  imports ZN_Disk ZN_Cachemap ZN_Zone_State
begin

text \<open>
  The state of the cache apart from its eviction policy: \<open>struct zn_cache\<close>, \<open>struct zn_reader\<close> and
  \<open>struct zn_cache_hitratio\<close> of \<open>include/zncache.h\<close>. The policies reach this part through their
  \<open>cache\<close> pointer, so it is a record of its own, which \<open>ZN_Cache\<close> extends by the policy. The array
  \<open>active_readers\<close> is shared by the cache and the cache map; its one copy is the field
  \<open>cm_active_readers\<close> of the cache map.
\<close>

record zn_reader =
  rd_workload_index :: u64
  rd_workload_buffer :: "u32 list"
  rd_workload_max :: u64
  rd_thresh_perc :: u64

record zn_cache_hitratio =
  hr_hits :: u64
  hr_misses :: u64

record zn_core =
  zc_backend :: zn_backend
  zc_fd :: int
  zc_max_nr_active_zones :: u32
  zc_nr_zones :: u32
  zc_max_zone_chunks :: u64
  zc_chunk_sz :: u64
  zc_zone_cap :: u64
  zc_zone_size :: u64
  zc_io_size :: u64
  zc_cache_map :: zn_cachemap
  zc_zone_state :: zone_state_manager
  zc_reader :: zn_reader
  zc_ratio :: zn_cache_hitratio

end
