(* ===== verification/ZN_Promotional.thy ===== *)
theory ZN_Promotional
  imports ZN_Backend ZN_Glib
begin

text \<open>
  The promotional zone policy of \<open>src/eviction/promotional.c\<close>: full zones in a queue ordered by
  last use, with a table from zones to their links so that a read moves its zone to the tail in
  constant time. Both functions hold \<open>policy_mutex\<close>; eviction only tries the lock, and whether it
  gets it is an argument.
\<close>

section \<open>Data and operations\<close>

text \<open>The table's values are links or \<open>NULL\<close> (\<open>None\<close>).\<close>

record zn_policy_promotional =
  pp_lru_queue :: "u64 gqueue"
  pp_zone_to_lru_map :: "u64 \<rightharpoonup> ptr option"
  pp_zone_max_chunks :: u32

definition zn_policy_promotional_update :: "zn_pair \<Rightarrow> zn_io_type \<Rightarrow> zn_policy_promotional \<Rightarrow>
    zn_policy_promotional res" where
  "zn_policy_promotional_update location io_type policy =
     (let zone_ptr = GUINT_TO_POINTER (zp_zone location) in
      if io_type = ZN_WRITE \<and> zp_chunk_offset location = pp_zone_max_chunks policy - 1 then
        let q = g_queue_push_tail zone_ptr (pp_lru_queue policy) in
        Inr (policy\<lparr>pp_lru_queue := q,
          pp_zone_to_lru_map := (pp_zone_to_lru_map policy)(zone_ptr \<mapsto> g_queue_peek_tail_link q)\<rparr>)
      else if io_type = ZN_READ then
        (case g_hash_table_lookup (pp_zone_to_lru_map policy) zone_ptr of
           None \<Rightarrow> Inr policy
         | Some node \<Rightarrow>
             bind_res (node_data (pp_lru_queue policy) node) (\<lambda>data.
             bind_res (g_queue_delete_link node (pp_lru_queue policy)) (\<lambda>q1.
               let q2 = g_queue_push_tail data q1 in
               Inr (policy\<lparr>pp_lru_queue := q2,
                 pp_zone_to_lru_map := (pp_zone_to_lru_map policy)(zone_ptr \<mapsto> g_queue_peek_tail_link q2)\<rparr>))))
      else Inr policy)"

definition zn_policy_promotional_get_zone_to_evict :: "bool \<Rightarrow> zn_policy_promotional \<Rightarrow> int \<times> zn_policy_promotional" where
  "zn_policy_promotional_get_zone_to_evict locked_by_us policy =
     (if \<not> locked_by_us then (-1, policy)
      else if gq_nodes (pp_lru_queue policy) = [] then (-1, policy)
      else
        let (data, q) = g_queue_pop_head (pp_lru_queue policy);
            zone_id = GPOINTER_TO_UINT (case data of None \<Rightarrow> 0 | Some x \<Rightarrow> x) in
        (sint zone_id, policy\<lparr>pp_lru_queue := q,
           pp_zone_to_lru_map := (pp_zone_to_lru_map policy)(GUINT_TO_POINTER zone_id \<mapsto> None)\<rparr>))"

text \<open>The policy's part of \<open>zn_evict_policy_init\<close> (\<open>src/eviction_policy.c\<close>).\<close>

definition promotional_init :: "u64 \<Rightarrow> zn_policy_promotional" where
  "promotional_init max_zone_chunks = \<lparr>pp_lru_queue = g_queue_init, pp_zone_to_lru_map = Map.empty,
     pp_zone_max_chunks = ucast max_zone_chunks\<rparr>"

section \<open>Invariant\<close>

definition prom_inv :: "zn_policy_promotional \<Rightarrow> bool" where
  "prom_inv p \<longleftrightarrow> lru_ok (pp_lru_queue p) (pp_zone_to_lru_map p) \<and>
     (\<forall>k \<in> set (gq_data (pp_lru_queue p)). \<exists>z. k = GUINT_TO_POINTER z)"

text \<open>The queue as the list of its zones, least recently used first.\<close>

definition prom_order :: "zn_policy_promotional \<Rightarrow> u32 list" where
  "prom_order p = map GPOINTER_TO_UINT (gq_data (pp_lru_queue p))"

lemma prom_invD:
  assumes "prom_inv p"
  shows "lru_ok (pp_lru_queue p) (pp_zone_to_lru_map p)"
    "k \<in> set (gq_data (pp_lru_queue p)) \<Longrightarrow> \<exists>z. k = GUINT_TO_POINTER z"
  using assms unfolding prom_inv_def by blast+

lemma prom_init_ok [simp]: "prom_inv (promotional_init mx)" "prom_order (promotional_init mx) = []"
  by (simp_all add: prom_inv_def lru_ok_def promotional_init_def gq_data_def g_hash_table_lookup_def prom_order_def)

lemma prom_order_mem:
  assumes "prom_inv p"
  shows "z \<in> set (prom_order p) \<longleftrightarrow> GUINT_TO_POINTER z \<in> set (gq_data (pp_lru_queue p))"
  using prom_invD(2) [OF assms] by (force simp: prom_order_def)

lemma prom_order_distinct:
  assumes "prom_inv p"
  shows "distinct (prom_order p)"
  unfolding prom_order_def distinct_map
proof (intro conjI inj_onI lru_okD(2) [OF prom_invD(1) [OF assms]])
  fix x y assume "x \<in> set (gq_data (pp_lru_queue p))" "y \<in> set (gq_data (pp_lru_queue p))"
    "GPOINTER_TO_UINT x = GPOINTER_TO_UINT y"
  then show "x = y" using prom_invD(2) [OF assms, of x] prom_invD(2) [OF assms, of y] by auto
qed

section \<open>Laws\<close>

definition touch :: "'a \<Rightarrow> 'a list \<Rightarrow> 'a list" where
  "touch z xs = (if z \<in> set xs then filter (\<lambda>x. x \<noteq> z) xs @ [z] else xs)"

lemma prom_fill_ok:
  assumes "prom_inv p" "zp_chunk_offset loc = pp_zone_max_chunks p - 1" "zp_zone loc \<notin> set (prom_order p)"
  shows "\<exists>p'. zn_policy_promotional_update loc ZN_WRITE p = Inr p' \<and> prom_inv p' \<and>
    prom_order p' = prom_order p @ [zp_zone loc] \<and> pp_zone_max_chunks p' = pp_zone_max_chunks p"
proof -
  have "GUINT_TO_POINTER (zp_zone loc) \<notin> set (gq_data (pp_lru_queue p))"
    using assms(3) prom_order_mem [OF assms(1)] by blast
  note lru_push [OF prom_invD(1) [OF assms(1)] this]
  then show ?thesis using assms(2) prom_invD(2) [OF assms(1)]
    by (auto simp: zn_policy_promotional_update_def Let_def prom_inv_def prom_order_def)
qed

lemma prom_write_ok:
  assumes "zp_chunk_offset loc \<noteq> pp_zone_max_chunks p - 1"
  shows "zn_policy_promotional_update loc ZN_WRITE p = Inr p"
  using assms by (simp add: zn_policy_promotional_update_def Let_def)

lemma prom_read_ok:
  assumes inv: "prom_inv p"
  shows "\<exists>p'. zn_policy_promotional_update loc ZN_READ p = Inr p' \<and> prom_inv p' \<and>
    prom_order p' = touch (zp_zone loc) (prom_order p) \<and> pp_zone_max_chunks p' = pp_zone_max_chunks p"
proof (cases "g_hash_table_lookup (pp_zone_to_lru_map p) (GUINT_TO_POINTER (zp_zone loc))")
  case None
  then have "zp_zone loc \<notin> set (prom_order p)"
    using lru_lookup_None [OF prom_invD(1) [OF inv]] prom_order_mem [OF inv] by simp
  with None inv show ?thesis by (simp add: zn_policy_promotional_update_def Let_def touch_def)
next
  case (Some n)
  let ?k = "GUINT_TO_POINTER (zp_zone loc)"
  note I = prom_invD [OF inv]
  obtain q1 where q1: "node_data (pp_lru_queue p) n = Inr ?k" "g_queue_delete_link n (pp_lru_queue p) = Inr q1"
    "lru_ok (g_queue_push_tail ?k q1)
       ((pp_zone_to_lru_map p)(?k \<mapsto> g_queue_peek_tail_link (g_queue_push_tail ?k q1)))"
    "gq_data (g_queue_push_tail ?k q1) = filter (\<lambda>y. y \<noteq> ?k) (gq_data (pp_lru_queue p)) @ [?k]"
    using lru_use [OF I(1) Some] by blast
  have "GPOINTER_TO_UINT k = zp_zone loc \<longleftrightarrow> k = ?k" if "k \<in> set (gq_data (pp_lru_queue p))" for k
    using I(2) [OF that] by auto
  then have "filter (\<lambda>x. x \<noteq> zp_zone loc) (prom_order p) =
      map GPOINTER_TO_UINT (filter (\<lambda>y. y \<noteq> ?k) (gq_data (pp_lru_queue p)))"
    by (simp add: prom_order_def filter_map o_def cong: filter_cong)
  moreover have "zp_zone loc \<in> set (prom_order p)"
    using Some lru_lookup_None [OF I(1), of ?k] prom_order_mem [OF inv] by simp
  ultimately show ?thesis using Some q1 I(2)
    by (auto simp: zn_policy_promotional_update_def Let_def touch_def prom_inv_def prom_order_def)
qed

lemma prom_evict_empty:
  assumes "prom_order p = [] \<or> \<not> got"
  shows "zn_policy_promotional_get_zone_to_evict got p = (-1, p)"
  using assms by (auto simp: zn_policy_promotional_get_zone_to_evict_def prom_order_def gq_data_def)

lemma prom_evict_ok:
  assumes inv: "prom_inv p" and ord: "prom_order p = z # rest"
  shows "\<exists>p'. zn_policy_promotional_get_zone_to_evict True p = (sint z, p') \<and> prom_inv p' \<and>
    prom_order p' = rest \<and> pp_zone_max_chunks p' = pp_zone_max_chunks p"
proof -
  note I = prom_invD [OF inv]
  obtain k ks where k: "gq_data (pp_lru_queue p) = k # ks" "GPOINTER_TO_UINT k = z" "map GPOINTER_TO_UINT ks = rest"
    using ord by (auto simp: prom_order_def)
  have kz: "k = GUINT_TO_POINTER z" using I(2) [of k] k by auto
  obtain q' where "g_queue_pop_head (pp_lru_queue p) = (Some k, q')"
    "lru_ok q' ((pp_zone_to_lru_map p)(k \<mapsto> None))" "gq_data q' = ks" using lru_pop [OF I(1) k(1)] by blast
  moreover have "gq_nodes (pp_lru_queue p) \<noteq> []" using k(1) by (auto simp: gq_data_def)
  moreover have "\<exists>z. x = GUINT_TO_POINTER z" if "x \<in> set ks" for x using I(2) [of x] k(1) that by simp
  ultimately show ?thesis using k kz
    by (auto simp: zn_policy_promotional_get_zone_to_evict_def prom_inv_def prom_order_def)
qed

lemma remdups_snoc: "remdups (h @ [z]) = filter (\<lambda>x. x \<noteq> z) (remdups h) @ [z]"
  by (induction h) auto

lemma remdups_snoc_new: "z \<notin> set h \<Longrightarrow> remdups (h @ [z]) = remdups h @ [z]"
  by (auto simp: remdups_snoc intro: filter_True)

section \<open>The interface\<close>

text \<open>
  A policy over whole zones, as the cache uses it: an order of the evictable zones, to which a
  filled zone is appended, in which a read zone is moved last, and whose first element is the next
  victim.
\<close>

locale zone_policy =
  fixes inv :: "'s \<Rightarrow> bool"
    and order :: "'s \<Rightarrow> u32 list"
    and last_chunk :: "'s \<Rightarrow> u32"
    and update :: "zn_pair \<Rightarrow> zn_io_type \<Rightarrow> 's \<Rightarrow> 's res"
    and victim :: "bool \<Rightarrow> 's \<Rightarrow> int \<times> 's"
  assumes order_distinct: "inv s \<Longrightarrow> distinct (order s)"
    and update_read: "inv s \<Longrightarrow> \<exists>s'. update p ZN_READ s = Inr s' \<and> inv s' \<and>
      order s' = touch (zp_zone p) (order s) \<and> last_chunk s' = last_chunk s"
    and update_fill: "inv s \<Longrightarrow> zp_chunk_offset p = last_chunk s \<Longrightarrow> zp_zone p \<notin> set (order s) \<Longrightarrow>
      \<exists>s'. update p ZN_WRITE s = Inr s' \<and> inv s' \<and> order s' = order s @ [zp_zone p] \<and> last_chunk s' = last_chunk s"
    and update_write: "inv s \<Longrightarrow> zp_chunk_offset p \<noteq> last_chunk s \<Longrightarrow> update p ZN_WRITE s = Inr s"
    and victim_none: "order s = [] \<or> \<not> got \<Longrightarrow> victim got s = (-1, s)"
    and victim_head: "inv s \<Longrightarrow> order s = z # rest \<Longrightarrow>
      \<exists>s'. victim True s = (sint z, s') \<and> inv s' \<and> order s' = rest \<and> last_chunk s' = last_chunk s"
begin

text \<open>
  The order is always the order of last use: if it is \<open>remdups\<close> of the uses so far (which keeps the
  last occurrence of each zone), it stays so.
\<close>

lemma read_history:
  assumes "inv s" "order s = remdups h"
  shows "\<exists>s'. update p ZN_READ s = Inr s' \<and> inv s' \<and> last_chunk s' = last_chunk s \<and>
    order s' = remdups (if zp_zone p \<in> set h then h @ [zp_zone p] else h)"
  using update_read [OF assms(1), of p] assms(2) by (auto simp: touch_def remdups_snoc)

lemma fill_history:
  assumes "inv s" "order s = remdups h" "zp_chunk_offset p = last_chunk s" "zp_zone p \<notin> set h"
  shows "\<exists>s'. update p ZN_WRITE s = Inr s' \<and> inv s' \<and> last_chunk s' = last_chunk s \<and>
    order s' = remdups (h @ [zp_zone p])"
  using update_fill [OF assms(1,3)] assms(2,4) by (auto simp: remdups_snoc_new)

lemma victim_history:
  assumes "inv s" "order s = remdups h" "remdups h = z # rest"
  shows "\<exists>s'. victim True s = (sint z, s') \<and> inv s' \<and> last_chunk s' = last_chunk s \<and>
    order s' = remdups (filter (\<lambda>x. x \<noteq> z) h)"
proof -
  have "z \<notin> set rest" using order_distinct [OF assms(1)] assms(2,3) by simp
  then have "filter (\<lambda>x. x \<noteq> z) (remdups h) = rest" unfolding assms(3) by (auto intro: filter_True)
  then have "remdups (filter (\<lambda>x. x \<noteq> z) h) = rest" by (simp add: remdups_filter)
  with victim_head [OF assms(1), of z rest] assms(2,3) show ?thesis by auto
qed

end

interpretation pp: zone_policy prom_inv prom_order "\<lambda>p. pp_zone_max_chunks p - 1"
  zn_policy_promotional_update zn_policy_promotional_get_zone_to_evict
  by unfold_locales
    (auto intro: prom_order_distinct prom_write_ok prom_evict_empty
      dest: prom_read_ok prom_fill_ok prom_evict_ok)

section \<open>Runs\<close>

datatype policy_event = Access zn_pair zn_io_type | Evict bool

fun prom_run :: "policy_event list \<Rightarrow> zn_policy_promotional \<Rightarrow> (int list \<times> zn_policy_promotional) res" where
  "prom_run [] p = Inr ([], p)"
| "prom_run (Access loc io # es) p = bind_res (zn_policy_promotional_update loc io p) (prom_run es)"
| "prom_run (Evict got # es) p =
     (let (v, p1) = zn_policy_promotional_get_zone_to_evict got p in
      bind_res (prom_run es p1) (\<lambda>(vs, p2). Inr (v # vs, p2)))"

text \<open>
  The contract, over the history of uses of the evictable zones: filling a zone and reading an
  evictable zone are uses; the victim is the zone whose last use is oldest, and is forgotten.
\<close>

fun lru_spec :: "u32 \<Rightarrow> policy_event list \<Rightarrow> u32 list \<Rightarrow> int list \<times> u32 list" where
  "lru_spec last_chunk [] h = ([], h)"
| "lru_spec last_chunk (Access loc ZN_WRITE # es) h =
     lru_spec last_chunk es (if zp_chunk_offset loc = last_chunk then h @ [zp_zone loc] else h)"
| "lru_spec last_chunk (Access loc ZN_READ # es) h =
     lru_spec last_chunk es (if zp_zone loc \<in> set h then h @ [zp_zone loc] else h)"
| "lru_spec last_chunk (Evict got # es) h =
     (case (if got then remdups h else []) of
        [] \<Rightarrow> (let (vs, h') = lru_spec last_chunk es h in (-1 # vs, h'))
      | z # _ \<Rightarrow> (let (vs, h') = lru_spec last_chunk es (filter (\<lambda>x. x \<noteq> z) h) in (sint z # vs, h')))"

text \<open>A zone is filled only while it is not evictable (it has to be emptied first).\<close>

fun lru_legal :: "u32 \<Rightarrow> policy_event list \<Rightarrow> u32 list \<Rightarrow> bool" where
  "lru_legal last_chunk [] h = True"
| "lru_legal last_chunk (Access loc ZN_WRITE # es) h =
     (if zp_chunk_offset loc = last_chunk
      then zp_zone loc \<notin> set h \<and> lru_legal last_chunk es (h @ [zp_zone loc]) else lru_legal last_chunk es h)"
| "lru_legal last_chunk (Access loc ZN_READ # es) h =
     lru_legal last_chunk es (if zp_zone loc \<in> set h then h @ [zp_zone loc] else h)"
| "lru_legal last_chunk (Evict got # es) h =
     (case (if got then remdups h else []) of
        [] \<Rightarrow> lru_legal last_chunk es h
      | z # _ \<Rightarrow> lru_legal last_chunk es (filter (\<lambda>x. x \<noteq> z) h))"

lemma prom_run_spec:
  "lru_legal lc es h \<Longrightarrow> prom_inv p \<Longrightarrow> pp_zone_max_chunks p - 1 = lc \<Longrightarrow> prom_order p = remdups h \<Longrightarrow>
   \<exists>p'. prom_run es p = Inr (fst (lru_spec lc es h), p') \<and> prom_inv p' \<and>
     prom_order p' = remdups (snd (lru_spec lc es h))"
proof (induction lc es h arbitrary: p rule: lru_spec.induct)
  case (2 lc loc es h)
  show ?case
  proof (cases "zp_chunk_offset loc = lc")
    case True
    then obtain p' where "zn_policy_promotional_update loc ZN_WRITE p = Inr p'" "prom_inv p'"
      "pp_zone_max_chunks p' - 1 = lc" "prom_order p' = remdups (h @ [zp_zone loc])"
      using pp.fill_history [of p h loc] 2(2-) by auto
    with True 2(1) [of p'] 2(2) show ?thesis by simp
  next
    case False
    then show ?thesis using 2 prom_write_ok [of loc p] by simp
  qed
next
  case (3 lc loc es h)
  obtain p' where "zn_policy_promotional_update loc ZN_READ p = Inr p'" "prom_inv p'"
      "pp_zone_max_chunks p' - 1 = lc" "prom_order p' = remdups (if zp_zone loc \<in> set h then h @ [zp_zone loc] else h)"
    using pp.read_history [OF 3(3,5), of loc] 3(4) by auto
  with 3(1) [of p'] 3(2) show ?case by simp
next
  case (4 lc got es h)
  show ?case
  proof (cases "if got then remdups h else []")
    case Nil
    then have "prom_order p = [] \<or> \<not> got" using 4(6) by (auto split: if_splits)
    then show ?thesis using 4(1) [OF Nil, of p] 4(3-) Nil prom_evict_empty [of p got]
      by (auto split: prod.splits)
  next
    case (Cons z rest)
    then have got: "got" "remdups h = z # rest" by (auto split: if_splits)
    obtain p' where "zn_policy_promotional_get_zone_to_evict True p = (sint z, p')" "prom_inv p'"
      "pp_zone_max_chunks p' - 1 = lc" "prom_order p' = remdups (filter (\<lambda>x. x \<noteq> z) h)"
      using pp.victim_history [OF 4(4,6) got(2)] 4(5) by auto
    then show ?thesis using 4(2) [OF Cons, of p'] 4(3) got by (auto split: prod.splits)
  qed
qed simp

section \<open>Properties\<close>

text \<open>C18. The promotional policy is exactly least-recently-used eviction: from the initial state, any
  sequence of accesses and evictions in which a zone is filled only while it is not evictable runs
  without fault (no stale link is ever followed), every eviction names the zone whose last use is
  oldest, or -1 when there is none or the lock is taken, and the queue remains the zones ordered by
  last use.\<close>

theorem promotional_is_lru:
  assumes "lru_legal (ucast mx - 1) es []"
  shows "\<exists>p'. prom_run es (promotional_init mx) = Inr (fst (lru_spec (ucast mx - 1) es []), p') \<and>
    prom_order p' = remdups (snd (lru_spec (ucast mx - 1) es []))"
  using prom_run_spec [OF assms prom_init_ok(1)] by (auto simp: promotional_init_def prom_order_def gq_data_def)

theorem promotional_is_lru_witness:
  "\<exists>p'. prom_run [Access (pair_at 5 0) ZN_WRITE, Access (pair_at 5 1) ZN_WRITE, Access (pair_at 6 1) ZN_WRITE,
      Access (pair_at 5 0) ZN_READ, Evict False, Evict True, Access (pair_at 6 0) ZN_READ, Evict True, Evict True]
      (promotional_init 2) = Inr ([-1, 6, 5, -1], p')"
  using promotional_is_lru [of 2 "[Access (pair_at 5 0) ZN_WRITE, Access (pair_at 5 1) ZN_WRITE, Access (pair_at 6 1) ZN_WRITE,
      Access (pair_at 5 0) ZN_READ, Evict False, Evict True, Access (pair_at 6 0) ZN_READ, Evict True, Evict True]"]
  by (auto simp: pair_at_def)

end
