(* ===== verification/ZN_Minheap.thy ===== *)
theory ZN_Minheap
  imports ZN_Prelude
begin

text \<open>
  The array-backed min-heap of \<open>src/minheap.c\<close>. The heap array holds pointers to malloc'ed
  entries and every entry carries its own position, so that a client can keep the pointer and
  change the priority later. The model keeps that aliasing: \<open>mh_arr\<close> holds addresses and
  \<open>mh_ents\<close> is the memory behind them; an entry handed out by \<open>zn_minheap_extract_min\<close> stays
  allocated, as in the code.
\<close>

section \<open>Data and operations\<close>

record 'd zn_minheap_entry =
  e_data :: 'd
  e_priority :: u32
  e_index :: u32

text \<open>
  \<open>mh_arr\<close> has \<open>capacity\<close> slots, \<open>None\<close> being a slot never written. \<open>mh_ents\<close> and
  \<open>mh_next\<close> are the allocator's view of the entries: the live ones and the next fresh address.
\<close>

record 'd zn_minheap =
  mh_arr :: "ptr option list"
  mh_size :: u32
  mh_capacity :: u32
  mh_ents :: "ptr \<rightharpoonup> 'd zn_minheap_entry"
  mh_next :: ptr

definition minheap_realloc :: "'d zn_minheap \<Rightarrow> 'd zn_minheap" where
  "minheap_realloc h =
     (let cap = mh_capacity h * 2 in
      h\<lparr>mh_capacity := cap,
        mh_arr := take (unat cap) (mh_arr h) @ replicate (unat cap - length (mh_arr h)) None\<rparr>)"

text \<open>\<open>heap->arr[i]\<close> followed by a dereference of the pointer found there.\<close>

definition arr_entry :: "'d zn_minheap \<Rightarrow> u32 \<Rightarrow> (ptr \<times> 'd zn_minheap_entry) res" where
  "arr_entry h i =
     bind_res (arr_get (mh_arr h) (unat i)) (\<lambda>c.
       case c of None \<Rightarrow> Inl Uninit_Read
       | Some p \<Rightarrow> bind_res (deref (mh_ents h) p) (\<lambda>e. Inr (p, e)))"

text \<open>Swap the pointers at \<open>i\<close> and \<open>j\<close>, then store their new positions in the entries.\<close>

definition swap_entries :: "'d zn_minheap \<Rightarrow> u32 \<Rightarrow> u32 \<Rightarrow> 'd zn_minheap res" where
  "swap_entries h i j =
     bind_res (arr_entry h i) (\<lambda>(pi, ei).
     bind_res (arr_entry h j) (\<lambda>(pj, ej).
       Inr (h\<lparr>mh_arr := (mh_arr h)[unat i := Some pj, unat j := Some pi],
              mh_ents := (mh_ents h)(pj \<mapsto> ej\<lparr>e_index := i\<rparr>, pi \<mapsto> ei\<lparr>e_index := j\<rparr>)\<rparr>)))"

function bubble_up :: "'d zn_minheap \<Rightarrow> u32 \<Rightarrow> 'd zn_minheap res" where
  "bubble_up h i =
     (if 0 < i then
        let parent = (i - 1) div 2 in
        bind_res (arr_entry h i) (\<lambda>(_, ei).
        bind_res (arr_entry h parent) (\<lambda>(_, ep).
          if e_priority ei < e_priority ep
          then bind_res (swap_entries h i parent) (\<lambda>h'. bubble_up h' parent)
          else Inr h))
      else Inr h)"
  by pat_completeness auto
termination
proof (relation "measure (\<lambda>(h, i). unat i)")
  fix h :: "'d zn_minheap" and i parent :: u32 and h' :: "'d zn_minheap"
  assume i: "0 < i" and p: "parent = (i - 1) div 2"
  have "unat parent = (unat i - 1) div 2"
    using i by (simp add: p unat_div unat_dec)
  moreover have "0 < unat i" using i by (simp add: word_less_nat_alt)
  ultimately show "((h', parent), (h, i)) \<in> measure (\<lambda>(h, i). unat i)" by auto
qed simp

declare bubble_up.simps [simp del]

text \<open>
  One of the two comparisons of \<open>bubble_down\<close>: take child \<open>c\<close> instead of \<open>smallest\<close> when it
  exists and its priority is lower.
\<close>

definition smaller_child :: "'d zn_minheap \<Rightarrow> u32 \<Rightarrow> u32 \<Rightarrow> u32 res" where
  "smaller_child h smallest c =
     (if c < mh_size h then
        bind_res (arr_entry h c) (\<lambda>(_, ec).
        bind_res (arr_entry h smallest) (\<lambda>(_, es).
          Inr (if e_priority ec < e_priority es then c else smallest)))
      else Inr smallest)"

text \<open>
  The loop of \<open>bubble_down\<close>. Child positions are computed in 32 bits, so on a heap of more than
  \<open>2 ^ 31\<close> entries they wrap and the loop need not end; the first argument bounds the number of
  iterations. \<open>bubble_down_ok\<close> below shows that the bound chosen in \<open>bubble_down\<close> is never
  reached on smaller heaps.
\<close>

fun bubble_down_loop :: "nat \<Rightarrow> 'd zn_minheap \<Rightarrow> u32 \<Rightarrow> 'd zn_minheap res" where
  "bubble_down_loop 0 h i = Inl Out_Of_Fuel"
| "bubble_down_loop (Suc fuel) h i =
     (let left = 2 * i + 1; right = 2 * i + 2 in
      bind_res (smaller_child h i left) (\<lambda>s.
      bind_res (smaller_child h s right) (\<lambda>smallest.
        if smallest \<noteq> i
        then bind_res (swap_entries h i smallest) (\<lambda>h'. bubble_down_loop fuel h' smallest)
        else Inr h)))"

definition bubble_down :: "'d zn_minheap \<Rightarrow> u32 \<Rightarrow> 'd zn_minheap res" where
  "bubble_down h i = bubble_down_loop (Suc (unat (mh_size h))) h i"

definition zn_minheap_init :: "u32 \<Rightarrow> 'd zn_minheap" where
  "zn_minheap_init capacity =
     \<lparr>mh_arr = replicate (unat capacity) None, mh_size = 0, mh_capacity = capacity,
      mh_ents = Map.empty, mh_next = 0\<rparr>"

text \<open>The entries still in the heap are freed one by one; a second free of one is an error.\<close>

fun free_entries :: "(ptr \<rightharpoonup> 'd zn_minheap_entry) \<Rightarrow> ptr option list \<Rightarrow>
    (ptr \<rightharpoonup> 'd zn_minheap_entry) res" where
  "free_entries m [] = Inr m"
| "free_entries m (c # cs) =
     (case c of None \<Rightarrow> Inl Uninit_Read
      | Some p \<Rightarrow> bind_res (deref m p) (\<lambda>_. free_entries (m(p := None)) cs))"

definition zn_minheap_destroy :: "'d zn_minheap \<Rightarrow> (ptr \<rightharpoonup> 'd zn_minheap_entry) res" where
  "zn_minheap_destroy h = free_entries (mh_ents h) (take (unat (mh_size h)) (mh_arr h))"

definition zn_minheap_insert :: "'d zn_minheap \<Rightarrow> 'd \<Rightarrow> u32 \<Rightarrow> (ptr \<times> 'd zn_minheap) res" where
  "zn_minheap_insert h0 data priority =
     (let h = (if mh_size h0 = mh_capacity h0 then minheap_realloc h0 else h0);
          new_entry = mh_next h;
          index = mh_size h in
      bind_res (arr_set (mh_arr h) (unat (mh_size h)) (Some new_entry)) (\<lambda>arr.
      bind_res (bubble_up
          (h\<lparr>mh_arr := arr,
             mh_size := mh_size h + 1,
             mh_ents := (mh_ents h)(new_entry \<mapsto>
               \<lparr>e_data = data, e_priority = priority, e_index = index\<rparr>),
             mh_next := Suc new_entry\<rparr>) index) (\<lambda>h'.
        Inr (new_entry, h'))))"

definition zn_minheap_extract_min :: "'d zn_minheap \<Rightarrow> (ptr option \<times> 'd zn_minheap) res" where
  "zn_minheap_extract_min h =
     (if mh_size h = 0 then Inr (None, h)
      else
        bind_res (arr_get (mh_arr h) 0) (\<lambda>c.
          case c of None \<Rightarrow> Inl Uninit_Read
          | Some min_entry \<Rightarrow>
              let h1 = h\<lparr>mh_size := mh_size h - 1\<rparr> in
              if 0 < mh_size h1 then
                bind_res (arr_entry h1 (mh_size h1)) (\<lambda>(p, e).
                bind_res (bubble_down
                    (h1\<lparr>mh_arr := (mh_arr h1)[0 := Some p],
                        mh_ents := (mh_ents h1)(p \<mapsto> e\<lparr>e_index := 0\<rparr>)\<rparr>) 0) (\<lambda>h2.
                  Inr (Some min_entry, h2)))
              else Inr (Some min_entry, h1)))"

definition zn_minheap_update_by_entry ::
    "'d zn_minheap \<Rightarrow> ptr option \<Rightarrow> u32 \<Rightarrow> (int \<times> 'd zn_minheap) res" where
  "zn_minheap_update_by_entry h entry new_priority =
     (case entry of None \<Rightarrow> Inr (-1, h)
      | Some p \<Rightarrow>
          bind_res (deref (mh_ents h) p) (\<lambda>e.
            if mh_size h \<le> e_index e then Inr (-1, h)
            else
              let old_priority = e_priority e;
                  h1 = h\<lparr>mh_ents := (mh_ents h)(p \<mapsto> e\<lparr>e_priority := new_priority\<rparr>)\<rparr> in
              bind_res
                (if new_priority < old_priority then bubble_up h1 (e_index e)
                 else if old_priority < new_priority then bubble_down h1 (e_index e)
                 else Inr h1) (\<lambda>h2.
                Inr (0, h2))))"

section \<open>Invariant\<close>

definition mh_key :: "'d zn_minheap \<Rightarrow> nat \<Rightarrow> u32" where
  "mh_key h i = e_priority (the (mh_ents h (the (mh_arr h ! i))))"

definition mh_slot :: "'d zn_minheap \<Rightarrow> nat \<Rightarrow> bool" where
  "mh_slot h i =
     (case mh_arr h ! i of None \<Rightarrow> False
      | Some p \<Rightarrow> (case mh_ents h p of None \<Rightarrow> False | Some e \<Rightarrow> unat (e_index e) = i))"

definition mh_linked :: "'d zn_minheap \<Rightarrow> bool" where
  "mh_linked h \<longleftrightarrow>
     length (mh_arr h) = unat (mh_capacity h) \<and>
     unat (mh_size h) \<le> unat (mh_capacity h) \<and>
     (\<forall>i < unat (mh_size h). mh_slot h i) \<and>
     (\<forall>p. mh_ents h p \<noteq> None \<longrightarrow> p < mh_next h)"

definition mh_ordered :: "'d zn_minheap \<Rightarrow> bool" where
  "mh_ordered h \<longleftrightarrow>
     (\<forall>i < unat (mh_size h). 0 < i \<longrightarrow> mh_key h ((i - 1) div 2) \<le> mh_key h i)"

definition mh_inv :: "'d zn_minheap \<Rightarrow> bool" where
  "mh_inv h \<longleftrightarrow> mh_linked h \<and> mh_ordered h"

definition mh_live :: "'d zn_minheap \<Rightarrow> ptr set" where
  "mh_live h = {p. \<exists>i < unat (mh_size h). mh_arr h ! i = Some p}"

definition mh_contents :: "'d zn_minheap \<Rightarrow> ptr \<rightharpoonup> 'd \<times> u32" where
  "mh_contents h p =
     (if p \<in> mh_live h then map_option (\<lambda>e. (e_data e, e_priority e)) (mh_ents h p) else None)"

text \<open>What the two bubbling loops keep: everything but the order of the array.\<close>

definition mh_same :: "'d zn_minheap \<Rightarrow> 'd zn_minheap \<Rightarrow> bool" where
  "mh_same h h' \<longleftrightarrow>
     mh_size h' = mh_size h \<and> mh_capacity h' = mh_capacity h \<and> mh_next h' = mh_next h \<and>
     mh_contents h' = mh_contents h \<and> dom (mh_ents h') = dom (mh_ents h)"

lemma mh_same_refl [simp]: "mh_same h h"
  by (simp add: mh_same_def)

lemma mh_same_trans: "mh_same h h' \<Longrightarrow> mh_same h' h'' \<Longrightarrow> mh_same h h''"
  by (simp add: mh_same_def)

lemma mh_slotE:
  assumes "mh_slot h i"
  obtains p e where "mh_arr h ! i = Some p" "mh_ents h p = Some e" "unat (e_index e) = i"
  using assms by (auto simp: mh_slot_def split: option.splits)

lemma mh_linked_slot: "mh_linked h \<Longrightarrow> i < unat (mh_size h) \<Longrightarrow> mh_slot h i"
  by (simp add: mh_linked_def)

lemma mh_linked_bound: "mh_linked h \<Longrightarrow> i < unat (mh_size h) \<Longrightarrow> i < length (mh_arr h)"
  by (simp add: mh_linked_def)

lemma mh_linked_inj:
  assumes "mh_linked h" "i < unat (mh_size h)" "j < unat (mh_size h)" "mh_arr h ! i = mh_arr h ! j"
  shows "i = j"
  using mh_linked_slot [OF assms(1,2)] mh_linked_slot [OF assms(1,3)] assms(4)
  by (auto elim!: mh_slotE)

lemma arr_entry_ok:
  assumes "mh_linked h" "i < mh_size h"
  obtains p e where "arr_entry h i = Inr (p, e)" "mh_arr h ! unat i = Some p"
    "mh_ents h p = Some e" "e_index e = i" "e_priority e = mh_key h (unat i)"
proof -
  have i: "unat i < unat (mh_size h)" using assms(2) by (simp add: word_less_nat_alt)
  from mh_linked_slot [OF assms(1) i]
  obtain p e where pe: "mh_arr h ! unat i = Some p" "mh_ents h p = Some e"
    "unat (e_index e) = unat i" by (rule mh_slotE)
  moreover have "e_index e = i" using pe(3) by simp
  moreover have "arr_entry h i = Inr (p, e)"
    using pe mh_linked_bound [OF assms(1) i] by (simp add: arr_entry_def)
  moreover have "e_priority e = mh_key h (unat i)" using pe by (simp add: mh_key_def)
  ultimately show ?thesis using that by blast
qed

text \<open>
  Swapping two positions exchanges the pointers there; each of the two entries gets the other's
  position, every other entry is untouched.
\<close>

lemma swap_entries_eq:
  assumes l: "mh_linked h" and i: "i < mh_size h" and j: "j < mh_size h" and ij: "i \<noteq> j"
  obtains p e q f h' where "swap_entries h i j = Inr h'" "p \<noteq> q"
    "mh_arr h ! unat i = Some p" "mh_ents h p = Some e"
    "mh_arr h ! unat j = Some q" "mh_ents h q = Some f"
    "h' = h\<lparr>mh_arr := (mh_arr h)[unat i := mh_arr h ! unat j, unat j := mh_arr h ! unat i],
            mh_ents := (mh_ents h)(q \<mapsto> f\<lparr>e_index := i\<rparr>, p \<mapsto> e\<lparr>e_index := j\<rparr>)\<rparr>"
proof -
  obtain p e where p: "arr_entry h i = Inr (p, e)" "mh_arr h ! unat i = Some p"
    "mh_ents h p = Some e" "e_index e = i"
    by (rule arr_entry_ok [OF l i])
  obtain q f where q: "arr_entry h j = Inr (q, f)" "mh_arr h ! unat j = Some q"
    "mh_ents h q = Some f" "e_index f = j"
    by (rule arr_entry_ok [OF l j])
  have "p \<noteq> q" using p q ij by auto
  then show ?thesis using that p q by (simp add: swap_entries_def)
qed

lemma swap_entries_ok:
  assumes l: "mh_linked h" and i: "i < mh_size h" and j: "j < mh_size h" and ij: "i \<noteq> j"
  obtains h' where "swap_entries h i j = Inr h'" "mh_linked h'" "mh_same h h'"
    "\<And>k. k < unat (mh_size h) \<Longrightarrow>
       mh_key h' k = mh_key h (if k = unat i then unat j else if k = unat j then unat i else k)"
proof -
  obtain p e q f h' where sw: "swap_entries h i j = Inr h'" "p \<noteq> q"
    "mh_arr h ! unat i = Some p" "mh_ents h p = Some e"
    "mh_arr h ! unat j = Some q" "mh_ents h q = Some f"
    "h' = h\<lparr>mh_arr := (mh_arr h)[unat i := mh_arr h ! unat j, unat j := mh_arr h ! unat i],
            mh_ents := (mh_ents h)(q \<mapsto> f\<lparr>e_index := i\<rparr>, p \<mapsto> e\<lparr>e_index := j\<rparr>)\<rparr>"
    by (rule swap_entries_eq [OF assms])
  have ni: "unat i < unat (mh_size h)" "unat j < unat (mh_size h)"
    using i j by (simp_all add: word_less_nat_alt)
  have len: "unat i < length (mh_arr h)" "unat j < length (mh_arr h)"
    using mh_linked_bound [OF l] ni by simp_all
  have other: "mh_arr h ! k \<noteq> Some p \<and> mh_arr h ! k \<noteq> Some q"
    if "k < unat (mh_size h)" "k \<noteq> unat i" "k \<noteq> unat j" for k
    using mh_linked_inj [OF l that(1) ni(1)] mh_linked_inj [OF l that(1) ni(2)] that sw(3,5)
    by auto
  have at: "mh_slot h' k \<and>
      mh_key h' k = mh_key h (if k = unat i then unat j else if k = unat j then unat i else k)"
    if "k < unat (mh_size h)" for k
    using other [OF that] mh_linked_slot [OF l that] sw(2-) ij list_swap_nth [OF len, of k]
    by (auto simp: mh_slot_def mh_key_def split: option.splits if_splits)
  have "mh_linked h'" using l at sw(4,6,7) by (auto simp: mh_linked_def)
  moreover have "mh_live h' = mh_live h"
    using l ni by (simp add: mh_live_def sw(7) list_swap_ex mh_linked_def)
  then have "mh_contents h' = mh_contents h"
    using sw(2,4,6) by (auto simp: mh_contents_def sw(7) fun_eq_iff)
  then have "mh_same h h'" using sw(4,6) by (auto simp: mh_same_def sw(7))
  ultimately show ?thesis using that sw(1) at by blast
qed

text \<open>The loops restore the order when it fails at one position only.\<close>

definition mh_except_up :: "'d zn_minheap \<Rightarrow> nat \<Rightarrow> bool" where
  "mh_except_up h i \<longleftrightarrow>
     (\<forall>k < unat (mh_size h). 0 < k \<longrightarrow> k \<noteq> i \<longrightarrow> mh_key h ((k - 1) div 2) \<le> mh_key h k) \<and>
     (\<forall>k < unat (mh_size h). 0 < k \<longrightarrow> 0 < i \<longrightarrow> (k - 1) div 2 = i \<longrightarrow>
        mh_key h ((i - 1) div 2) \<le> mh_key h k)"

definition mh_except_down :: "'d zn_minheap \<Rightarrow> nat \<Rightarrow> bool" where
  "mh_except_down h i \<longleftrightarrow>
     (\<forall>k < unat (mh_size h). 0 < k \<longrightarrow> (k - 1) div 2 \<noteq> i \<longrightarrow> mh_key h ((k - 1) div 2) \<le> mh_key h k) \<and>
     (\<forall>k < unat (mh_size h). 0 < k \<longrightarrow> 0 < i \<longrightarrow> (k - 1) div 2 = i \<longrightarrow>
        mh_key h ((i - 1) div 2) \<le> mh_key h k)"

lemma unat_parent: "0 < (i :: u32) \<Longrightarrow> unat ((i - 1) div 2) = (unat i - 1) div 2"
  by (simp add: unat_div unat_dec)

text \<open>One upward swap moves the exception to the parent.\<close>

lemma except_up_step:
  assumes ex: "mh_except_up h i" and i: "i < unat (mh_size h)" "0 < i"
    and lt: "mh_key h i < mh_key h ((i - 1) div 2)" and sz: "mh_size h' = mh_size h"
    and key: "\<And>k. k < unat (mh_size h) \<Longrightarrow>
       mh_key h' k = mh_key h (if k = i then (i - 1) div 2 else if k = (i - 1) div 2 then i else k)"
  shows "mh_except_up h' ((i - 1) div 2)"
proof -
  have par: "(i - 1) div 2 < i" using i by arith
  have a: "mh_key h ((k - 1) div 2) \<le> mh_key h k" if "k < unat (mh_size h)" "0 < k" "k \<noteq> i" for k
    using ex that by (simp add: mh_except_up_def)
  have b: "mh_key h ((i - 1) div 2) \<le> mh_key h k" if "k < unat (mh_size h)" "0 < k" "(k - 1) div 2 = i" for k
    using ex that i by (simp add: mh_except_up_def)
  have pk: "(k - 1) div 2 < unat (mh_size h)" if "k < unat (mh_size h)" for k
    using that by arith
  have "mh_key h' ((k - 1) div 2) \<le> mh_key h' k"
    if "k < unat (mh_size h)" "0 < k" "k \<noteq> (i - 1) div 2" for k
    using that a [of k] b [of k] lt par i
    by (auto simp: key pk dest: order.trans less_imp_le)
  moreover have "mh_key h' (((i - 1) div 2 - 1) div 2) \<le> mh_key h' k"
    if "k < unat (mh_size h)" "0 < k" "0 < (i - 1) div 2" "(k - 1) div 2 = (i - 1) div 2" for k
  proof -
    have g: "((i - 1) div 2 - 1) div 2 < (i - 1) div 2" using that(3) by arith
    have "mh_key h (((i - 1) div 2 - 1) div 2) \<le> mh_key h ((i - 1) div 2)"
      using a [of "(i - 1) div 2"] par i that(3) by simp
    moreover have "mh_key h ((i - 1) div 2) \<le> mh_key h k" if "k \<noteq> i"
      using a [of k] that \<open>k < unat (mh_size h)\<close> \<open>0 < k\<close> \<open>(k - 1) div 2 = (i - 1) div 2\<close> by simp
    moreover have "k \<noteq> (i - 1) div 2" using that(2,4) by arith
    ultimately show ?thesis using that(1) g par i by (auto simp: key dest: order.trans)
  qed
  ultimately show ?thesis by (simp add: mh_except_up_def sz)
qed

lemma bubble_up_ok:
  assumes "mh_linked h" "i < mh_size h" "mh_except_up h (unat i)"
  shows "\<exists>h'. bubble_up h i = Inr h' \<and> mh_inv h' \<and> mh_same h h'"
  using assms
proof (induction h i rule: bubble_up.induct)
  case (1 h i)
  show ?case
  proof (cases "0 < i")
    case False
    then have "i = 0" by (simp add: word_gt_0)
    with "1.prems" show ?thesis
      by (simp add: bubble_up.simps mh_inv_def mh_ordered_def mh_except_up_def)
  next
    case True
    let ?p = "(i - 1) div 2"
    have up: "unat ?p = (unat i - 1) div 2" using True by (rule unat_parent)
    have i0: "0 < unat i" using True by (simp add: word_less_nat_alt)
    have p: "?p < mh_size h" "i \<noteq> ?p"
      using "1.prems"(2) i0 up by (auto simp: word_less_nat_alt word_unat_eq_iff)
    obtain a e where e: "arr_entry h i = Inr (a, e)" "e_priority e = mh_key h (unat i)"
      by (rule arr_entry_ok [OF "1.prems"(1,2)])
    obtain b f where f: "arr_entry h ?p = Inr (b, f)" "e_priority f = mh_key h (unat ?p)"
      by (rule arr_entry_ok [OF "1.prems"(1) p(1)])
    show ?thesis
    proof (cases "mh_key h (unat i) < mh_key h (unat ?p)")
      case lt: True
      obtain h' where h': "swap_entries h i ?p = Inr h'" "mh_linked h'" "mh_same h h'"
        "\<And>k. k < unat (mh_size h) \<Longrightarrow> mh_key h' k =
           mh_key h (if k = unat i then unat ?p else if k = unat ?p then unat i else k)"
        by (rule swap_entries_ok [OF "1.prems"(1,2) p]) auto
      have ex: "mh_except_up h' (unat ?p)"
        unfolding up by (rule except_up_step [OF "1.prems"(3)])
          (use "1.prems"(2) i0 lt h'(3,4) up in \<open>simp_all add: word_less_nat_alt mh_same_def\<close>)
      have pe: "e_priority e < e_priority f" and "?p < mh_size h'"
        using lt e(2) f(2) p(1) h'(3) by (simp_all add: mh_same_def)
      with ex obtain h'' where "bubble_up h' ?p = Inr h''" "mh_inv h''" "mh_same h' h''"
        using "1.IH" [OF True refl] h'(2) by blast
      with h' e f lt True show ?thesis
        by (auto simp: bubble_up.simps [of h i] Let_def intro: mh_same_trans)
    next
      case False
      have "mh_ordered h" using "1.prems"(3) False up
        by (auto simp: mh_ordered_def mh_except_up_def not_less)
      with False True e f "1.prems"(1) show ?thesis
        by (simp add: bubble_up.simps [of h i] Let_def mh_inv_def)
    qed
  qed
qed

lemma except_down_step:
  assumes ex: "mh_except_down h i" and c: "c < unat (mh_size h)" "0 < c" "(c - 1) div 2 = i"
    and lt: "mh_key h c < mh_key h i"
    and sib: "\<And>k. k < unat (mh_size h) \<Longrightarrow> 0 < k \<Longrightarrow> (k - 1) div 2 = i \<Longrightarrow> mh_key h c \<le> mh_key h k"
    and sz: "mh_size h' = mh_size h"
    and key: "\<And>k. k < unat (mh_size h) \<Longrightarrow>
       mh_key h' k = mh_key h (if k = i then c else if k = c then i else k)"
  shows "mh_except_down h' c"
proof -
  have ic: "i < c" using c by arith
  have a: "mh_key h ((k - 1) div 2) \<le> mh_key h k"
    if "k < unat (mh_size h)" "0 < k" "(k - 1) div 2 \<noteq> i" for k
    using ex that by (simp add: mh_except_down_def)
  have b: "mh_key h ((i - 1) div 2) \<le> mh_key h c" if "0 < i"
    using ex that c by (simp add: mh_except_down_def)
  have pk: "(k - 1) div 2 < unat (mh_size h)" "(k - 1) div 2 < k"
    if "k < unat (mh_size h)" "0 < k" for k
    using that by arith+
  have "mh_key h' ((k - 1) div 2) \<le> mh_key h' k"
    if k: "k < unat (mh_size h)" "0 < k" "(k - 1) div 2 \<noteq> c" for k
  proof -
    consider "k = i" | "k = c" | "k \<noteq> i" "k \<noteq> c" "(k - 1) div 2 = i"
      | "k \<noteq> i" "k \<noteq> c" "(k - 1) div 2 \<noteq> i" by blast
    then show ?thesis
      using k pk [OF k(1,2)] a [OF k(1,2)] b sib [OF k(1,2)] lt ic c(3)
      by cases (auto simp: key less_imp_le)
  qed
  moreover have "mh_key h' ((c - 1) div 2) \<le> mh_key h' k"
    if k: "k < unat (mh_size h)" "0 < k" "(k - 1) div 2 = c" for k
    using k pk [OF k(1,2)] a [OF k(1,2)] ic c pk [OF c(1,2)] by (simp add: key)
  ultimately show ?thesis by (simp add: mh_except_down_def sz)
qed

lemma smaller_child_ok:
  assumes "mh_linked h" "s < mh_size h"
  shows "smaller_child h s c =
    Inr (if c < mh_size h \<and> mh_key h (unat c) < mh_key h (unat s) then c else s)"
proof (cases "c < mh_size h")
  case True
  obtain a e where "arr_entry h c = Inr (a, e)" "e_priority e = mh_key h (unat c)"
    by (rule arr_entry_ok [OF assms(1) True])
  moreover obtain b f where "arr_entry h s = Inr (b, f)" "e_priority f = mh_key h (unat s)"
    by (rule arr_entry_ok [OF assms])
  ultimately show ?thesis using True by (simp add: smaller_child_def)
qed (simp add: smaller_child_def)

text \<open>
  On a heap of less than \<open>2 ^ 31\<close> entries the child positions do not wrap: the two comparisons
  pick the child with the least key below the one at \<open>i\<close>, if there is one.
\<close>

lemma unat_children:
  assumes "unat i < 2 ^ 31 - 1"
  shows "unat (2 * i + 1 :: u32) = 2 * unat i + 1" "unat (2 * i + 2 :: u32) = 2 * unat i + 2"
  using assms by (simp_all add: unat_word_ariths)

lemma child_cases: "0 < k \<Longrightarrow> (k - 1) div 2 = i \<longleftrightarrow> k = 2 * i + 1 \<or> k = 2 * i + (2::nat)"
  by arith

lemma choose_child_ok:
  assumes l: "mh_linked h" and i: "i < mh_size h" and sz: "unat (mh_size h) < 2 ^ 31"
    and s: "smaller_child h i (2 * i + 1) = Inr s"
    and t: "smaller_child h s (2 * i + 2) = Inr t"
  shows "t < mh_size h" "t \<noteq> i \<Longrightarrow> (unat t - 1) div 2 = unat i \<and> unat i < unat t"
    "t \<noteq> i \<Longrightarrow> mh_key h (unat t) < mh_key h (unat i)"
    "k < unat (mh_size h) \<Longrightarrow> 0 < k \<Longrightarrow> (k - 1) div 2 = unat i \<Longrightarrow> mh_key h (unat t) \<le> mh_key h k"
proof -
  have "unat i < 2 ^ 31 - 1" using i sz by (simp add: word_less_nat_alt)
  note ch = unat_children [OF this]
  have s': "s = (if 2 * i + 1 < mh_size h \<and> mh_key h (2 * unat i + 1) < mh_key h (unat i)
      then 2 * i + 1 else i)"
    using s by (simp add: smaller_child_ok [OF l i] ch)
  have "s < mh_size h" using i by (simp add: s')
  then have t': "t = (if 2 * i + 2 < mh_size h \<and> mh_key h (2 * unat i + 2) < mh_key h (unat s)
      then 2 * i + 2 else s)"
    using t by (simp add: smaller_child_ok [OF l] ch)
  show "t < mh_size h" using i by (simp add: t' s')
  show "t \<noteq> i \<Longrightarrow> (unat t - 1) div 2 = unat i \<and> unat i < unat t"
    by (auto simp: t' s' ch split: if_splits)
  show "t \<noteq> i \<Longrightarrow> mh_key h (unat t) < mh_key h (unat i)"
    by (auto simp: t' s' ch split: if_splits intro: less_trans)
  show "mh_key h (unat t) \<le> mh_key h k"
    if "k < unat (mh_size h)" "0 < k" "(k - 1) div 2 = unat i"
    using that(1,3) child_cases [OF that(2), of "unat i"]
    by (auto simp: t' s' ch word_less_nat_alt word_le_nat_alt)
qed

lemma bubble_down_loop_ok:
  assumes "mh_linked h" "i < mh_size h" "mh_except_down h (unat i)"
    and "unat (mh_size h) < 2 ^ 31" "unat (mh_size h) - unat i < fuel"
  shows "\<exists>h'. bubble_down_loop fuel h i = Inr h' \<and> mh_inv h' \<and> mh_same h h'"
  using assms
proof (induction fuel arbitrary: h i)
  case (Suc fuel)
  note l = Suc.prems(1) and i = Suc.prems(2)
  obtain s where s: "smaller_child h i (2 * i + 1) = Inr s" "s < mh_size h"
    using i by (simp add: smaller_child_ok [OF l i])
  obtain t where t: "smaller_child h s (2 * i + 2) = Inr t"
    by (simp add: smaller_child_ok [OF l s(2)])
  note ch = choose_child_ok [OF l i Suc.prems(4) s(1) t]
  show ?case
  proof (cases "t = i")
    case True
    have "mh_ordered h" using Suc.prems(3) ch(4) True
      by (auto simp: mh_ordered_def mh_except_down_def)
    with True s(1) t l show ?thesis by (simp add: mh_inv_def)
  next
    case False
    obtain h' where h': "swap_entries h i t = Inr h'" "mh_linked h'" "mh_same h h'"
      "\<And>k. k < unat (mh_size h) \<Longrightarrow> mh_key h' k =
         mh_key h (if k = unat i then unat t else if k = unat t then unat i else k)"
      by (rule swap_entries_ok [OF l i ch(1)]) (use False in auto)
    have sz: "mh_size h' = mh_size h" using h'(3) by (simp add: mh_same_def)
    have "mh_except_down h' (unat t)"
      by (rule except_down_step [OF Suc.prems(3)])
        (use ch False h'(4) sz in \<open>auto simp: word_less_nat_alt\<close>)
    moreover have "unat (mh_size h') - unat t < fuel"
      using ch(1) ch(2) [OF False] Suc.prems(5) unfolding word_less_nat_alt sz by linarith
    ultimately obtain h'' where "bubble_down_loop fuel h' t = Inr h''" "mh_inv h''" "mh_same h' h''"
      using Suc.IH [OF h'(2)] ch(1) sz Suc.prems(4) by auto
    with False s(1) t h' show ?thesis by (auto intro: mh_same_trans)
  qed
qed simp

lemma bubble_down_ok:
  assumes "mh_linked h" "i < mh_size h" "mh_except_down h (unat i)" "unat (mh_size h) < 2 ^ 31"
  shows "\<exists>h'. bubble_down h i = Inr h' \<and> mh_inv h' \<and> mh_same h h'"
  unfolding bubble_down_def by (rule bubble_down_loop_ok) (use assms in auto)

section \<open>The operations\<close>

lemma mh_contents_init [simp]: "mh_contents (zn_minheap_init c) = Map.empty"
  by (simp add: fun_eq_iff mh_contents_def mh_live_def zn_minheap_init_def)

lemma mh_inv_init [simp]: "mh_inv (zn_minheap_init c)"
  by (simp add: mh_inv_def mh_linked_def mh_ordered_def zn_minheap_init_def)

text \<open>Doubling keeps the occupied part of the array.\<close>

lemma minheap_realloc_ok:
  assumes inv: "mh_inv h" and cap: "0 < mh_capacity h" "unat (mh_capacity h) < 2 ^ 31"
  shows "mh_inv (minheap_realloc h)" "mh_contents (minheap_realloc h) = mh_contents h"
    "mh_size (minheap_realloc h) < mh_capacity (minheap_realloc h)"
proof -
  have c: "unat (mh_capacity h * 2) = unat (mh_capacity h) * 2"
    using cap(2) by (simp add: unat_word_ariths)
  have l: "length (mh_arr h) = unat (mh_capacity h)" "unat (mh_size h) \<le> unat (mh_capacity h)"
    using inv by (simp_all add: mh_inv_def mh_linked_def)
  have nth: "mh_arr (minheap_realloc h) ! k = mh_arr h ! k" if "k < unat (mh_size h)" for k
    using that l by (simp add: minheap_realloc_def c Let_def nth_append)
  have same: "mh_size (minheap_realloc h) = mh_size h" "mh_ents (minheap_realloc h) = mh_ents h"
    "mh_next (minheap_realloc h) = mh_next h" "mh_capacity (minheap_realloc h) = mh_capacity h * 2"
    by (simp_all add: minheap_realloc_def Let_def)
  have "mh_slot (minheap_realloc h) k = mh_slot h k" "mh_key (minheap_realloc h) k = mh_key h k"
    if "k < unat (mh_size h)" for k
    using that by (simp_all add: mh_slot_def mh_key_def nth same split: option.split)
  moreover have "length (mh_arr (minheap_realloc h)) = unat (mh_capacity h * 2)"
    using l by (simp add: minheap_realloc_def c Let_def)
  ultimately show "mh_inv (minheap_realloc h)"
    using inv l by (auto simp: mh_inv_def mh_linked_def mh_ordered_def same c)
  show "mh_contents (minheap_realloc h) = mh_contents h"
    by (simp add: same mh_contents_def mh_live_def nth fun_eq_iff cong: conj_cong)
  show "mh_size (minheap_realloc h) < mh_capacity (minheap_realloc h)"
    using l cap(1) by (simp add: same word_less_nat_alt c)
qed

text \<open>Appending an entry after the occupied part leaves at most its own position out of order.\<close>

lemma append_entry_ok:
  assumes inv: "mh_inv h" and sz: "mh_size h < mh_capacity h" and n: "n = mh_size h"
    and h': "h' = h\<lparr>mh_arr := (mh_arr h)[unat n := Some (mh_next h)], mh_size := n + 1,
      mh_ents := (mh_ents h)(mh_next h \<mapsto> \<lparr>e_data = d, e_priority = pr, e_index = n\<rparr>),
      mh_next := Suc (mh_next h)\<rparr>"
  shows "mh_linked h'" "mh_except_up h' (unat n)" "n < mh_size h'"
    "mh_contents h' = (mh_contents h)(mh_next h \<mapsto> (d, pr))"
proof -
  have l: "mh_linked h" "mh_ordered h" using inv by (simp_all add: mh_inv_def)
  have n1: "unat (n + 1) = unat n + 1"
    using sz n by (simp add: unat_inc_less)
  have len: "unat n < length (mh_arr h)" using sz n l by (simp add: mh_linked_def word_less_nat_alt)
  have old: "mh_arr h' ! k = mh_arr h ! k" "mh_slot h' k" "mh_key h' k = mh_key h k"
    "mh_arr h ! k \<noteq> Some (mh_next h)" if "k < unat n" for k
  proof -
    have k: "mh_slot h k" using l(1) that n by (simp add: mh_linked_def)
    then show "mh_arr h ! k \<noteq> Some (mh_next h)"
      using l(1) by (auto simp: mh_linked_def elim!: mh_slotE)
    show "mh_arr h' ! k = mh_arr h ! k" using that by (simp add: h')
    with k show "mh_slot h' k" "mh_key h' k = mh_key h k"
      using \<open>mh_arr h ! k \<noteq> Some (mh_next h)\<close>
      by (auto simp: mh_slot_def mh_key_def h' split: option.splits)
  qed
  have new: "mh_arr h' ! unat n = Some (mh_next h)" using len by (simp add: h')
  have sz': "mh_size h' = n + 1" by (simp add: h')
  have "mh_slot h' k" if "k < unat (n + 1)" for k
    using that old(2) new n1 by (cases "k = unat n") (auto simp: mh_slot_def h')
  then show "mh_linked h'" using l(1) n1 sz n
    by (auto simp: mh_linked_def h' word_less_nat_alt less_Suc_eq)
  show "mh_except_up h' (unat n)"
    using l(2) unfolding mh_ordered_def n [symmetric]
    by (auto simp: mh_except_up_def sz' n1 old less_Suc_eq)
  show "n < mh_size h'" by (simp add: sz' word_less_nat_alt n1)
  have "p \<in> mh_live h' \<longleftrightarrow> p = mh_next h \<or> p \<in> mh_live h" for p
    using old(1) new n1 n by (auto simp: mh_live_def sz' less_Suc_eq)
  then show "mh_contents h' = (mh_contents h)(mh_next h \<mapsto> (d, pr))"
    by (auto simp: mh_contents_def h' fun_eq_iff)
qed

definition mh_room :: "'d zn_minheap \<Rightarrow> bool" where
  "mh_room h \<longleftrightarrow> 0 < mh_capacity h \<and> unat (mh_size h) < 2 ^ 31"

lemma zn_minheap_insert_ok:
  assumes inv: "mh_inv h" and room: "mh_room h"
  shows "\<exists>h'. zn_minheap_insert h d pr = Inr (mh_next h, h') \<and> mh_inv h' \<and>
    mh_contents h' = (mh_contents h)(mh_next h \<mapsto> (d, pr)) \<and> mh_size h' = mh_size h + 1 \<and>
    0 < mh_capacity h' \<and> mh_next h' = Suc (mh_next h) \<and>
    dom (mh_ents h') = insert (mh_next h) (dom (mh_ents h))"
proof -
  define h1 where "h1 = (if mh_size h = mh_capacity h then minheap_realloc h else h)"
  have h1: "mh_inv h1" "mh_size h1 < mh_capacity h1" "mh_size h1 = mh_size h"
    "mh_next h1 = mh_next h" "mh_contents h1 = mh_contents h" "mh_ents h1 = mh_ents h"
    using minheap_realloc_ok [OF inv] room inv
    by (auto simp: h1_def mh_room_def mh_inv_def mh_linked_def word_less_nat_alt order_le_less
      minheap_realloc_def Let_def)
  define h2 where "h2 = h1\<lparr>mh_arr := (mh_arr h1)[unat (mh_size h1) := Some (mh_next h1)],
      mh_size := mh_size h1 + 1, mh_ents := (mh_ents h1)(mh_next h1 \<mapsto>
        \<lparr>e_data = d, e_priority = pr, e_index = mh_size h1\<rparr>), mh_next := Suc (mh_next h1)\<rparr>"
  note h2 = append_entry_ok [OF h1(1,2) refl h2_def]
  obtain h3 where h3: "bubble_up h2 (mh_size h1) = Inr h3" "mh_inv h3" "mh_same h2 h3"
    using bubble_up_ok [OF h2(1,3,2)] by blast
  have "unat (mh_size h1) < length (mh_arr h1)"
    using h1(1,2) by (simp add: mh_inv_def mh_linked_def word_less_nat_alt)
  then have "zn_minheap_insert h d pr = Inr (mh_next h1, h3)"
    using h3(1) by (simp add: zn_minheap_insert_def h1_def [symmetric] h2_def [symmetric] Let_def)
  moreover have "0 < mh_capacity h2" using h1(2) by (simp add: h2_def word_less_nat_alt)
  ultimately show ?thesis using h3(2,3) h1(3-6) h2(4) by (auto simp: mh_same_def h2_def)
qed

lemma mh_root_min:
  assumes "mh_ordered h"
  shows "k < unat (mh_size h) \<Longrightarrow> mh_key h 0 \<le> mh_key h k"
proof (induction k rule: less_induct)
  case (less k)
  show ?case
  proof (cases "k = 0")
    case False
    have "mh_key h 0 \<le> mh_key h ((k - 1) div 2)" using False less by (intro less.IH) auto
    also have "\<dots> \<le> mh_key h k" using assms less.prems False by (simp add: mh_ordered_def)
    finally show ?thesis .
  qed simp
qed

lemma mh_liveE:
  assumes "mh_linked h" "p \<in> mh_live h"
  obtains i e where "i < mh_size h" "mh_arr h ! unat i = Some p" "mh_ents h p = Some e"
    "e_index e = i" "mh_contents h p = Some (e_data e, e_priority e)" "mh_key h (unat i) = e_priority e"
proof -
  obtain k where k: "k < unat (mh_size h)" "mh_arr h ! k = Some p"
    using assms(2) by (auto simp: mh_live_def)
  obtain e where e: "mh_ents h p = Some e" "unat (e_index e) = k"
    using mh_linked_slot [OF assms(1) k(1)] k(2) by (auto elim: mh_slotE)
  show ?thesis
    by (rule that [of "e_index e" e])
      (use k e assms(2) in \<open>auto simp: word_less_nat_alt mh_contents_def mh_key_def\<close>)
qed

lemma mh_contents_dom: "mh_linked h \<Longrightarrow> dom (mh_contents h) = mh_live h"
  by (auto simp: mh_contents_def elim: mh_liveE split: if_splits)

text \<open>Moving the last entry to the root removes the old root from the contents.\<close>

lemma replace_root_ok:
  assumes inv: "mh_inv h" and m: "m = mh_size h - 1" "0 < m" and sz: "mh_size h \<noteq> 0"
    and p: "mh_arr h ! unat m = Some p" "mh_ents h p = Some e" and r: "mh_arr h ! 0 = Some r"
    and h': "h' = h\<lparr>mh_size := m, mh_arr := (mh_arr h)[0 := Some p],
      mh_ents := (mh_ents h)(p \<mapsto> e\<lparr>e_index := 0\<rparr>)\<rparr>"
  shows "mh_linked h'" "mh_except_down h' 0" "mh_contents h' = (mh_contents h)(r := None)"
proof -
  have l: "mh_linked h" "mh_ordered h" using inv by (simp_all add: mh_inv_def)
  have m1: "unat (mh_size h) = Suc (unat m)" "0 < unat m"
    using m sz by (simp_all add: unat_minus_one word_less_nat_alt word_gt_0 unat_gt_0)
  have len: "0 < length (mh_arr h)" using l(1) m1 by (simp add: mh_linked_def)
  have ne: "mh_arr h ! k \<noteq> Some p" if "k < unat m" for k
    using mh_linked_inj [OF l(1), of k "unat m"] that m1 p(1) by auto
  have old: "mh_arr h' ! k = mh_arr h ! k" "mh_slot h' k" "mh_key h' k = mh_key h k"
    if "k < unat m" "0 < k" for k
    using mh_linked_slot [OF l(1), of k] that m1 ne [OF that(1)]
    by (auto simp: mh_slot_def mh_key_def h' split: option.splits)
  have sz': "mh_size h' = m" by (simp add: h')
  have root: "mh_arr h' ! 0 = Some p" "mh_slot h' 0" using len by (simp_all add: mh_slot_def h')
  have "mh_slot h' k" if "k < unat m" for k using old(2) root(2) that by (cases "k = 0") auto
  then show "mh_linked h'" using l(1) m1 p(2) by (auto simp: mh_linked_def h')
  show "mh_except_down h' 0"
    using l(2) m1 by (auto simp: mh_except_down_def mh_ordered_def h' old [unfolded h'])
  have "q \<in> mh_live h' \<longleftrightarrow> q \<in> mh_live h \<and> q \<noteq> r" for q
  proof -
    have rr: "k = 0" if "k < unat (mh_size h)" "mh_arr h ! k = Some r" for k
      using mh_linked_inj [OF l(1) that(1), of 0] that(2) r m1 by simp
    have "mh_arr h' ! k = (if k = 0 then Some p else mh_arr h ! k)" if "k < unat m" for k
      using root(1) old(1) that by simp
    then have "q \<in> mh_live h' \<longleftrightarrow> (\<exists>k<unat m. (if k = 0 then Some p else mh_arr h ! k) = Some q)"
      by (simp add: mh_live_def sz' cong: conj_cong)
    also have "\<dots> \<longleftrightarrow> q = p \<or> (\<exists>k<unat m. 0 < k \<and> mh_arr h ! k = Some q)"
      using m1 by (auto split: if_splits) (metis less_numeral_extra(3))
    also have "\<dots> \<longleftrightarrow> (\<exists>k<unat (mh_size h). 0 < k \<and> mh_arr h ! k = Some q)"
      using m1 p(1) by (auto simp: less_Suc_eq)
    also have "\<dots> \<longleftrightarrow> q \<in> mh_live h \<and> q \<noteq> r"
      using rr r by (auto simp: mh_live_def) (metis gr0I option.inject)
    finally show ?thesis .
  qed
  then show "mh_contents h' = (mh_contents h)(r := None)"
    using p(2) by (auto simp: mh_contents_def h' fun_eq_iff)
qed

lemma mh_contents_min:
  assumes "mh_linked h" "mh_ordered h" "mh_contents h q = Some (d, k)"
  shows "mh_key h 0 \<le> k"
proof -
  have "q \<in> mh_live h" using assms(3) by (simp add: mh_contents_def split: if_splits)
  then obtain i f where "i < mh_size h" "mh_ents h q = Some f"
    "mh_contents h q = Some (e_data f, e_priority f)" "mh_key h (unat i) = e_priority f"
    by (rule mh_liveE [OF assms(1)]) blast
  then show ?thesis
    using mh_root_min [OF assms(2), of "unat i"] assms(3) by (simp add: word_less_nat_alt)
qed

lemma arr_entry_size [simp]: "arr_entry (h\<lparr>mh_size := n\<rparr>) i = arr_entry h i"
  by (simp add: arr_entry_def cong: option.case_cong)

lemma zn_minheap_extract_min_empty:
  "mh_size h = 0 \<Longrightarrow> zn_minheap_extract_min h = Inr (None, h) \<and> mh_contents h = Map.empty"
  by (simp add: zn_minheap_extract_min_def mh_contents_def mh_live_def fun_eq_iff)

lemma zn_minheap_extract_min_ok:
  assumes inv: "mh_inv h" and small: "unat (mh_size h) < 2 ^ 31" and sz: "mh_size h \<noteq> 0"
  obtains p d k h' where "zn_minheap_extract_min h = Inr (Some p, h')" "mh_contents h p = Some (d, k)"
    "\<And>q d' k'. mh_contents h q = Some (d', k') \<Longrightarrow> k \<le> k'" "mh_inv h'"
    "mh_contents h' = (mh_contents h)(p := None)" "mh_size h' = mh_size h - 1"
    "mh_capacity h' = mh_capacity h" "mh_next h' = mh_next h" "dom (mh_ents h') = dom (mh_ents h)"
proof -
  have l: "mh_linked h" "mh_ordered h" using inv by (simp_all add: mh_inv_def)
  have z: "0 < mh_size h" using sz by (simp add: word_gt_0)
  obtain r e where r: "mh_arr h ! unat (0 :: u32) = Some r" "mh_ents h r = Some e"
    "e_priority e = mh_key h (unat (0 :: u32))" by (rule arr_entry_ok [OF l(1) z]) blast
  have live: "r \<in> mh_live h" using r z by (auto simp: mh_live_def word_less_nat_alt)
  have len: "0 < length (mh_arr h)" using l(1) z by (simp add: mh_linked_def word_less_nat_alt)
  have c: "mh_contents h r = Some (e_data e, e_priority e)" using live r(2) by (simp add: mh_contents_def)
  have min: "e_priority e \<le> k'" if "mh_contents h q = Some (d', k')" for q d' k'
    using mh_contents_min [OF l that] r(3) by simp
  let ?m = "mh_size h - 1"
  show ?thesis
  proof (cases "0 < ?m")
    case False
    then have m: "?m = 0" by (simp add: word_gt_0)
    then have "unat (mh_size h) = 1" by (metis add.commute diff_eq_eq unat_1 add_0_right)
    then have "mh_live h = {r}" using r(1) by (auto simp: mh_live_def)
    then have "mh_contents (h\<lparr>mh_size := 0\<rparr>) = (mh_contents h)(r := None)"
      by (auto simp: mh_contents_def mh_live_def fun_eq_iff)
    moreover have "mh_inv (h\<lparr>mh_size := 0\<rparr>)" using l(1) by (simp add: mh_inv_def mh_linked_def mh_ordered_def)
    ultimately show ?thesis
      using that [OF _ c min, of "h\<lparr>mh_size := 0\<rparr>"] m r(1) len sz
      by (simp add: zn_minheap_extract_min_def Let_def)
  next
    case True
    have lt: "?m < mh_size h" using z by (simp add: word_less_nat_alt unat_dec)
    obtain p f where p: "arr_entry h ?m = Inr (p, f)" "mh_arr h ! unat ?m = Some p"
      "mh_ents h p = Some f" by (rule arr_entry_ok [OF l(1) lt])
    let ?h = "h\<lparr>mh_size := ?m, mh_arr := (mh_arr h)[0 := Some p],
      mh_ents := (mh_ents h)(p \<mapsto> f\<lparr>e_index := 0\<rparr>)\<rparr>"
    note rr = replace_root_ok [OF inv refl True sz p(2,3) _ refl, of r]
    obtain h' where h': "bubble_down ?h 0 = Inr h'" "mh_inv h'" "mh_same ?h h'"
      using bubble_down_ok [of ?h 0] rr True small r(1) lt by (auto simp: word_less_nat_alt)
    show ?thesis
      by (rule that [OF _ c min, of h'])
        (use h' rr r(1) len sz True p(1,3) in \<open>auto simp: zn_minheap_extract_min_def Let_def mh_same_def\<close>)
  qed
qed


lemma mh_ordered_except: "mh_ordered h \<Longrightarrow> mh_except_up h i \<and> mh_except_down h i"
proof -
  assume o: "mh_ordered h"
  have "mh_key h ((i - 1) div 2) \<le> mh_key h k"
    if "k < unat (mh_size h)" "0 < k" "0 < i" "(k - 1) div 2 = i" for k
  proof -
    have "mh_key h ((i - 1) div 2) \<le> mh_key h i"
      using o that by (auto simp: mh_ordered_def)
    also have "\<dots> \<le> mh_key h k" using o that by (auto simp: mh_ordered_def)
    finally show ?thesis .
  qed
  then show ?thesis using o by (auto simp: mh_except_up_def mh_except_down_def mh_ordered_def)
qed

text \<open>Overwriting the priority of one entry: of a live one, whose position may then be out of
  order, or of one already extracted, which the heap does not see.\<close>

lemma set_priority_key:
  assumes l: "mh_linked h" and i: "i < unat (mh_size h)" and p: "mh_ents h p = Some e"
  shows "mh_key (h\<lparr>mh_ents := (mh_ents h)(p \<mapsto> e\<lparr>e_priority := k\<rparr>)\<rparr>) i =
    (if i = unat (e_index e) \<and> p \<in> mh_live h then k else mh_key h i)"
proof -
  obtain q f where q: "mh_arr h ! i = Some q" "mh_ents h q = Some f" "unat (e_index f) = i"
    using mh_linked_slot [OF l i] by (rule mh_slotE)
  have "q = p \<longleftrightarrow> i = unat (e_index e) \<and> p \<in> mh_live h"
  proof
    show "q = p \<Longrightarrow> i = unat (e_index e) \<and> p \<in> mh_live h"
      using q p i by (auto simp: mh_live_def)
    show "i = unat (e_index e) \<and> p \<in> mh_live h \<Longrightarrow> q = p"
      using q p by (auto elim!: mh_liveE [OF l])
  qed
  then show ?thesis using q p by (simp add: mh_key_def)
qed

lemma set_priority_ok:
  assumes inv: "mh_inv h" and p: "mh_ents h p = Some e"
    and h': "h' = h\<lparr>mh_ents := (mh_ents h)(p \<mapsto> e\<lparr>e_priority := k\<rparr>)\<rparr>"
  shows "mh_linked h'"
    "mh_contents h' = (if p \<in> mh_live h then (mh_contents h)(p \<mapsto> (e_data e, k)) else mh_contents h)"
    "p \<notin> mh_live h \<or> k \<le> e_priority e \<Longrightarrow> mh_except_up h' (unat (e_index e))"
    "p \<notin> mh_live h \<or> e_priority e \<le> k \<Longrightarrow> mh_except_down h' (unat (e_index e))"
    "p \<notin> mh_live h \<or> e_priority e = k \<Longrightarrow> mh_ordered h'"
proof -
  have l: "mh_linked h" "mh_ordered h" using inv by (simp_all add: mh_inv_def)
  have sz: "mh_size h' = mh_size h" by (simp add: h')
  note key = set_priority_key [OF l(1) _ p, where k = k, folded h']
  have own: "p \<in> mh_live h \<Longrightarrow> mh_key h (unat (e_index e)) = e_priority e"
    by (erule mh_liveE [OF l(1)]) (use p in auto)
  have "mh_slot h' i" if "i < unat (mh_size h)" for i
    using mh_linked_slot [OF l(1) that] p by (auto simp: mh_slot_def h' split: option.splits)
  then show "mh_linked h'" using l(1) p by (auto simp: mh_linked_def h')
  show "mh_contents h' = (if p \<in> mh_live h then (mh_contents h)(p \<mapsto> (e_data e, k)) else mh_contents h)"
    using p by (auto simp: mh_contents_def mh_live_def h' fun_eq_iff)
  have par: "(i - 1) div 2 < unat (mh_size h)" if "i < unat (mh_size h)" for i using that by arith
  have o: "mh_key h ((i - 1) div 2) \<le> mh_key h i" if "i < unat (mh_size h)" "0 < i" for i
    using l(2) that by (simp add: mh_ordered_def)
  show ord: "mh_ordered h'" if "p \<notin> mh_live h \<or> e_priority e = k"
  proof -
    have "mh_key h' i = mh_key h i" if "i < unat (mh_size h)" for i
      using key [OF that] own \<open>p \<notin> mh_live h \<or> e_priority e = k\<close> by auto
    then show ?thesis using o par by (simp add: mh_ordered_def sz)
  qed
  have up: "mh_key h' ((unat (e_index e) - 1) div 2) = mh_key h ((unat (e_index e) - 1) div 2)"
    if "unat (e_index e) < unat (mh_size h)" "0 < unat (e_index e)"
  proof -
    have "(unat (e_index e) - 1) div 2 \<noteq> unat (e_index e)" using that(2) by arith
    then show ?thesis using key [OF par [OF that(1)]] by simp
  qed
  have ch: "mh_key h' ((unat (e_index e) - 1) div 2) \<le> mh_key h' i"
    if i: "i < unat (mh_size h)" "0 < i" "0 < unat (e_index e)" "(i - 1) div 2 = unat (e_index e)" for i
  proof -
    have "i \<noteq> unat (e_index e)" using i(2,4) by arith
    then show ?thesis
      using mh_ordered_except [OF l(2), of "unat (e_index e)"] i up par [OF i(1)] key [OF i(1)]
      by (simp add: mh_except_up_def)
  qed
  show "mh_except_up h' (unat (e_index e))" if "p \<notin> mh_live h \<or> k \<le> e_priority e"
  proof (cases "p \<in> mh_live h")
    case True
    with that own have "k \<le> mh_key h (unat (e_index e))" by simp
    then have "mh_key h' ((i - 1) div 2) \<le> mh_key h' i"
      if "i < unat (mh_size h)" "0 < i" "i \<noteq> unat (e_index e)" for i
      using that o [OF that(1,2)] key [OF par [OF that(1)]] key [OF that(1)]
      by (cases "(i - 1) div 2 = unat (e_index e)") (auto dest: order.trans)
    with ch show ?thesis by (simp add: mh_except_up_def sz)
  qed (use ord mh_ordered_except in blast)
  show "mh_except_down h' (unat (e_index e))" if "p \<notin> mh_live h \<or> e_priority e \<le> k"
  proof (cases "p \<in> mh_live h")
    case True
    with that own have "mh_key h (unat (e_index e)) \<le> k" by simp
    then have "mh_key h' ((i - 1) div 2) \<le> mh_key h' i"
      if "i < unat (mh_size h)" "0 < i" "(i - 1) div 2 \<noteq> unat (e_index e)" for i
      using that o [OF that(1,2)] key [OF par [OF that(1)]] key [OF that(1)]
      by (cases "i = unat (e_index e)") (auto dest: order.trans)
    with ch show ?thesis by (simp add: mh_except_down_def sz)
  qed (use ord mh_ordered_except in blast)
qed


lemma zn_minheap_update_ok:
  assumes inv: "mh_inv h" and small: "unat (mh_size h) < 2 ^ 31" and p: "mh_ents h p = Some e"
  shows "\<exists>r h'. zn_minheap_update_by_entry h (Some p) k = Inr (r, h') \<and> mh_inv h' \<and>
    mh_contents h' = (if p \<in> mh_live h then (mh_contents h)(p \<mapsto> (e_data e, k)) else mh_contents h) \<and>
    (p \<in> mh_live h \<longrightarrow> r = 0) \<and> mh_size h' = mh_size h \<and> mh_capacity h' = mh_capacity h \<and>
    mh_next h' = mh_next h \<and> dom (mh_ents h') = dom (mh_ents h)"
proof (cases "mh_size h \<le> e_index e")
  case True
  have "p \<notin> mh_live h"
  proof
    assume "p \<in> mh_live h"
    then have "e_index e < mh_size h" by (rule mh_liveE [OF inv [unfolded mh_inv_def, THEN conjunct1]]) (use p in auto)
    with True show False by simp
  qed
  then show ?thesis using True p inv by (simp add: zn_minheap_update_by_entry_def)
next
  case False
  define h1 where "h1 = h\<lparr>mh_ents := (mh_ents h)(p \<mapsto> e\<lparr>e_priority := k\<rparr>)\<rparr>"
  note h1 = set_priority_ok [OF inv p h1_def]
  have i: "e_index e < mh_size h1" "unat (mh_size h1) < 2 ^ 31" using False small by (simp_all add: h1_def)
  have "\<exists>h2. (if k < e_priority e then bubble_up h1 (e_index e)
      else if e_priority e < k then bubble_down h1 (e_index e) else Inr h1) = Inr h2 \<and>
      mh_inv h2 \<and> mh_same h1 h2"
    using bubble_up_ok [OF h1(1) i(1)] bubble_down_ok [OF h1(1) i(1) _ i(2)] h1(1,3-5)
    by (auto simp: mh_inv_def not_less)
  then obtain h2 where h2: "(if k < e_priority e then bubble_up h1 (e_index e)
      else if e_priority e < k then bubble_down h1 (e_index e) else Inr h1) = Inr h2"
    "mh_inv h2" "mh_same h1 h2" by blast
  have "zn_minheap_update_by_entry h (Some p) k = Inr (0, h2)"
    using p False unfolding zn_minheap_update_by_entry_def Let_def h1_def [symmetric]
    by (simp only: option.case deref_Some bind_res_Inr h2(1) if_False
        h1_def [symmetric])
  then show ?thesis using h2(2,3) h1(2) p by (auto simp: mh_same_def h1_def)
qed

lemma free_entries_ok:
  assumes "\<forall>c \<in> set cs. \<exists>p. c = Some p \<and> m p \<noteq> None" "distinct cs"
  shows "free_entries m cs = Inr (\<lambda>p. if Some p \<in> set cs then None else m p)"
  using assms
proof (induction cs arbitrary: m)
  case (Cons c cs)
  then obtain p v where p: "c = Some p" "m p = Some v" by auto
  have "free_entries (m(p := None)) cs = Inr (\<lambda>q. if Some q \<in> set cs then None else (m(p := None)) q)"
    by (rule Cons.IH) (use Cons.prems p in fastforce)+
  moreover have "(\<lambda>q. if Some q \<in> set cs then None else (m(p := None)) q) =
      (\<lambda>q. if Some q \<in> set (c # cs) then None else m q)"
    using p by (auto simp: fun_eq_iff)
  ultimately show ?case using p by (simp add: deref_def)
qed simp

lemma mh_live_set: "mh_linked h \<Longrightarrow> Some p \<in> set (take (unat (mh_size h)) (mh_arr h)) \<longleftrightarrow> p \<in> mh_live h"
  by (auto simp: in_set_conv_nth mh_live_def mh_linked_def) 

lemma zn_minheap_destroy_ok:
  assumes inv: "mh_inv h"
  shows "zn_minheap_destroy h = Inr (mh_ents h |` (- mh_live h))"
proof -
  have l: "mh_linked h" using inv by (simp add: mh_inv_def)
  let ?cs = "take (unat (mh_size h)) (mh_arr h)"
  have "distinct ?cs"
    using mh_linked_inj [OF l] l by (auto simp: distinct_conv_nth mh_linked_def)
  moreover have "\<forall>c \<in> set ?cs. \<exists>p. c = Some p \<and> mh_ents h p \<noteq> None"
    using mh_linked_slot [OF l] l by (fastforce simp: in_set_conv_nth mh_linked_def elim: mh_slotE)
  ultimately have "zn_minheap_destroy h = Inr (\<lambda>p. if Some p \<in> set ?cs then None else mh_ents h p)"
    unfolding zn_minheap_destroy_def by (intro free_entries_ok)
  then show ?thesis by (simp add: mh_live_set [OF l] restrict_map_def fun_eq_iff)
qed

section \<open>The heap as a priority queue with handles\<close>

text \<open>
  What a client such as the chunk policy relies on: the queue is a finite map from handles to
  data and priority; insertion adds a fresh handle, extraction removes one of least priority,
  an update changes the priority behind a handle it holds.
\<close>

fun drain :: "('q \<Rightarrow> ('p option \<times> 'q) res) \<Rightarrow> nat \<Rightarrow> 'q \<Rightarrow> 'p list res" where
  "drain ex 0 q = Inr []"
| "drain ex (Suc n) q =
     bind_res (ex q) (\<lambda>(r, q').
       case r of None \<Rightarrow> Inr []
       | Some p \<Rightarrow> bind_res (drain ex n q') (\<lambda>ps. Inr (p # ps)))"

locale handle_pqueue =
  fixes ins :: "'q \<Rightarrow> 'd \<Rightarrow> u32 \<Rightarrow> ('p \<times> 'q) res"
    and ext :: "'q \<Rightarrow> ('p option \<times> 'q) res"
    and upd :: "'q \<Rightarrow> 'p option \<Rightarrow> u32 \<Rightarrow> (int \<times> 'q) res"
    and contents :: "'q \<Rightarrow> 'p \<Rightarrow> ('d \<times> u32) option"
    and wf :: "'q \<Rightarrow> bool"
    and count :: "'q \<Rightarrow> nat"
    and limit :: nat
  assumes ins_law: "wf q \<Longrightarrow> count q < limit \<Longrightarrow>
      \<exists>p q'. ins q d k = Inr (p, q') \<and> wf q' \<and> contents q p = None \<and>
        contents q' = (contents q)(p \<mapsto> (d, k)) \<and> count q' = count q + 1"
    and ext_empty: "wf q \<Longrightarrow> count q = 0 \<Longrightarrow> ext q = Inr (None, q) \<and> contents q = Map.empty"
    and ext_law: "wf q \<Longrightarrow> count q < limit \<Longrightarrow> 0 < count q \<Longrightarrow>
      \<exists>p d k q'. ext q = Inr (Some p, q') \<and> contents q p = Some (d, k) \<and>
        (\<forall>r d' k'. contents q r = Some (d', k') \<longrightarrow> k \<le> k') \<and> wf q' \<and>
        contents q' = (contents q)(p := None) \<and> count q' = count q - 1"
    and upd_law: "wf q \<Longrightarrow> count q < limit \<Longrightarrow> contents q p = Some (d, k0) \<Longrightarrow>
      \<exists>q'. upd q (Some p) k = Inr (0, q') \<and> wf q' \<and>
        contents q' = (contents q)(p \<mapsto> (d, k)) \<and> count q' = count q"
begin

lemma drain_sorted:
  assumes "wf q" "count q < limit"
  shows "\<exists>ps. drain ext (count q) q = Inr ps \<and> distinct ps \<and> set ps = dom (contents q) \<and>
    sorted (map (\<lambda>p. snd (the (contents q p))) ps)"
  using assms
proof (induction "count q" arbitrary: q)
  case 0
  then show ?case using ext_empty [of q] by simp
next
  case (Suc n)
  obtain p d k q' where p: "ext q = Inr (Some p, q')" "contents q p = Some (d, k)"
    "\<forall>r d' k'. contents q r = Some (d', k') \<longrightarrow> k \<le> k'" "wf q'"
    "contents q' = (contents q)(p := None)" "count q' = n"
    using ext_law [OF Suc.prems] Suc.hyps(2) by auto
  obtain ps where ps: "drain ext n q' = Inr ps" "distinct ps" "set ps = dom (contents q')"
    "sorted (map (\<lambda>p. snd (the (contents q' p))) ps)"
    using Suc.hyps(1) [of q'] p(4,6) Suc.prems Suc.hyps(2) by auto
  have keys: "map (\<lambda>p. snd (the (contents q' p))) ps = map (\<lambda>p. snd (the (contents q p))) ps"
    using ps(3) p(5) by auto
  have "k \<le> snd (the (contents q r))" if "r \<in> set ps" for r
    using that ps(3) p(3,5) by (auto split: if_splits)
  then have "sorted (map (\<lambda>p. snd (the (contents q p))) (p # ps))"
    using ps(4) p(2) keys by auto
  then show ?case
    using p(1,2,5) ps(1-3) Suc.hyps(2) [symmetric] by (intro exI [of _ "p # ps"]) auto
qed

lemma update_then_extract:
  assumes "wf q" "count q < limit" "contents q p = Some (d, k0)"
    and low: "\<And>r d' k'. contents q r = Some (d', k') \<Longrightarrow> r \<noteq> p \<Longrightarrow> k < k'"
  shows "\<exists>q' q''. upd q (Some p) k = Inr (0, q') \<and> ext q' = Inr (Some p, q'')"
proof -
  obtain q' where q': "upd q (Some p) k = Inr (0, q')" "wf q'" "count q' = count q"
    "contents q' = (contents q)(p \<mapsto> (d, k))"
    using upd_law [OF assms(1-3)] by blast
  have "0 < count q'" using ext_empty [OF q'(2)] q'(4) by (metis fun_upd_same neq0_conv option.distinct(1))
  then obtain r d' k' q'' where "ext q' = Inr (Some r, q'')" "contents q' r = Some (d', k')"
    "\<forall>s e l. contents q' s = Some (e, l) \<longrightarrow> k' \<le> l"
    using ext_law [OF q'(2)] q'(3) assms(2) by metis
  moreover have "r = p"
  proof (rule ccontr)
    assume "r \<noteq> p"
    then have "k < k'" using calculation(2) q'(4) low by simp
    moreover have "contents q' p = Some (d, k)" using q'(4) by simp
    then have "k' \<le> k" using \<open>\<forall>s e l. contents q' s = Some (e, l) \<longrightarrow> k' \<le> l\<close> by blast
    ultimately show False by simp
  qed
  ultimately show ?thesis using q'(1) by blast
qed

end

definition mh_wf :: "'d zn_minheap \<Rightarrow> bool" where
  "mh_wf h \<longleftrightarrow> mh_inv h \<and> 0 < mh_capacity h"

lemma mh_next_not_live: "mh_linked h \<Longrightarrow> mh_contents h (mh_next h) = None"
  by (auto simp: mh_contents_def mh_linked_def)

interpretation mh: handle_pqueue zn_minheap_insert zn_minheap_extract_min
  zn_minheap_update_by_entry mh_contents mh_wf "\<lambda>h. unat (mh_size h)" "2 ^ 31"
proof (unfold_locales, goal_cases)
  case (1 q d k)
  have "unat (mh_size q + 1) = unat (mh_size q) + 1" using 1(2) by simp
  then show ?case
    using zn_minheap_insert_ok [of q d k] mh_next_not_live [of q] 1
    by (auto simp: mh_wf_def mh_room_def mh_inv_def)
next
  case (2 q)
  then show ?case using zn_minheap_extract_min_empty [of q] by (simp add: unat_eq_0)
next
  case (3 q)
  then have "mh_size q \<noteq> 0" by (auto simp: unat_eq_0)
  with 3 obtain p d k h' where "zn_minheap_extract_min q = Inr (Some p, h')"
    "mh_contents q p = Some (d, k)" "\<And>r d' k'. mh_contents q r = Some (d', k') \<Longrightarrow> k \<le> k'"
    "mh_inv h'" "mh_contents h' = (mh_contents q)(p := None)" "mh_size h' = mh_size q - 1"
    "mh_capacity h' = mh_capacity q"
    by (auto simp: mh_wf_def elim: zn_minheap_extract_min_ok)
  with 3 \<open>mh_size q \<noteq> 0\<close> show ?case
    by (intro exI [of _ p] exI [of _ d] exI [of _ k] exI [of _ h']) (simp add: mh_wf_def unat_minus_one)
next
  case (4 q p d k0 k)
  then have l: "p \<in> mh_live q" by (simp add: mh_contents_def split: if_splits)
  with 4(3) obtain e where e: "mh_ents q p = Some e" "d = e_data e" by (auto simp: mh_contents_def)
  with 4 l show ?case using zn_minheap_update_ok [of q p e k] by (auto simp: mh_wf_def)
qed


section \<open>Client runs\<close>

text \<open>
  A client of the heap calls the three operations in any order and may update through any
  pointer it was given, also one whose entry was extracted in the meantime.
\<close>

datatype 'd mh_op = Insert 'd u32 | Extract_Min | Update ptr u32

fun mh_apply :: "'d zn_minheap \<Rightarrow> 'd mh_op \<Rightarrow> 'd zn_minheap res" where
  "mh_apply h (Insert d k) = bind_res (zn_minheap_insert h d k) (\<lambda>(_, h'). Inr h')"
| "mh_apply h Extract_Min = bind_res (zn_minheap_extract_min h) (\<lambda>(_, h'). Inr h')"
| "mh_apply h (Update p k) =
     (if p < mh_next h
      then bind_res (zn_minheap_update_by_entry h (Some p) k) (\<lambda>(_, h'). Inr h')
      else Inr h)"

fun mh_run :: "'d zn_minheap \<Rightarrow> 'd mh_op list \<Rightarrow> 'd zn_minheap res" where
  "mh_run h [] = Inr h"
| "mh_run h (x # xs) = bind_res (mh_apply h x) (\<lambda>h'. mh_run h' xs)"

definition mh_client_inv :: "'d zn_minheap \<Rightarrow> bool" where
  "mh_client_inv h \<longleftrightarrow> mh_wf h \<and> dom (mh_ents h) = {..< mh_next h}"

lemma mh_apply_ok:
  assumes inv: "mh_client_inv h" and small: "unat (mh_size h) < 2 ^ 31"
  shows "\<exists>h'. mh_apply h x = Inr h' \<and> mh_client_inv h' \<and> unat (mh_size h') \<le> unat (mh_size h) + 1"
proof (cases x)
  case (Insert d k)
  have "unat (mh_size h + 1) = unat (mh_size h) + 1" using small by simp
  with Insert show ?thesis using zn_minheap_insert_ok [of h d k] inv small
    by (auto simp: mh_client_inv_def mh_wf_def mh_room_def)
next
  case Extract_Min
  show ?thesis
  proof (cases "mh_size h = 0")
    case True
    then show ?thesis using Extract_Min inv zn_minheap_extract_min_empty [of h] by simp
  next
    case False
    then obtain p h' where "zn_minheap_extract_min h = Inr (Some p, h')" "mh_inv h'"
      "mh_size h' = mh_size h - 1" "mh_capacity h' = mh_capacity h" "mh_next h' = mh_next h"
      "dom (mh_ents h') = dom (mh_ents h)"
      using inv small by (auto simp: mh_client_inv_def mh_wf_def elim: zn_minheap_extract_min_ok)
    then show ?thesis using Extract_Min inv False
      by (auto simp: mh_client_inv_def mh_wf_def unat_minus_one)
  qed
next
  case (Update p k)
  show ?thesis
  proof (cases "p < mh_next h")
    case True
    then obtain e where "mh_ents h p = Some e" using inv by (auto simp: mh_client_inv_def)
    then show ?thesis using Update True inv small zn_minheap_update_ok [of h p e k]
      by (auto simp: mh_client_inv_def mh_wf_def)
  qed (use Update inv in simp)
qed

lemma mh_run_ok:
  "mh_client_inv h \<Longrightarrow> unat (mh_size h) + length xs \<le> 2 ^ 31 \<Longrightarrow>
   \<exists>h'. mh_run h xs = Inr h' \<and> mh_client_inv h'"
proof (induction xs arbitrary: h)
  case (Cons x xs)
  obtain h' where "mh_apply h x = Inr h'" "mh_client_inv h'" "unat (mh_size h') \<le> unat (mh_size h) + 1"
    using mh_apply_ok [OF Cons.prems(1), of x] Cons.prems(2) by auto
  moreover from this have "\<exists>h''. mh_run h' xs = Inr h'' \<and> mh_client_inv h''"
    using Cons.prems(2) by (intro Cons.IH) auto
  ultimately show ?case by auto
qed simp

lemma mh_client_inv_init: "0 < c \<Longrightarrow> mh_client_inv (zn_minheap_init c)"
  by (auto simp: mh_client_inv_def mh_wf_def) (simp_all add: zn_minheap_init_def)

section \<open>Properties\<close>

text \<open>C23. No sequence of inserts, extractions and updates that a client can make on a heap
  created with a positive capacity faults (no access outside the array, no read of an unwritten
  slot, no dangling pointer, no endless loop), as long as fewer than \<open>2 ^ 31\<close> operations are
  made; afterwards the array is a min-heap whose entries know their positions.\<close>

theorem minheap_runs_safe:
  assumes "0 < capacity" and "length ops \<le> 2 ^ 31"
  shows "\<exists>h. mh_run (zn_minheap_init capacity) ops = Inr h \<and> mh_inv h"
proof -
  have "\<exists>h. mh_run (zn_minheap_init capacity) ops = Inr h \<and> mh_client_inv h"
    by (rule mh_run_ok [OF mh_client_inv_init [OF assms(1)]])
      (use assms(2) in \<open>simp add: zn_minheap_init_def\<close>)
  then show ?thesis by (auto simp: mh_client_inv_def mh_wf_def)
qed

theorem minheap_runs_safe_witness:
  "\<exists>h. mh_run (zn_minheap_init 1) [Insert ''a'' 3, Insert ''b'' 1, Update 0 0, Extract_Min, Update 0 7] = Inr h
     \<and> mh_inv h"
  by (rule minheap_runs_safe) simp_all

text \<open>\<open>zn_minheap_extract_min\<close> on a non-empty heap returns an entry of least priority among
  those in the heap and removes exactly that entry; on an empty heap it returns \<open>NULL\<close>.\<close>

lemma minheap_extract_min_least:
  assumes "mh_wf h" and "unat (mh_size h) < 2 ^ 31"
  shows "if mh_contents h = Map.empty then zn_minheap_extract_min h = Inr (None, h)
    else \<exists>p d k h'. zn_minheap_extract_min h = Inr (Some p, h') \<and> mh_contents h p = Some (d, k) \<and>
         (\<forall>q d' k'. mh_contents h q = Some (d', k') \<longrightarrow> k \<le> k') \<and>
         mh_contents h' = (mh_contents h)(p := None) \<and> mh_wf h'"
proof (cases "unat (mh_size h) = 0")
  case True
  then show ?thesis using mh.ext_empty [OF assms(1)] by simp
next
  case False
  then obtain p d k h' where "zn_minheap_extract_min h = Inr (Some p, h')" "mh_contents h p = Some (d, k)"
    "\<forall>q d' k'. mh_contents h q = Some (d', k') \<longrightarrow> k \<le> k'" "mh_wf h'"
    "mh_contents h' = (mh_contents h)(p := None)"
    using mh.ext_law [OF assms] by auto
  moreover from this have "mh_contents h \<noteq> Map.empty" by auto
  ultimately show ?thesis by auto
qed

definition sample_heap :: "string zn_minheap" where
  "sample_heap = \<lparr>mh_arr = [Some 1, Some 0], mh_size = 2, mh_capacity = 2,
     mh_ents = [0 \<mapsto> \<lparr>e_data = ''a'', e_priority = 3, e_index = 1\<rparr>,
                1 \<mapsto> \<lparr>e_data = ''b'', e_priority = 1, e_index = 0\<rparr>], mh_next = 2\<rparr>"

lemma sample_heap_wf: "mh_wf sample_heap" "unat (mh_size sample_heap) < 2 ^ 31"
  by (auto simp: sample_heap_def mh_wf_def mh_inv_def mh_linked_def mh_slot_def mh_ordered_def
      mh_key_def less_2_cases_iff split: if_splits)

lemma sample_heap_live: "mh_live sample_heap = {0, 1}"
proof -
  have "{p. \<exists>i < 2. [Some 1, Some (0 :: ptr)] ! i = Some p} = {0, 1}" by (auto simp: less_2_cases_iff)
  then show ?thesis by (simp add: mh_live_def sample_heap_def)
qed

lemma sample_heap_contents: "mh_contents sample_heap = [0 \<mapsto> (''a'', 3), 1 \<mapsto> (''b'', 1)]"
  by (rule ext) (simp add: mh_contents_def sample_heap_live, simp add: sample_heap_def)

text \<open>C24. Extracting until the heap is empty returns every entry of the heap exactly once, in
  ascending order of priority.\<close>

theorem minheap_drains_in_order:
  assumes "mh_wf h" and "unat (mh_size h) < 2 ^ 31"
  shows "\<exists>ps. drain zn_minheap_extract_min (unat (mh_size h)) h = Inr ps \<and> distinct ps \<and>
    set ps = dom (mh_contents h) \<and> sorted (map (\<lambda>p. snd (the (mh_contents h p))) ps)"
  using assms by (rule mh.drain_sorted)

theorem minheap_drains_in_order_witness:
  "\<exists>ps. drain zn_minheap_extract_min 2 sample_heap = Inr ps \<and> distinct ps \<and> set ps = {0, 1} \<and>
    sorted (map (\<lambda>p. snd (the (mh_contents sample_heap p))) ps)"
  using minheap_drains_in_order [OF sample_heap_wf]
  unfolding sample_heap_contents by (simp add: sample_heap_def insert_commute)

text \<open>\<open>zn_minheap_update_by_entry\<close> through the pointer of an entry in the heap returns 0 and
  changes that entry's priority and nothing else; through the pointer of an entry that was
  extracted earlier, or through \<open>NULL\<close>, it leaves the heap's contents alone. The heap stays
  well-formed in every case.\<close>

lemma minheap_update_by_entry_spec:
  assumes "mh_wf h" and "unat (mh_size h) < 2 ^ 31" and "mh_ents h p = Some e"
  shows "\<exists>r h'. zn_minheap_update_by_entry h (Some p) k = Inr (r, h') \<and> mh_wf h' \<and>
      (if p \<in> dom (mh_contents h)
       then r = 0 \<and> mh_contents h' = (mh_contents h)(p \<mapsto> (e_data e, k))
       else mh_contents h' = mh_contents h) \<and>
    zn_minheap_update_by_entry h None k = Inr (-1, h)"
  using zn_minheap_update_ok [of h p e k] assms mh_contents_dom [of h]
  by (auto simp: mh_wf_def mh_inv_def zn_minheap_update_by_entry_def)

text \<open>\<open>zn_minheap_destroy\<close> frees exactly the entries that are still in the heap, each of
  them once; entries handed out by \<open>zn_minheap_extract_min\<close> stay allocated for their owner.\<close>

lemma minheap_destroy_frees_live:
  assumes "mh_wf h"
  shows "zn_minheap_destroy h = Inr (mh_ents h |` (- dom (mh_contents h)))"
  using zn_minheap_destroy_ok [of h] assms mh_contents_dom [of h]
  by (simp add: mh_wf_def mh_inv_def)

text \<open>A heap created with capacity 0 cannot take an entry: doubling leaves the capacity at 0 and the
  new pointer is stored outside the array.\<close>

lemma minheap_zero_capacity_overflows:
  "zn_minheap_insert (zn_minheap_init 0) d k = Inl Out_Of_Bounds"
  by (simp add: zn_minheap_insert_def zn_minheap_init_def minheap_realloc_def Let_def arr_set_def)

end
