(* ===== verification/ZN_Chunk_Policy.thy ===== *)
theory ZN_Chunk_Policy
  imports ZN_Core ZN_Promotional ZN_Minheap
begin

text \<open>
  The chunk policy of \<open>src/eviction/chunk.c\<close>: single chunks in a queue ordered by last use, the
  pool \<open>zone_pool\<close> with a \<open>struct zn_pair\<close> per chunk of the device, and a heap of full zones by
  the number of chunks in use, from which the garbage collector picks zones to empty.

  A \<open>struct zn_pair *\<close> points into the pool and is the pair of indices (zone, chunk) of its element,
  which is not to be confused with the fields stored there. Memory from \<open>g_new\<close> is indeterminate:
  fields that the initialisation leaves alone are cells, and the initial content of the pairs is an
  argument.
\<close>

section \<open>Data\<close>

type_synonym pair_ptr = "nat \<times> nat"

record eviction_policy_chunk_zone =
  ez_zone_id :: "u32 cell"
  ez_chunks :: "zn_pair list"
  ez_chunks_in_use :: u32
  ez_filled :: bool
  ez_pqueue_entry :: "ptr cell"

record zn_policy_chunk =
  cp_lru_queue :: "pair_ptr gqueue"
  cp_chunk_to_lru_map :: "pair_ptr \<rightharpoonup> ptr option"
  cp_invalid_pqueue :: "nat zn_minheap"
  cp_zone_pool :: "eviction_policy_chunk_zone list"
  cp_total_chunks :: u32

text \<open>\<open>zone_pool[z].chunks[c]\<close>, read and written, and an assignment to \<open>zone_pool[z]\<close>.\<close>

definition pool_get :: "zn_policy_chunk \<Rightarrow> nat \<Rightarrow> nat \<Rightarrow> (eviction_policy_chunk_zone \<times> zn_pair) res" where
  "pool_get p z c =
     bind_res (arr_get (cp_zone_pool p) z) (\<lambda>zone.
     bind_res (arr_get (ez_chunks zone) c) (\<lambda>pair. Inr (zone, pair)))"

definition pool_set_zone :: "nat \<Rightarrow> eviction_policy_chunk_zone \<Rightarrow> zn_policy_chunk \<Rightarrow> zn_policy_chunk" where
  "pool_set_zone z zone p = p\<lparr>cp_zone_pool := (cp_zone_pool p)[z := zone]\<rparr>"

section \<open>Update\<close>

definition zn_policy_chunk_update :: "bool \<Rightarrow> u64 \<Rightarrow> zn_pair \<Rightarrow> zn_io_type \<Rightarrow> zn_policy_chunk \<Rightarrow>
    zn_policy_chunk res" where
  "zn_policy_chunk_update nd max_zone_chunks location io_type p =
     (let z = unat (zp_zone location); c = unat (zp_chunk_offset location) in
      bind_res (pool_get p z c) (\<lambda>(zpc, pair).
        let node = (case cp_chunk_to_lru_map p (z, c) of None \<Rightarrow> Indet | Some n \<Rightarrow> Init n) in
        case io_type of
          ZN_WRITE \<Rightarrow>
            c_assert nd (\<not> zp_in_use pair)
              (let pair' = \<lparr>zp_zone = zp_zone location, zp_chunk_offset = zp_chunk_offset location,
                           zp_id = zp_id location, zp_in_use = True\<rparr>;
                   zpc1 = zpc\<lparr>ez_chunks := (ez_chunks zpc)[c := pair'],
                              ez_chunks_in_use := ez_chunks_in_use zpc + 1,
                              ez_zone_id := Init (zp_zone location)\<rparr>;
                   q = g_queue_push_tail (z, c) (cp_lru_queue p);
                   p1 = (pool_set_zone z zpc1 p)
                          \<lparr>cp_lru_queue := q,
                           cp_chunk_to_lru_map := (cp_chunk_to_lru_map p)((z, c) \<mapsto> g_queue_peek_tail_link q)\<rparr> in
               if ucast (zp_chunk_offset location) = max_zone_chunks - 1 then
                 bind_res (zn_minheap_insert (cp_invalid_pqueue p1) z (ez_chunks_in_use zpc1)) (\<lambda>(e, heap).
                   Inr ((pool_set_zone z (zpc1\<lparr>ez_pqueue_entry := Init e, ez_filled := True\<rparr>) p1)
                          \<lparr>cp_invalid_pqueue := heap\<rparr>))
               else Inr p1)
        | ZN_READ \<Rightarrow>
            bind_res (read_cell node) (\<lambda>node.
              case node of
                None \<Rightarrow> Inr p
              | Some n \<Rightarrow>
                  bind_res (node_data (cp_lru_queue p) n) (\<lambda>data.
                  bind_res (g_queue_delete_link n (cp_lru_queue p)) (\<lambda>q1.
                    let q2 = g_queue_push_tail data q1 in
                    Inr (p\<lparr>cp_lru_queue := q2,
                      cp_chunk_to_lru_map := (cp_chunk_to_lru_map p)((z, c) \<mapsto> g_queue_peek_tail_link q2)\<rparr>))))))"

section \<open>Garbage collection\<close>

text \<open>
  One iteration of the \<open>for\<close> loop of \<open>zn_policy_chunk_gc\<close>: move chunk \<open>i\<close> of zone \<open>old\<close>, if it is in
  use, to the next free chunk. Passing the \<open>NULL\<close> of a failed read on to \<open>zn_write_out\<close> counts as its
  dereference.
\<close>

definition gc_move_chunk :: "bool \<Rightarrow> 'dev dev_ops \<Rightarrow> nat \<Rightarrow> nat \<Rightarrow>
    zn_policy_chunk \<times> 'm zn_core_scheme \<times> 'dev \<Rightarrow> (zn_policy_chunk \<times> 'm zn_core_scheme \<times> 'dev) res" where
  "gc_move_chunk nd ops old i s = (case s of (p, cache, d) \<Rightarrow>
     bind_res (pool_get p old i) (\<lambda>(_, pair).
       if \<not> zp_in_use pair then Inr (p, cache, d)
       else
         bind_res (zsm_get_active_zone nd ops Indet (zc_zone_state cache) d) (\<lambda>(ret, cell, zs, d1).
         c_assert nd (ret = ZSM_GET_ACTIVE_ZONE_SUCCESS)
         (bind_res (read_cell cell) (\<lambda>new_location.
          bind_res (zn_read_from_disk ops (zc_fd cache) (zc_chunk_sz cache) (zc_io_size cache)
                      (zc_zone_size cache) pair d1) (\<lambda>(data, d2).
          c_assert nd (data \<noteq> None)
          (case data of None \<Rightarrow> Inl Null_Deref | Some bytes \<Rightarrow>
           let wp = CHUNK_POINTER (zc_zone_size cache) (zc_chunk_sz cache)
                      (zp_chunk_offset new_location) (zp_zone new_location) in
           bind_res (zn_write_out nd ops (zc_fd cache) (zc_chunk_sz cache) bytes (zc_io_size cache) wp d2) (\<lambda>(r, d3).
           c_assert nd (r = 0)
           (bind_res (zn_cachemap_insert nd (zp_id pair) new_location (zc_cache_map cache)) (\<lambda>cm.
            bind_res (pool_get p old i) (\<lambda>(old_zone, _).
            let p1 = pool_set_zone old (old_zone\<lparr>ez_chunks := (ez_chunks old_zone)[i := pair\<lparr>zp_in_use := False\<rparr>],
                                              ez_chunks_in_use := ez_chunks_in_use old_zone - 1\<rparr>) p;
                nz = unat (zp_zone new_location); nc = unat (zp_chunk_offset new_location) in
            bind_res (pool_get p1 nz nc) (\<lambda>(new_zone, _).
              Inr ((pool_set_zone nz
                      (new_zone\<lparr>ez_chunks := (ez_chunks new_zone)[nc := pair\<lparr>zp_in_use := True\<rparr>],
                                ez_chunks_in_use := ez_chunks_in_use new_zone + 1\<rparr>) p1)
                      \<lparr>cp_lru_queue := g_queue_push_tail (nz, nc) (cp_lru_queue p1)\<rparr>,
                   cache\<lparr>zc_zone_state := zs, zc_cache_map := cm\<rparr>, d3)))))))))))))"

fun gc_move_chunks :: "bool \<Rightarrow> 'dev dev_ops \<Rightarrow> nat \<Rightarrow> nat list \<Rightarrow>
    zn_policy_chunk \<times> 'm zn_core_scheme \<times> 'dev \<Rightarrow> (zn_policy_chunk \<times> 'm zn_core_scheme \<times> 'dev) res" where
  "gc_move_chunks nd ops old [] s = Inr s"
| "gc_move_chunks nd ops old (i # is) s =
     bind_res (gc_move_chunk nd ops old i s) (gc_move_chunks nd ops old is)"

text \<open>
  The \<open>while\<close> loop. Every iteration takes an entry out of the heap and puts none in, so the size of
  the heap bounds the number of iterations.
\<close>

fun gc_loop :: "zn_config \<Rightarrow> 'dev dev_ops \<Rightarrow> nat \<Rightarrow> u32 \<Rightarrow>
    zn_policy_chunk \<times> 'm zn_core_scheme \<times> 'dev \<Rightarrow> (zn_policy_chunk \<times> 'm zn_core_scheme \<times> 'dev) res" where
  "gc_loop cfg ops 0 free_zones s = Inl Out_Of_Fuel"
| "gc_loop cfg ops (Suc fuel) free_zones s =
     (if free_zones < EVICT_LOW_THRESH_ZONES cfg then
        case s of (p, cache, d) \<Rightarrow>
          bind_res (zn_minheap_extract_min (cp_invalid_pqueue p)) (\<lambda>(ent, heap).
            case ent of
              None \<Rightarrow> Inr (p\<lparr>cp_invalid_pqueue := heap\<rparr>, cache, d)
            | Some e \<Rightarrow>
                bind_res (deref (mh_ents heap) e) (\<lambda>entry.
                let old = e_data entry in
                bind_res (gc_move_chunks (NDEBUG cfg) ops old [0..<unat (zc_max_zone_chunks cache)]
                            (p\<lparr>cp_invalid_pqueue := heap\<rparr>, cache, d)) (\<lambda>(p1, cache1, d1).
                bind_res (arr_get (cp_zone_pool p1) old) (\<lambda>old_zone.
                bind_res (read_cell (ez_zone_id old_zone)) (\<lambda>zone_id.
                bind_res (zn_cachemap_clear_zone (NDEBUG cfg) zone_id (zc_cache_map cache1)) (\<lambda>cm.
                bind_res (zsm_evict (NDEBUG cfg) ops (sint zone_id) (zc_zone_state cache1) d1) (\<lambda>(_, zs, d2).
                  gc_loop cfg ops fuel (zsm_get_num_free_zones zs)
                    (p1, cache1\<lparr>zc_cache_map := cm, zc_zone_state := zs\<rparr>, d2))))))))
      else Inr s)"

definition zn_policy_chunk_gc :: "zn_config \<Rightarrow> 'dev dev_ops \<Rightarrow>
    zn_policy_chunk \<times> 'm zn_core_scheme \<times> 'dev \<Rightarrow> (zn_policy_chunk \<times> 'm zn_core_scheme \<times> 'dev) res" where
  "zn_policy_chunk_gc cfg ops s = (case s of (p, cache, d) \<Rightarrow>
     let free_zones = zsm_get_num_free_zones (zc_zone_state cache) in
     if EVICT_HIGH_THRESH_ZONES cfg < free_zones then Inr s
     else gc_loop cfg ops (Suc (unat (mh_size (cp_invalid_pqueue p)))) free_zones s)"

section \<open>Eviction\<close>

text \<open>One iteration of the eviction loop: the least recently used chunk is invalidated everywhere.\<close>

definition chunk_evict_one :: "bool \<Rightarrow> zn_policy_chunk \<times> 'm zn_core_scheme \<Rightarrow>
    (zn_policy_chunk \<times> 'm zn_core_scheme) res" where
  "chunk_evict_one nd s = (case s of (p, cache) \<Rightarrow>
     case g_queue_pop_head (cp_lru_queue p) of
       (None, _) \<Rightarrow> Inl Null_Deref
     | (Some zp, q) \<Rightarrow>
         let p1 = p\<lparr>cp_lru_queue := q, cp_chunk_to_lru_map := (cp_chunk_to_lru_map p)(zp \<mapsto> None)\<rparr> in
         bind_res (pool_get p1 (fst zp) (snd zp)) (\<lambda>(_, pair).
         let z = unat (zp_zone pair); c = unat (zp_chunk_offset pair) in
         bind_res (pool_get p1 z c) (\<lambda>(zone, pair').
         let zone' = zone\<lparr>ez_chunks := (ez_chunks zone)[c := pair'\<lparr>zp_in_use := False\<rparr>],
                          ez_chunks_in_use := ez_chunks_in_use zone - 1\<rparr> in
         bind_res (read_cell (ez_pqueue_entry zone')) (\<lambda>e.
         bind_res (zn_minheap_update_by_entry (cp_invalid_pqueue p1) (Some e) (ez_chunks_in_use zone')) (\<lambda>(_, heap).
         bind_res (zsm_mark_chunk_invalid pair (zc_zone_state cache)) (\<lambda>zs.
         bind_res (zn_cachemap_clear_chunk nd pair (zc_cache_map cache)) (\<lambda>cm.
           Inr ((pool_set_zone z zone' p1)\<lparr>cp_invalid_pqueue := heap\<rparr>,
                cache\<lparr>zc_zone_state := zs, zc_cache_map := cm\<rparr>))))))))"

fun chunk_evict_loop :: "bool \<Rightarrow> nat \<Rightarrow> zn_policy_chunk \<times> 'm zn_core_scheme \<Rightarrow>
    (zn_policy_chunk \<times> 'm zn_core_scheme) res" where
  "chunk_evict_loop nd 0 s = Inr s"
| "chunk_evict_loop nd (Suc n) s = bind_res (chunk_evict_one nd s) (chunk_evict_loop nd n)"

definition zn_policy_chunk_evict :: "zn_config \<Rightarrow> 'dev dev_ops \<Rightarrow> bool \<Rightarrow>
    zn_policy_chunk \<times> 'm zn_core_scheme \<times> 'dev \<Rightarrow> (int \<times> zn_policy_chunk \<times> 'm zn_core_scheme \<times> 'dev) res" where
  "zn_policy_chunk_evict cfg ops locked_by_us s = (case s of (p, cache, d) \<Rightarrow>
     if \<not> locked_by_us then Inr (-1, s)
     else
       let in_lru = of_nat (length (gq_nodes (cp_lru_queue p)));
           free_chunks = cp_total_chunks p - in_lru in
       if in_lru = 0 \<or> EVICT_HIGH_THRESH_CHUNKS cfg < free_chunks then Inr (1, s)
       else
         let nr_evict = EVICT_LOW_THRESH_CHUNKS cfg - free_chunks in
         bind_res (chunk_evict_loop (NDEBUG cfg) (unat nr_evict) (p, cache)) (\<lambda>(p1, cache1).
         bind_res (zn_policy_chunk_gc cfg ops (p1, cache1, d)) (\<lambda>s'. Inr (0, s'))))"

text \<open>
  The policy's part of \<open>zn_evict_policy_init\<close> (\<open>src/eviction_policy.c\<close>); \<open>garbage\<close> is the content of
  the fresh memory of each pair. The product of the zone and chunk counts is truncated to 32 bits.
\<close>

definition chunk_init :: "(nat \<Rightarrow> nat \<Rightarrow> zn_pair) \<Rightarrow> u32 \<Rightarrow> u64 \<Rightarrow> zn_policy_chunk" where
  "chunk_init garbage nr_zones max_zone_chunks =
     \<lparr>cp_lru_queue = g_queue_init,
      cp_chunk_to_lru_map = (\<lambda>(z, c). if z < unat nr_zones \<and> c < unat max_zone_chunks then Some None else None),
      cp_invalid_pqueue = zn_minheap_init nr_zones,
      cp_zone_pool = map (\<lambda>z. \<lparr>ez_zone_id = Indet,
          ez_chunks = map (\<lambda>c. (garbage z c)\<lparr>zp_chunk_offset := 0, zp_in_use := False\<rparr>) [0..<unat max_zone_chunks],
          ez_chunks_in_use = 0, ez_filled = False, ez_pqueue_entry = Indet\<rparr>) [0..<unat nr_zones],
      cp_total_chunks = ucast (ucast nr_zones * max_zone_chunks)\<rparr>"

end
