(* ===== verification/ZN_Cache.thy ===== *)
theory ZN_Cache
  imports ZN_Chunk_Policy
begin

text \<open>
  The cache of \<open>src/cache.c\<close> and the choice of policy of \<open>src/eviction_policy.c\<close>.

  The operations are given as they run when no other thread acts during the call: a wait that only
  another thread can end (a chunk being written, readers of a zone, all active zones taken) is the
  error \<open>Blocked\<close>, and the eviction's \<open>g_mutex_trylock\<close> succeeds. Clock readings and the profiler's
  metrics are left out; they do not influence the rest.
\<close>

section \<open>Data\<close>

text \<open>
  \<open>struct zn_evict_policy\<close>: the type, the data and the two function pointers are set together by
  \<open>zn_evict_policy_init\<close>, so the constructor of the data determines the others.
\<close>

datatype zn_evict_policy = Promotional zn_policy_promotional | Chunk zn_policy_chunk

record zn_cache = zn_core +
  zc_eviction_policy :: zn_evict_policy

definition MAX_OPEN_ZONES :: u32 where
  "MAX_OPEN_ZONES = 14"

text \<open>The fields of \<open>struct zbd_info\<close> that the cache reads.\<close>

record zbd_info =
  zi_nr_zones :: u32
  zi_max_nr_active_zones :: u32
  zi_zone_size :: u64

section \<open>The policy's entry points\<close>

definition zn_evict_policy_init :: "(nat \<Rightarrow> nat \<Rightarrow> zn_pair) \<Rightarrow> zn_evict_policy_type \<Rightarrow> u32 \<Rightarrow> u64 \<Rightarrow>
    zn_evict_policy res" where
  "zn_evict_policy_init garbage type nr_zones max_zone_chunks = (case type of
       ZN_EVICT_PROMOTE_ZONE \<Rightarrow> Inr (Promotional (promotional_init max_zone_chunks))
     | ZN_EVICT_CHUNK \<Rightarrow> Inr (Chunk (chunk_init garbage nr_zones max_zone_chunks))
     | ZN_EVICT_ZONE \<Rightarrow> Inl (Program_Exit 1))"

definition zn_evict_policy_get_cache_size :: "zn_cache \<Rightarrow> u64" where
  "zn_evict_policy_get_cache_size cache = (case zc_eviction_policy cache of
       Promotional p \<Rightarrow> ucast (of_nat (length (gq_nodes (pp_lru_queue p))) :: u32) * zc_zone_cap cache
     | Chunk p \<Rightarrow> ucast (of_nat (length (gq_nodes (cp_lru_queue p))) :: u32) * zc_chunk_sz cache)"

text \<open>\<open>cache->eviction_policy.update_policy(cache->eviction_policy.data, location, io_type)\<close>.\<close>

definition update_policy :: "bool \<Rightarrow> zn_pair \<Rightarrow> zn_io_type \<Rightarrow> zn_cache \<Rightarrow> zn_cache res" where
  "update_policy nd location io_type cache = (case zc_eviction_policy cache of
       Promotional p \<Rightarrow> bind_res (zn_policy_promotional_update location io_type p) (\<lambda>p'.
         Inr (cache\<lparr>zc_eviction_policy := Promotional p'\<rparr>))
     | Chunk p \<Rightarrow> bind_res (zn_policy_chunk_update nd (zc_max_zone_chunks cache) location io_type p) (\<lambda>p'.
         Inr (cache\<lparr>zc_eviction_policy := Chunk p'\<rparr>)))"

section \<open>Foreground eviction\<close>

text \<open>
  The \<open>for\<close> loop of \<open>zn_fg_evict\<close> for whole zones, with the number of iterations left.
\<close>

fun fg_evict_zones :: "bool \<Rightarrow> 'dev dev_ops \<Rightarrow> nat \<Rightarrow> zn_policy_promotional \<Rightarrow> zn_cache \<Rightarrow> 'dev \<Rightarrow>
    (zn_cache \<times> 'dev) res" where
  "fg_evict_zones nd ops 0 p cache d = Inr (cache\<lparr>zc_eviction_policy := Promotional p\<rparr>, d)"
| "fg_evict_zones nd ops (Suc n) p cache d =
     (let (zone, p') = zn_policy_promotional_get_zone_to_evict True p in
      if zone = -1 then Inr (cache\<lparr>zc_eviction_policy := Promotional p'\<rparr>, d)
      else
        bind_res (zn_cachemap_clear_zone nd (word_of_int zone) (zc_cache_map cache)) (\<lambda>cm.
        if zone < 0 then Inl Out_Of_Bounds
        else
          bind_res (arr_get (cm_active_readers cm) (nat zone)) (\<lambda>readers.
          if 0 < sint readers then Inl Blocked
          else
            bind_res (zsm_evict nd ops zone (zc_zone_state cache) d) (\<lambda>(ret, zs, d').
            c_assert nd (ret = 0)
              (fg_evict_zones nd ops n p' (cache\<lparr>zc_cache_map := cm, zc_zone_state := zs\<rparr>) d')))))"

definition zn_fg_evict :: "zn_config \<Rightarrow> 'dev dev_ops \<Rightarrow> zn_cache \<Rightarrow> 'dev \<Rightarrow> (zn_cache \<times> 'dev) res" where
  "zn_fg_evict cfg ops cache d =
     (let free_zones = zsm_get_num_free_zones (zc_zone_state cache) in
      case zc_eviction_policy cache of
        Promotional p \<Rightarrow>
          fg_evict_zones (NDEBUG cfg) ops (unat (EVICT_LOW_THRESH_ZONES cfg - free_zones)) p cache d
      | Chunk p \<Rightarrow>
          bind_res (zn_policy_chunk_evict cfg ops True (p, cache, d)) (\<lambda>(_, p', cache', d').
            Inr (cache'\<lparr>zc_eviction_policy := Chunk p'\<rparr>, d')))"

section \<open>Lookup\<close>

text \<open>
  The loop of \<open>zn_cache_get\<close> that obtains a location, \<open>None\<close> being the jump to \<open>UNDO_MAP\<close>. An
  eviction that frees nothing would repeat forever; \<open>fuel\<close> bounds the iterations.
\<close>

fun get_location :: "zn_config \<Rightarrow> 'dev dev_ops \<Rightarrow> nat \<Rightarrow> zn_cache \<Rightarrow> 'dev \<Rightarrow>
    (zn_pair option \<times> zn_cache \<times> 'dev) res" where
  "get_location cfg ops 0 cache d = Inl Out_Of_Fuel"
| "get_location cfg ops (Suc fuel) cache d =
     bind_res (zsm_get_active_zone (NDEBUG cfg) ops Indet (zc_zone_state cache) d) (\<lambda>(ret, cell, zs, d1).
       let cache1 = cache\<lparr>zc_zone_state := zs\<rparr> in
       case ret of
         ZSM_GET_ACTIVE_ZONE_RETRY \<Rightarrow> Inl Blocked
       | ZSM_GET_ACTIVE_ZONE_ERROR \<Rightarrow> Inr (None, cache1, d1)
       | ZSM_GET_ACTIVE_ZONE_EVICT \<Rightarrow>
           bind_res (zn_fg_evict cfg ops cache1 d1) (\<lambda>(cache2, d2). get_location cfg ops fuel cache2 d2)
       | ZSM_GET_ACTIVE_ZONE_SUCCESS \<Rightarrow>
           bind_res (read_cell cell) (\<lambda>location. Inr (Some location, cache1, d1)))"

text \<open>The branch for \<open>RESULT_LOC\<close>: read the chunk, update the policy, end the reading, count a hit.\<close>

definition cache_get_hit :: "bool \<Rightarrow> 'dev dev_ops \<Rightarrow> zn_pair \<Rightarrow> zn_cache \<Rightarrow> 'dev \<Rightarrow>
    (u8 list option \<times> zn_cache \<times> 'dev) res" where
  "cache_get_hit nd ops location cache d =
     bind_res (zn_read_from_disk ops (zc_fd cache) (zc_chunk_sz cache) (zc_io_size cache)
                 (zc_zone_size cache) location d) (\<lambda>(data, d1).
     bind_res (update_policy nd location ZN_READ cache) (\<lambda>cache1.
     let cm = zc_cache_map cache1; z = unat (zp_zone location) in
     bind_res (arr_get (cm_active_readers cm) z) (\<lambda>n.
       Inr (data,
            cache1\<lparr>zc_cache_map := cm\<lparr>cm_active_readers := (cm_active_readers cm)[z := n - 1]\<rparr>,
                   zc_ratio := (zc_ratio cache1)\<lparr>hr_hits := hr_hits (zc_ratio cache1) + 1\<rparr>\<rparr>,
            d1))))"

text \<open>The branch for \<open>RESULT_COND\<close>: place the chunk, write it, publish it, or undo.\<close>

definition cache_get_miss :: "zn_config \<Rightarrow> 'dev dev_ops \<Rightarrow> nat \<Rightarrow> u32 \<Rightarrow> u8 list \<Rightarrow> zn_cache \<Rightarrow> 'dev \<Rightarrow>
    (u8 list option \<times> zn_cache \<times> 'dev) res" where
  "cache_get_miss cfg ops fuel data_id random_buffer cache d =
     (let nd = NDEBUG cfg in
      bind_res (get_location cfg ops fuel cache d) (\<lambda>(loc, cache1, d1).
        case loc of
          None \<Rightarrow>
            bind_res (zn_cachemap_fail nd data_id (zc_cache_map cache1)) (\<lambda>cm.
              Inr (None, cache1\<lparr>zc_cache_map := cm\<rparr>, d1))
        | Some location \<Rightarrow>
            bind_res (zn_gen_write_buffer (zc_chunk_sz cache1) data_id random_buffer) (\<lambda>data.
            let wp = CHUNK_POINTER (zc_zone_size cache1) (zc_chunk_sz cache1)
                       (zp_chunk_offset location) (zp_zone location) in
            bind_res (zn_write_out nd ops (zc_fd cache1) (zc_chunk_sz cache1) data (zc_io_size cache1) wp d1) (\<lambda>(ret, d2).
            if ret \<noteq> 0 then
              bind_res (zsm_failed_to_write nd location (zc_zone_state cache1)) (\<lambda>zs.
              bind_res (zn_cachemap_fail nd data_id (zc_cache_map cache1)) (\<lambda>cm.
                Inr (None, cache1\<lparr>zc_zone_state := zs, zc_cache_map := cm\<rparr>, d2)))
            else
              let cache2 = cache1\<lparr>zc_ratio := (zc_ratio cache1)\<lparr>hr_misses := hr_misses (zc_ratio cache1) + 1\<rparr>\<rparr> in
              bind_res (zsm_return_active_zone nd ops location (zc_zone_state cache2) d2) (\<lambda>(_, zs, d3).
              bind_res (update_policy nd location ZN_WRITE (cache2\<lparr>zc_zone_state := zs\<rparr>)) (\<lambda>cache3.
              bind_res (zn_cachemap_insert nd data_id location (zc_cache_map cache3)) (\<lambda>cm.
                Inr (Some data, cache3\<lparr>zc_cache_map := cm\<rparr>, d3))))))))"

definition zn_cache_get :: "zn_config \<Rightarrow> 'dev dev_ops \<Rightarrow> nat \<Rightarrow> u32 \<Rightarrow> u8 list \<Rightarrow> zn_cache \<Rightarrow> 'dev \<Rightarrow>
    (u8 list option \<times> zn_cache \<times> 'dev) res" where
  "zn_cache_get cfg ops fuel data_id random_buffer cache d =
     bind_res (zn_cachemap_find data_id (zc_cache_map cache)) (\<lambda>(result, cm).
     c_assert (NDEBUG cfg) (zr_type result \<noteq> RESULT_EMPTY)
       (if zr_type result = RESULT_LOC
        then cache_get_hit (NDEBUG cfg) ops (zr_location result) (cache\<lparr>zc_cache_map := cm\<rparr>) d
        else cache_get_miss cfg ops fuel data_id random_buffer (cache\<lparr>zc_cache_map := cm\<rparr>) d))"

definition zn_init_cache :: "zn_config \<Rightarrow> (nat \<Rightarrow> nat \<Rightarrow> zn_pair) \<Rightarrow> zbd_info \<Rightarrow> u64 \<Rightarrow> u64 \<Rightarrow> int \<Rightarrow>
    zn_evict_policy_type \<Rightarrow> zn_backend \<Rightarrow> u32 list \<Rightarrow> u64 \<Rightarrow> zn_cache res" where
  "zn_init_cache cfg garbage info chunk_sz zone_cap fd policy backend workload_buffer workload_max =
     (if chunk_sz = 0 then Inl Div_By_Zero
      else
        let nr_zones = zi_nr_zones info; zone_size = zi_zone_size info;
            max_nr_active_zones =
              (if zi_max_nr_active_zones info = 0 then MAX_OPEN_ZONES else zi_max_nr_active_zones info);
            max_zone_chunks = zone_cap div chunk_sz in
        bind_res (zn_evict_policy_init garbage policy nr_zones max_zone_chunks) (\<lambda>pol.
        bind_res (zsm_init nr_zones fd zone_cap zone_size chunk_sz max_nr_active_zones backend) (\<lambda>zs.
          Inr \<lparr>zc_backend = backend, zc_fd = fd, zc_max_nr_active_zones = max_nr_active_zones,
               zc_nr_zones = nr_zones, zc_max_zone_chunks = max_zone_chunks, zc_chunk_sz = chunk_sz,
               zc_zone_cap = zone_cap, zc_zone_size = zone_size,
               zc_io_size = (if MAX_IO cfg = 0 then chunk_sz else MAX_IO cfg),
               zc_cache_map = zn_cachemap_init (unat nr_zones) (replicate (unat nr_zones) 0),
               zc_zone_state = zs,
               zc_reader = \<lparr>rd_workload_index = 0, rd_workload_buffer = workload_buffer,
                            rd_workload_max = workload_max, rd_thresh_perc = 0\<rparr>,
               zc_ratio = \<lparr>hr_hits = 0, hr_misses = 0\<rparr>,
               zc_eviction_policy = pol\<rparr>)))"

text \<open>The ratio as an exact fraction: hits over accesses, and 0 over 1 before the first access.\<close>

definition zn_cache_get_hit_ratio :: "zn_cache \<Rightarrow> nat \<times> nat" where
  "zn_cache_get_hit_ratio cache =
     (let num = unat (hr_hits (zc_ratio cache)); den = unat (hr_misses (zc_ratio cache) + hr_hits (zc_ratio cache)) in
      if den = 0 then (0, 1) else (num, den))"

section \<open>Invariant\<close>

text \<open>
  The device behind the cache: documented behaviour of the calls (\<open>content\<close> gives the stored
  bytes), zone commands that succeed; reads and writes may fail.
\<close>

definition device_ok :: "'dev dev_ops \<Rightarrow> ('dev \<Rightarrow> nat \<Rightarrow> u8) \<Rightarrow> bool" where
  "device_ok ops content \<longleftrightarrow> pwrite_ok ops content \<and> pread_ok ops content \<and> zbd_keeps_data ops content \<and>
     zbd_reliable ops"

text \<open>The sizes make sense: what \<open>zn_init_cache\<close> is given.\<close>

definition sizes_ok :: "'a zn_core_scheme \<Rightarrow> bool" where
  "sizes_ok c \<longleftrightarrow> geometry_ok (zc_zone_size c) (zc_zone_cap c) (zc_chunk_sz c) (unat (zc_nr_zones c)) \<and>
     unat (zc_nr_zones c) < 2 ^ 31 \<and> 4 \<le> unat (zc_chunk_sz c) \<and> unat (zc_chunk_sz c) < 2 ^ 32 \<and>
     0 < unat (zc_io_size c) \<and> unat (zc_io_size c) < 2 ^ 63 \<and>
     unat (zc_max_zone_chunks c) = unat (zc_zone_cap c) div unat (zc_chunk_sz c) \<and>
     0 < unat (zc_max_zone_chunks c) \<and> unat (zc_max_zone_chunks c) < 2 ^ 32 \<and>
     zsm_cfg (zc_zone_state c) = (zc_fd c, zc_zone_cap c, zc_zone_size c, zc_chunk_sz c,
       zc_max_nr_active_zones c, zc_max_zone_chunks c, zc_nr_zones c, zc_backend c)"

text \<open>The fields that no operation changes.\<close>

definition zc_static where
  "zc_static c = (zc_backend c, zc_fd c, zc_max_nr_active_zones c, zc_nr_zones c, zc_max_zone_chunks c,
     zc_chunk_sz c, zc_zone_cap c, zc_zone_size c, zc_io_size c, zc_reader c)"

lemma zc_static_frame [simp]:
  "zc_static (c\<lparr>zc_cache_map := m\<rparr>) = zc_static c" "zc_static (c\<lparr>zc_zone_state := zs\<rparr>) = zc_static c"
  "zc_static (c\<lparr>zc_ratio := rt\<rparr>) = zc_static c" "zc_static (x\<lparr>zc_eviction_policy := pol\<rparr>) = zc_static x"
  by (simp_all add: zc_static_def)

lemma zc_staticD:
  assumes "zc_static c' = zc_static c"
  shows "zc_nr_zones c' = zc_nr_zones c" "zc_chunk_sz c' = zc_chunk_sz c" "zc_max_zone_chunks c' = zc_max_zone_chunks c"
    "zc_zone_size c' = zc_zone_size c" "zc_io_size c' = zc_io_size c" "zc_zone_cap c' = zc_zone_cap c"
    "zc_reader c' = zc_reader c"
  using assms by (simp_all add: zc_static_def)

text \<open>The chunk at \<open>p\<close> holds the data of identifier \<open>i\<close>.\<close>

definition chunk_stored :: "('dev \<Rightarrow> nat \<Rightarrow> u8) \<Rightarrow> u8 list \<Rightarrow> 'a zn_core_scheme \<Rightarrow> 'dev \<Rightarrow> u32 \<Rightarrow> zn_pair \<Rightarrow> bool" where
  "chunk_stored content buf c d i p \<longleftrightarrow>
     zn_gen_write_buffer (zc_chunk_sz c) i buf =
       Inr (disk_bytes content d (unat (chunk_addr (zc_zone_size c) (zc_chunk_sz c) p)) (unat (zc_chunk_sz c)))"

text \<open>A place that has been written since its zone was last emptied.\<close>

definition place_written :: "zone_state_manager \<Rightarrow> zn_pair \<Rightarrow> bool" where
  "place_written zs p \<longleftrightarrow> unat (zp_chunk_offset p) < unat (zs_max_zone_chunks zs) \<and>
     (case zview zs (unat (zp_zone p)) of
        Full \<Rightarrow> True
      | Filling k \<Rightarrow> unat (zp_chunk_offset p) < k
      | Writing k \<Rightarrow> unat (zp_chunk_offset p) < k
      | _ \<Rightarrow> False)"

text \<open>
  The state between the steps of a call: \<open>P\<close> are the identifiers being written, \<open>W\<close> is the zone in
  the caller's hands. The policy's queue holds exactly the full zones; every located identifier has
  its data on the device, at a place that has been written.
\<close>

definition cache_inv :: "'dev dev_ops \<Rightarrow> ('dev \<Rightarrow> nat \<Rightarrow> u8) \<Rightarrow> u8 list \<Rightarrow> u32 set \<Rightarrow> (nat \<times> nat) option \<Rightarrow>
    zn_policy_promotional \<Rightarrow> 'a zn_core_scheme \<Rightarrow> 'dev \<Rightarrow> bool" where
  "cache_inv ops content buf P W p c d \<longleftrightarrow>
     sizes_ok c \<and> unat (zc_chunk_sz c) \<le> length buf \<and>
     cachemap_inv (unat (zc_nr_zones c)) (zc_cache_map c) \<and>
     cm_active_readers (zc_cache_map c) = replicate (unat (zc_nr_zones c)) 0 \<and>
     (\<forall>i. cm_slot (zc_cache_map c) i = Pending \<longleftrightarrow> i \<in> P) \<and>
     zsm_sound ops (zc_zone_state c) \<and>
     (\<forall>z < unat (zc_nr_zones c). \<forall>k. zview (zc_zone_state c) z = Writing k \<longleftrightarrow> W = Some (z, k)) \<and>
     prom_inv p \<and> ucast (pp_zone_max_chunks p) = zc_max_zone_chunks c \<and>
     (\<forall>z. z \<in> set (prom_order p) \<longleftrightarrow>
        unat z < unat (zc_nr_zones c) \<and> zview (zc_zone_state c) (unat z) = Full) \<and>
     (\<forall>i q. cm_slot (zc_cache_map c) i = Located q \<longrightarrow>
        place_written (zc_zone_state c) q \<and> chunk_stored content buf c d i q)"

lemma cache_invD:
  assumes "cache_inv ops content buf P W p c d"
  shows "sizes_ok c" "unat (zc_chunk_sz c) \<le> length buf"
    "cachemap_inv (unat (zc_nr_zones c)) (zc_cache_map c)"
    "cm_slot (zc_cache_map c) i = Pending \<longleftrightarrow> i \<in> P"
    "zsm_sound ops (zc_zone_state c)"
    "z < unat (zc_nr_zones c) \<Longrightarrow> zview (zc_zone_state c) z = Writing k \<longleftrightarrow> W = Some (z, k)"
    "prom_inv p" "ucast (pp_zone_max_chunks p) = zc_max_zone_chunks c"
    "y \<in> set (prom_order p) \<longleftrightarrow> unat y < unat (zc_nr_zones c) \<and> zview (zc_zone_state c) (unat y) = Full"
    "cm_slot (zc_cache_map c) i = Located q \<Longrightarrow> place_written (zc_zone_state c) q"
    "cm_slot (zc_cache_map c) i = Located q \<Longrightarrow> chunk_stored content buf c d i q"
    "cm_active_readers (zc_cache_map c) = replicate (unat (zc_nr_zones c)) 0"
  using assms unfolding cache_inv_def by blast+

lemma device_okD:
  assumes "device_ok ops content"
  shows "pwrite_ok ops content" "pread_ok ops content" "zbd_keeps_data ops content" "zbd_reliable ops"
  using assms by (simp_all add: device_ok_def)

lemma sizes_okD:
  assumes "sizes_ok c"
  shows "geometry_ok (zc_zone_size c) (zc_zone_cap c) (zc_chunk_sz c) (unat (zc_nr_zones c))"
    "unat (zc_nr_zones c) < 2 ^ 31" "4 \<le> unat (zc_chunk_sz c)" "unat (zc_chunk_sz c) < 2 ^ 32"
    "0 < unat (zc_io_size c)" "unat (zc_io_size c) < 2 ^ 63"
    "unat (zc_max_zone_chunks c) = unat (zc_zone_cap c) div unat (zc_chunk_sz c)"
    "0 < unat (zc_max_zone_chunks c)" "unat (zc_max_zone_chunks c) < 2 ^ 32"
    "zs_fd (zc_zone_state c) = zc_fd c" "zs_zone_cap (zc_zone_state c) = zc_zone_cap c"
    "zs_zone_size (zc_zone_state c) = zc_zone_size c" "zs_chunk_size (zc_zone_state c) = zc_chunk_sz c"
    "zs_max_zone_chunks (zc_zone_state c) = zc_max_zone_chunks c"
    "zs_num_zones (zc_zone_state c) = zc_nr_zones c"
  using assms by (simp_all add: sizes_ok_def zsm_cfg_def)

text \<open>I/O on a chunk of the device stays inside the 64-bit address space.\<close>

lemma chunk_io_ok:
  assumes s: "sizes_ok c" and z: "unat (zp_zone p) < unat (zc_nr_zones c)"
    and k: "unat (zp_chunk_offset p) < unat (zc_max_zone_chunks c)"
  shows "io_ok (zc_chunk_sz c) (zc_io_size c) (chunk_addr (zc_zone_size c) (zc_chunk_sz c) p)"
proof -
  note S = sizes_okD [OF s]
  have k': "unat (zp_chunk_offset p) < unat (zc_zone_cap c) div unat (zc_chunk_sz c)" using k S(7) by simp
  have "unat (chunk_addr (zc_zone_size c) (zc_chunk_sz c) p) + unat (zc_chunk_sz c) \<le>
      unat (zp_zone p) * unat (zc_zone_size c) + unat (zc_zone_size c)"
    unfolding chunk_addr_def CHUNK_POINTER_unat [OF S(1) z k']
    using chunk_in_zone [OF S(1) k'] S(1) by (simp add: geometry_ok_def)
  also have "\<dots> \<le> 2 ^ 64" by (rule zone_in_device [OF S(1) z])
  finally show ?thesis using S(4,5,6) by (simp add: io_ok_def)
qed

text \<open>What changes the device elsewhere keeps the chunks of the other places.\<close>

lemma chunk_stored_cong:
  assumes "chunk_stored content buf c d i p"
    "disk_bytes content d' (unat (chunk_addr (zc_zone_size c) (zc_chunk_sz c) p)) (unat (zc_chunk_sz c)) =
     disk_bytes content d (unat (chunk_addr (zc_zone_size c) (zc_chunk_sz c) p)) (unat (zc_chunk_sz c))"
  shows "chunk_stored content buf c d' i p"
  using assms by (simp add: chunk_stored_def)

lemma same_content_bytes: "content d' = content d \<Longrightarrow> disk_bytes content d' = disk_bytes content d"
  by (simp add: fun_eq_iff disk_bytes_def)

lemma zbd_same_content:
  assumes "zbd_keeps_data ops content"
  shows "content (snd (zbd_open_zones ops fd off len d)) = content d"
    "content (snd (zbd_finish_zones ops fd off len d)) = content d"
  using assms by (simp_all add: zbd_keeps_data_def)

lemma other_chunk_bytes:
  assumes s: "sizes_ok c" and ne: "\<not> same_place p q"
    and p: "unat (zp_zone p) < unat (zc_nr_zones c)" "unat (zp_chunk_offset p) < unat (zc_max_zone_chunks c)"
    and q: "unat (zp_zone q) < unat (zc_nr_zones c)" "unat (zp_chunk_offset q) < unat (zc_max_zone_chunks c)"
    and w: "same_outside content (unat (chunk_addr (zc_zone_size c) (zc_chunk_sz c) p)) (unat (zc_chunk_sz c)) d d'"
  shows "disk_bytes content d' (unat (chunk_addr (zc_zone_size c) (zc_chunk_sz c) q)) (unat (zc_chunk_sz c)) =
    disk_bytes content d (unat (chunk_addr (zc_zone_size c) (zc_chunk_sz c) q)) (unat (zc_chunk_sz c))"
proof (rule disk_bytes_cong)
  note S = sizes_okD [OF s]
  fix i assume i: "i < unat (zc_chunk_sz c)"
  let ?a = "unat (chunk_addr (zc_zone_size c) (zc_chunk_sz c) p)"
  let ?b = "unat (chunk_addr (zc_zone_size c) (zc_chunk_sz c) q)"
  have "?b + i \<noteq> ?a + j" if "j < unat (zc_chunk_sz c)" for j
    unfolding chunk_addr_def
    by (rule chunks_disjoint [OF S(1) _ q(1) p(1)]) (use ne p q S(7) i that in \<open>auto simp: same_place_def\<close>)
  then have "?b + i < ?a \<or> ?a + unat (zc_chunk_sz c) \<le> ?b + i"
    by (metis le_add_diff_inverse less_diff_conv2 not_less add.commute)
  then show "content d' (?b + i) = content d (?b + i)" using w unfolding same_outside_def by blast
qed

lemma other_zone_bytes:
  assumes s: "sizes_ok c" and ne: "unat (zp_zone q) \<noteq> z" and z: "z < unat (zc_nr_zones c)"
    and q: "unat (zp_zone q) < unat (zc_nr_zones c)" "unat (zp_chunk_offset q) < unat (zc_max_zone_chunks c)"
    and w: "\<And>a. a < z * unat (zc_zone_size c) \<or> z * unat (zc_zone_size c) + unat (zc_zone_cap c) \<le> a \<Longrightarrow>
      content d' a = content d a"
  shows "disk_bytes content d' (unat (chunk_addr (zc_zone_size c) (zc_chunk_sz c) q)) (unat (zc_chunk_sz c)) =
    disk_bytes content d (unat (chunk_addr (zc_zone_size c) (zc_chunk_sz c) q)) (unat (zc_chunk_sz c))"
proof (rule disk_bytes_cong)
  note S = sizes_okD [OF s]
  fix i assume i: "i < unat (zc_chunk_sz c)"
  have k: "unat (zp_chunk_offset q) < unat (zc_zone_cap c) div unat (zc_chunk_sz c)" using q(2) S(7) by simp
  have cap: "unat (zc_zone_cap c) \<le> unat (zc_zone_size c)" using S(1) by (simp add: geometry_ok_def)
  show "content d' (unat (chunk_addr (zc_zone_size c) (zc_chunk_sz c) q) + i) =
      content d (unat (chunk_addr (zc_zone_size c) (zc_chunk_sz c) q) + i)"
    unfolding chunk_addr_def CHUNK_POINTER_unat [OF S(1) q(1) k]
    using chunk_in_zone [OF S(1) k] i cap ne mult_separate [of z "unat (zp_zone q)" "unat (zc_zone_size c)"]
      mult_separate [of "unat (zp_zone q)" z "unat (zc_zone_size c)"]
    by (intro w) (cases "unat (zp_zone q) < z"; auto)
qed

section \<open>Eviction keeps the invariant\<close>

lemma sint_small: "unat (z :: u32) < 2 ^ 31 \<Longrightarrow> sint z = int (unat z)"
proof -
  assume "unat z < 2 ^ 31"
  then have "unat z < 2147483648" by simp
  then have "uint z < 2147483648" by (metis of_nat_less_iff of_nat_numeral uint_nat)
  moreover have "- 2147483648 \<le> uint z" by (rule order_trans [OF _ uint_ge_0]) simp
  ultimately have "signed_take_bit 31 (uint z) = uint z" by (intro signed_take_bit_int_eq_self) auto
  then show ?thesis by (simp add: sint_uint)
qed

lemma reset_content:
  assumes dev: "device_ok ops content" and s: "sizes_ok c" and z: "unat z < unat (zc_nr_zones c)"
    and d': "d' = d \<or> d' = snd (zbd_reset_zones ops fd
      (CHUNK_POINTER (zc_zone_size c) (zc_chunk_sz c) 0 z) (zc_zone_cap c) d)"
    and a: "a < unat z * unat (zc_zone_size c) \<or> unat z * unat (zc_zone_size c) + unat (zc_zone_cap c) \<le> a"
  shows "content d' a = content d a"
proof -
  note S = sizes_okD [OF s]
  have "unat (CHUNK_POINTER (zc_zone_size c) (zc_chunk_sz c) 0 z) = unat z * unat (zc_zone_size c)"
    using CHUNK_POINTER_unat [OF S(1) z, of 0] S(7,8) by simp
  then show ?thesis using d' a device_okD(3) [OF dev] unfolding zbd_keeps_data_def by auto
qed

text \<open>One turn of the eviction loop: the oldest zone leaves the policy, the map and the device.\<close>

lemma evict_zone_ok:
  assumes dev: "device_ok ops content" and inv: "cache_inv ops content buf P W p c d"
    and ord: "prom_order p = z # rest"
  shows "\<exists>p' cm zs d'. zn_policy_promotional_get_zone_to_evict True p = (int (unat z), p') \<and>
    zn_cachemap_clear_zone nd z (zc_cache_map c) = Inr cm \<and>
    cm_active_readers cm = replicate (unat (zc_nr_zones c)) 0 \<and> unat z < unat (zc_nr_zones c) \<and>
    zsm_evict nd ops (int (unat z)) (zc_zone_state c) d = Inr (0, zs, d') \<and>
    cache_inv ops content buf P W p' (c\<lparr>zc_cache_map := cm, zc_zone_state := zs\<rparr>) d' \<and>
    prom_order p' = rest \<and> zview zs = (zview (zc_zone_state c))(unat z := Free) \<and>
    cm_slot cm = evict_slots z (cm_slot (zc_cache_map c))"
proof -
  note I = cache_invD [OF inv]
  note S = sizes_okD [OF I(1)]
  have z: "unat z < unat (zc_nr_zones c)" "zview (zc_zone_state c) (unat z) = Full"
    using I(9) [of z] ord by simp_all
  obtain p' where p': "zn_policy_promotional_get_zone_to_evict True p = (sint z, p')" "prom_inv p'"
    "prom_order p' = rest" "pp_zone_max_chunks p' = pp_zone_max_chunks p" using prom_evict_ok [OF I(7) ord] by blast
  obtain cm where cm: "zn_cachemap_clear_zone nd z (zc_cache_map c) = Inr cm"
    "cachemap_inv (unat (zc_nr_zones c)) cm" "cm_slot cm = evict_slots z (cm_slot (zc_cache_map c))"
    "cm_active_readers cm = cm_active_readers (zc_cache_map c)"
    using cm.clear_zone_law [OF I(3) z(1), of nd] by blast
  obtain zs d' where zs: "zsm_evict nd ops (int (unat z)) (zc_zone_state c) d = Inr (0, zs, d')"
    "zsm_sound ops zs" "zsm_cfg zs = zsm_cfg (zc_zone_state c)" "zview zs = (zview (zc_zone_state c))(unat z := Free)"
    "d' = d \<or> d' = snd (zbd_reset_zones ops (zc_fd c)
       (CHUNK_POINTER (zc_zone_size c) (zc_chunk_sz c) 0 z) (zc_zone_cap c) d)"
    using evict_reliable [OF I(5), of "unat z" nd d] z S by auto
  define c' where "c' = c\<lparr>zc_cache_map := cm, zc_zone_state := zs\<rparr>"
  have sz: "sizes_ok c'" using I(1) zs(3) by (simp add: sizes_ok_def c'_def)
  have notin: "z \<notin> set rest" using prom_order_distinct [OF I(7)] ord by simp
  have ordr: "y \<in> set rest \<longleftrightarrow> unat y < unat (zc_nr_zones c) \<and> zview zs (unat y) = Full" for y
    using I(9) [of y] ord notin zs(4) by (cases "y = z") auto
  have loc: "place_written zs q \<and> chunk_stored content buf c' d' i q" if "cm_slot cm i = Located q" for i q
  proof -
    have q: "cm_slot (zc_cache_map c) i = Located q" "zp_zone q \<noteq> z" using that cm(3) by simp_all
    have b: "unat (zp_chunk_offset q) < unat (zc_max_zone_chunks c)"
      using I(10) [OF q(1)] S(14) by (simp add: place_written_def)
    have "disk_bytes content d' (unat (chunk_addr (zc_zone_size c) (zc_chunk_sz c) q)) (unat (zc_chunk_sz c)) =
        disk_bytes content d (unat (chunk_addr (zc_zone_size c) (zc_chunk_sz c) q)) (unat (zc_chunk_sz c))"
    proof (rule other_zone_bytes [OF I(1) _ z(1) cachemap_invD(5) [OF I(3) q(1)] b])
      show "unat (zp_zone q) \<noteq> unat z" using q(2) by simp
    qed (rule reset_content [OF dev I(1) z(1) zs(5)])
    then have "chunk_stored content buf c d' i q" by (rule chunk_stored_cong [OF I(11) [OF q(1)]])
    then show ?thesis using I(10) [OF q(1)] q(2) zs(3,4)
      by (auto simp: place_written_def chunk_stored_def c'_def zsm_cfg_def)
  qed
  have pend: "cm_slot cm i = Pending \<longleftrightarrow> i \<in> P" for i
    unfolding cm(3) using I(4) [of i] by (auto simp: evict_slots_def split: slot.splits)
  have wr: "zview zs x = Writing k \<longleftrightarrow> W = Some (x, k)" if "x < unat (zc_nr_zones c)" for x k
    using I(6) [OF that, of k] z(2) zs(4) by (cases "x = unat z") auto
  have "cache_inv ops content buf P W p' c' d'"
    unfolding cache_inv_def
    using sz I(2,8,12) wr cm(2,4) pend zs(2) p'(2-4) ordr loc by (simp add: c'_def)
  moreover have "sint z = int (unat z)" by (rule sint_small) (use z(1) S(2) in simp)
  ultimately show ?thesis using p' cm zs z(1) I(12) by (auto simp: c'_def)
qed

text \<open>
  The whole loop: it ends, keeps the invariant, and frees a zone when it may run and one is full.
\<close>

lemma fg_evict_zones_ok:
  assumes dev: "device_ok ops content"
  shows "cache_inv ops content buf P W p c d \<Longrightarrow>
    \<exists>p' c' d'. fg_evict_zones nd ops n p c d = Inr (c', d') \<and> zc_eviction_policy c' = Promotional p' \<and>
      cache_inv ops content buf P W p' c' d' \<and> zc_static c' = zc_static c \<and>
      (\<forall>i. cm_slot (zc_cache_map c) i = Absent \<longrightarrow> cm_slot (zc_cache_map c') i = Absent) \<and>
      zc_ratio c' = zc_ratio c \<and>
      (\<forall>z. zview (zc_zone_state c) z = Free \<longrightarrow> zview (zc_zone_state c') z = Free) \<and>
      (0 < n \<longrightarrow> prom_order p \<noteq> [] \<longrightarrow>
        (\<exists>z < unat (zc_nr_zones c). zview (zc_zone_state c') z = Free)) \<and>
      prom_order p' = drop n (prom_order p) \<and>
      cm_slot (zc_cache_map c') = fold evict_slots (take n (prom_order p)) (cm_slot (zc_cache_map c)) \<and>
      zview (zc_zone_state c') =
        (\<lambda>z. if z \<in> unat ` set (take n (prom_order p)) then Free else zview (zc_zone_state c) z)"
proof (induction n arbitrary: p c d)
  case 0
  then show ?case by (auto simp: cache_inv_def sizes_ok_def chunk_stored_def)
next
  case (Suc n)
  show ?case
  proof (cases "prom_order p")
    case Nil
    then have "zn_policy_promotional_get_zone_to_evict True p = (-1, p)" by (intro prom_evict_empty) simp
    then show ?thesis using Suc.prems Nil by (auto simp: cache_inv_def sizes_ok_def chunk_stored_def)
  next
    case (Cons z rest)
    obtain p' cm zs d' where e: "zn_policy_promotional_get_zone_to_evict True p = (int (unat z), p')"
      "zn_cachemap_clear_zone nd z (zc_cache_map c) = Inr cm"
      "cm_active_readers cm = replicate (unat (zc_nr_zones c)) 0" "unat z < unat (zc_nr_zones c)"
      "zsm_evict nd ops (int (unat z)) (zc_zone_state c) d = Inr (0, zs, d')"
      "cache_inv ops content buf P W p' (c\<lparr>zc_cache_map := cm, zc_zone_state := zs\<rparr>) d'"
      "zview zs = (zview (zc_zone_state c))(unat z := Free)" "prom_order p' = rest"
      "cm_slot cm = evict_slots z (cm_slot (zc_cache_map c))"
      using evict_zone_ok [OF dev Suc.prems Cons, of nd] by blast
    have "uint z \<noteq> -1" using uint_ge_0 [of z] by linarith
    then have run: "fg_evict_zones nd ops (Suc n) p c d =
        fg_evict_zones nd ops n p' (c\<lparr>zc_cache_map := cm, zc_zone_state := zs\<rparr>) d'"
      using e by simp
    have abs: "cm_slot cm i = Absent" if "cm_slot (zc_cache_map c) i = Absent" for i
      using e(9) that by (simp add: evict_slots_def)
    let ?c = "c\<lparr>zc_cache_map := cm, zc_zone_state := zs\<rparr>"
    obtain p'' c'' d'' where h: "fg_evict_zones nd ops n p' ?c d' = Inr (c'', d'')"
      "zc_eviction_policy c'' = Promotional p''" "cache_inv ops content buf P W p'' c'' d''"
      "zc_static c'' = zc_static ?c" "zc_ratio c'' = zc_ratio ?c"
      "\<forall>i. cm_slot (zc_cache_map ?c) i = Absent \<longrightarrow> cm_slot (zc_cache_map c'') i = Absent"
      "\<forall>z. zview (zc_zone_state ?c) z = Free \<longrightarrow> zview (zc_zone_state c'') z = Free"
      "prom_order p'' = drop n (prom_order p')"
      "cm_slot (zc_cache_map c'') = fold evict_slots (take n (prom_order p')) (cm_slot (zc_cache_map ?c))"
      "zview (zc_zone_state c'') =
        (\<lambda>z. if z \<in> unat ` set (take n (prom_order p')) then Free else zview (zc_zone_state ?c) z)"
      using Suc.IH [OF e(6)] by blast
    have some: "\<exists>z < unat (zc_nr_zones c). zview (zc_zone_state c'') z = Free" using h(7) e(4,7) by auto
    have keep: "\<forall>y. zview (zc_zone_state c) y = Free \<longrightarrow> zview (zc_zone_state c'') y = Free" using h(7) e(7) by auto
    have "prom_order p'' = drop (Suc n) (prom_order p) \<and>
        cm_slot (zc_cache_map c'') = fold evict_slots (take (Suc n) (prom_order p)) (cm_slot (zc_cache_map c)) \<and>
        zview (zc_zone_state c'') =
          (\<lambda>y. if y \<in> unat ` set (take (Suc n) (prom_order p)) then Free else zview (zc_zone_state c) y)"
      unfolding h(10) using h(8,9) e(7-9) Cons by (auto simp: fun_eq_iff)
    moreover have "zc_static c'' = zc_static c" "zc_ratio c'' = zc_ratio c" using h(4,5) by simp_all
    moreover have "\<forall>i. cm_slot (zc_cache_map c) i = Absent \<longrightarrow> cm_slot (zc_cache_map c'') i = Absent"
      using h(6) abs by simp
    ultimately show ?thesis unfolding run h(1) using h(2,3) some keep by blast
  qed
qed

section \<open>Obtaining a location\<close>

lemma get_location_step:
  assumes dev: "device_ok ops content" and inv: "cache_inv ops content buf P None p c d"
    and get: "zsm_get_active_zone nd ops pair (zc_zone_state c) d = Inr (ZSM_GET_ACTIVE_ZONE_SUCCESS, cell, zs, d')"
  shows "\<exists>z k. cell = Init (chunk_at z k) \<and> z < unat (zc_nr_zones c) \<and> k < unat (zc_max_zone_chunks c) \<and>
    cache_inv ops content buf P (Some (z, k)) p (c\<lparr>zc_zone_state := zs\<rparr>) d'"
proof -
  note I = cache_invD [OF inv]
  note S = sizes_okD [OF I(1)]
  obtain z k where g: "zsm_sound ops zs" "zsm_cfg zs = zsm_cfg (zc_zone_state c)"
    "d' = d \<or> (\<exists>off. d' = snd (zbd_open_zones ops (zs_fd (zc_zone_state c)) off 1 d))"
    "z < unat (zc_nr_zones c)" "k < unat (zc_max_zone_chunks c)" "cell = Init (chunk_at z k)"
    "zview (zc_zone_state c) z = Filling k \<or> zview (zc_zone_state c) z = Free \<and> k = 0"
    "zview zs = (zview (zc_zone_state c))(z := Writing k)"
    using get_reliable [OF I(5), of nd pair d] get S(14,15) by auto
  have cont: "content d' = content d" using g(3) zbd_same_content(1) [OF device_okD(3) [OF dev]] by auto
  define c' where "c' = c\<lparr>zc_zone_state := zs\<rparr>"
  have sz: "sizes_ok c'" using I(1) g(2) by (simp add: sizes_ok_def c'_def)
  have wr: "zview zs x = Writing j \<longleftrightarrow> Some (z, k) = Some (x, j)" if "x < unat (zc_nr_zones c)" for x j
    using I(6) [OF that, of j] g(8) by (cases "x = z") auto
  have ordr: "y \<in> set (prom_order p) \<longleftrightarrow> unat y < unat (zc_nr_zones c) \<and> zview zs (unat y) = Full" for y
    using I(9) [of y] g(7,8) by (cases "unat y = z") auto
  have loc: "place_written zs q \<and> chunk_stored content buf c' d' i q"
    if "cm_slot (zc_cache_map c) i = Located q" for i q
    using I(10,11) [OF that] g(2,7,8) same_content_bytes [of content d' d, OF cont]
    by (auto simp: place_written_def chunk_stored_def c'_def zsm_cfg_def)
  have "cache_inv ops content buf P (Some (z, k)) p c' d'"
    unfolding cache_inv_def using sz I(2,3,4,7,8,12) g(1) wr ordr loc by (simp add: c'_def)
  then show ?thesis using g(4-6) by (auto simp: c'_def)
qed

lemma full_zones_evictable:
  assumes inv: "cache_inv ops content buf P W p c d"
    and "0 < unat (zc_nr_zones c)" "\<forall>z < unat (zc_nr_zones c). zview (zc_zone_state c) z = Full"
  shows "prom_order p \<noteq> []"
  using cache_invD(9) [OF inv, of 0] assms(2,3) by auto

text \<open>Two iterations are enough: after an eviction there is a free zone.\<close>

lemma get_location_ok:
  assumes dev: "device_ok ops content" and inv: "cache_inv ops content buf P None p c d"
    and pol: "zc_eviction_policy c = Promotional p" and nz: "0 < unat (zc_nr_zones c)"
    and low: "0 < EVICT_LOW_THRESH_ZONES cfg"
  shows "\<exists>z k p' c' d'. get_location cfg ops (Suc (Suc fuel)) c d = Inr (Some (chunk_at z k), c', d') \<and>
    z < unat (zc_nr_zones c') \<and> k < unat (zc_max_zone_chunks c') \<and> zc_eviction_policy c' = Promotional p' \<and>
    cache_inv ops content buf P (Some (z, k)) p' c' d' \<and> zc_ratio c' = zc_ratio c \<and> zc_static c' = zc_static c \<and>
    (\<forall>i. cm_slot (zc_cache_map c) i = Absent \<longrightarrow> cm_slot (zc_cache_map c') i = Absent)"
proof -
  note I = cache_invD [OF inv]
  note S = sizes_okD [OF I(1)]
  obtain e cell zs d1 where g: "zsm_get_active_zone (NDEBUG cfg) ops Indet (zc_zone_state c) d = Inr (e, cell, zs, d1)"
    "e = ZSM_GET_ACTIVE_ZONE_SUCCESS \<or>
     e = ZSM_GET_ACTIVE_ZONE_EVICT \<and> zs = zc_zone_state c \<and> d1 = d \<and>
       (\<forall>z < unat (zc_nr_zones c). zview (zc_zone_state c) z = Full) \<or>
     e = ZSM_GET_ACTIVE_ZONE_RETRY \<and> (\<exists>z < unat (zc_nr_zones c). \<exists>k. zview (zc_zone_state c) z = Writing k)"
    using get_reliable [OF I(5), of "NDEBUG cfg" Indet d] unfolding S(15) by blast
  have "e \<noteq> ZSM_GET_ACTIVE_ZONE_RETRY" using g(2) I(6) by auto
  then consider "e = ZSM_GET_ACTIVE_ZONE_SUCCESS" | "e = ZSM_GET_ACTIVE_ZONE_EVICT"
    "zs = zc_zone_state c" "d1 = d" "\<forall>z < unat (zc_nr_zones c). zview (zc_zone_state c) z = Full"
    using g(2) by auto
  then show ?thesis
  proof cases
    case 1
    obtain z k where "cell = Init (chunk_at z k)" "z < unat (zc_nr_zones c)" "k < unat (zc_max_zone_chunks c)"
      "cache_inv ops content buf P (Some (z, k)) p (c\<lparr>zc_zone_state := zs\<rparr>) d1"
      using get_location_step [OF dev inv g(1) [unfolded 1]] by blast
    with g(1) 1 pol show ?thesis
      by (intro exI [of _ z] exI [of _ k] exI [of _ p] exI [of _ "c\<lparr>zc_zone_state := zs\<rparr>"] exI [of _ d1]) simp
  next
    case 2
    have "zs_free (zc_zone_state c) = []"
    proof (rule ccontr)
      assume "zs_free (zc_zone_state c) \<noteq> []"
      then have "hd (zs_free (zc_zone_state c)) \<in> set (zs_free (zc_zone_state c))" by simp
      with zsm_invD(8,9) [OF zsm_soundD(1) [OF I(5)]] 2(4) zsm_soundD(5) [OF I(5)] S(15) show False
        by (metis zn_zone_condition.distinct(1) zview_iff(2))
    qed
    then have n: "0 < unat (EVICT_LOW_THRESH_ZONES cfg - zsm_get_num_free_zones (zc_zone_state c))"
      using low by (simp add: zsm_get_num_free_zones_def word_less_nat_alt)
    have ne: "prom_order p \<noteq> []" by (rule full_zones_evictable [OF inv nz 2(4)])
    obtain p1 c1 d2 where e: "zn_fg_evict cfg ops c d = Inr (c1, d2)" "zc_eviction_policy c1 = Promotional p1"
      "cache_inv ops content buf P None p1 c1 d2" "zc_static c1 = zc_static c" "zc_ratio c1 = zc_ratio c"
      "\<forall>i. cm_slot (zc_cache_map c) i = Absent \<longrightarrow> cm_slot (zc_cache_map c1) i = Absent"
      "\<exists>z < unat (zc_nr_zones c). zview (zc_zone_state c1) z = Free"
      using fg_evict_zones_ok [OF dev inv, of "NDEBUG cfg" "unat (EVICT_LOW_THRESH_ZONES cfg - zsm_get_num_free_zones (zc_zone_state c))"]
        n ne pol by (auto simp: zn_fg_evict_def)
    note J = cache_invD [OF e(3)]
    obtain e' cell' zs' d3 where g': "zsm_get_active_zone (NDEBUG cfg) ops Indet (zc_zone_state c1) d2 = Inr (e', cell', zs', d3)"
      "e' = ZSM_GET_ACTIVE_ZONE_SUCCESS"
      using get_reliable [OF J(5), of "NDEBUG cfg" Indet d2] sizes_okD(15) [OF J(1)] zc_staticD(1) [OF e(4)] e(7) J(6)
      by auto
    have c: "c\<lparr>zc_zone_state := zc_zone_state c\<rparr> = c" by simp
    obtain z k where "cell' = Init (chunk_at z k)" "z < unat (zc_nr_zones c1)" "k < unat (zc_max_zone_chunks c1)"
      "cache_inv ops content buf P (Some (z, k)) p1 (c1\<lparr>zc_zone_state := zs'\<rparr>) d3"
      using get_location_step [OF dev e(3) g'(1) [unfolded g'(2)]] by blast
    with g' g(1) 2 e c show ?thesis
      by (intro exI [of _ z] exI [of _ k] exI [of _ p1] exI [of _ "c1\<lparr>zc_zone_state := zs'\<rparr>"] exI [of _ d3]) simp
  qed
qed

section \<open>Hit and miss\<close>

lemma dec_inc_reader:
  "unat z < n \<Longrightarrow> (inc_reader z (replicate n 0))[unat z := inc_reader z (replicate n 0) ! unat z - 1] = replicate n 0"
  by (simp add: inc_reader_def list_update_same_conv)

lemma cache_get_hit_ok:
  assumes dev: "device_ok ops content" and inv: "cache_inv ops content buf P W p c d"
    and pol: "zc_eviction_policy c = Promotional p"
    and loc: "cm_slot (zc_cache_map c) i = Located q"
    and cm': "cachemap_inv (unat (zc_nr_zones c)) cm'" "cm_slot cm' = cm_slot (zc_cache_map c)"
      "cm_active_readers cm' = inc_reader (zp_zone q) (cm_active_readers (zc_cache_map c))"
  shows "\<exists>r p' c' d'. cache_get_hit nd ops q (c\<lparr>zc_cache_map := cm'\<rparr>) d = Inr (r, c', d') \<and>
    zc_eviction_policy c' = Promotional p' \<and> cache_inv ops content buf P W p' c' d' \<and>
    zc_static c' = zc_static c \<and>
    cm_slot (zc_cache_map c') = cm_slot (zc_cache_map c) \<and>
    zc_ratio c' = (zc_ratio c)\<lparr>hr_hits := hr_hits (zc_ratio c) + 1\<rparr> \<and>
    (\<forall>data. r = Some data \<longrightarrow> zn_gen_write_buffer (zc_chunk_sz c) i buf = Inr data) \<and>
    (r = None \<longrightarrow> zn_read_from_disk ops (zc_fd c) (zc_chunk_sz c) (zc_io_size c) (zc_zone_size c) q d = Inr (None, d'))"
proof -
  note I = cache_invD [OF inv]
  have z: "unat (zp_zone q) < unat (zc_nr_zones c)" by (rule cachemap_invD(5) [OF I(3) loc])
  have k: "unat (zp_chunk_offset q) < unat (zc_max_zone_chunks c)"
    using I(10) [OF loc] sizes_okD(14) [OF I(1)] by (simp add: place_written_def)
  obtain r d1 where rd: "zn_read_from_disk ops (zc_fd c) (zc_chunk_sz c) (zc_io_size c) (zc_zone_size c) q d = Inr (r, d1)"
    "content d1 = content d"
    "r = None \<or> r = Some (disk_bytes content d (unat (chunk_addr (zc_zone_size c) (zc_chunk_sz c) q)) (unat (zc_chunk_sz c)))"
    using zn_read_from_disk_ok [OF device_okD(2) [OF dev] chunk_io_ok [OF I(1) z k]] by blast
  obtain p' where p': "zn_policy_promotional_update q ZN_READ p = Inr p'" "prom_inv p'"
    "prom_order p' = touch (zp_zone q) (prom_order p)" "pp_zone_max_chunks p' = pp_zone_max_chunks p"
    using prom_read_ok [OF I(7)] by blast
  have ordr: "set (prom_order p') = set (prom_order p)" by (auto simp: p'(3) touch_def)
  define cm2 where "cm2 = cm'\<lparr>cm_active_readers := (cm_active_readers cm')[unat (zp_zone q) :=
      cm_active_readers cm' ! unat (zp_zone q) - 1]\<rparr>"
  have cm2: "cm_slot cm2 = cm_slot (zc_cache_map c)"
    "cm_active_readers cm2 = replicate (unat (zc_nr_zones c)) 0" "cachemap_inv (unat (zc_nr_zones c)) cm2"
    using cm'(2,3) dec_inc_reader [OF z] I(12) by (simp_all add: cm2_def)
      (rule cachemap_inv_slots [OF cm'(1)]; simp add: inc_reader_def)
  define c' where "c' = c\<lparr>zc_cache_map := cm2, zc_eviction_policy := Promotional p',
      zc_ratio := (zc_ratio c)\<lparr>hr_hits := hr_hits (zc_ratio c) + 1\<rparr>\<rparr>"
  have len: "unat (zp_zone q) < length (cm_active_readers cm')" using cachemap_invD(2) [OF cm'(1)] z by simp
  have run: "cache_get_hit nd ops q (c\<lparr>zc_cache_map := cm'\<rparr>) d = Inr (r, c', d1)"
    using rd(1) pol p'(1) len by (simp add: cache_get_hit_def update_policy_def Let_def c'_def cm2_def)
  have st: "chunk_stored content buf c' d1 j s = chunk_stored content buf c d j s" for j s
    using same_content_bytes [of content d1 d, OF rd(2)] by (simp add: chunk_stored_def c'_def)
  have "cache_inv ops content buf P W p' c' d1"
    using inv cm2 p'(2,4) ordr st unfolding cache_inv_def by (simp add: c'_def sizes_ok_def)
  moreover have "zn_gen_write_buffer (zc_chunk_sz c) i buf = Inr data" if "r = Some data" for data
    using rd(3) that I(11) [OF loc] by (simp add: chunk_stored_def)
  ultimately show ?thesis using run rd(1) cm2(1) by (auto simp: c'_def)
qed

text \<open>Writing into the place in hand leaves every located chunk as it is.\<close>

lemma write_keeps_chunks:
  assumes inv: "cache_inv ops content buf P (Some (z, k)) p c d"
    and zk: "z < unat (zc_nr_zones c)" "k < unat (zc_max_zone_chunks c)"
    and out: "same_outside content (unat (chunk_addr (zc_zone_size c) (zc_chunk_sz c) (chunk_at z k)))
      (unat (zc_chunk_sz c)) d d'"
    and loc: "cm_slot (zc_cache_map c) i = Located q"
  shows "chunk_stored content buf c d' i q" "\<not> same_place (chunk_at z k) q"
proof -
  note I = cache_invD [OF inv]
  note S = sizes_okD [OF I(1)]
  have len: "z < length (zs_state (zc_zone_state c))" using zk(1) zsm_soundD(5) [OF I(5)] S(15) by simp
  have U: "unat (zp_zone (chunk_at z k)) = z" "unat (zp_chunk_offset (chunk_at z k)) = k"
    by (rule chunk_at_unat [OF zsm_soundD(1) [OF I(5)] len]; use zk(2) S(14) in simp)+
  have "zview (zc_zone_state c) z = Writing k" using I(6) [OF zk(1), of k] by simp
  then show ne: "\<not> same_place (chunk_at z k) q"
    using I(10) [OF loc] U by (auto simp: same_place_def place_written_def)
  have q: "unat (zp_zone q) < unat (zc_nr_zones c)" "unat (zp_chunk_offset q) < unat (zc_max_zone_chunks c)"
    using cachemap_invD(5) [OF I(3) loc] I(10) [OF loc] S(14) by (simp_all add: place_written_def)
  show "chunk_stored content buf c d' i q"
    by (rule chunk_stored_cong [OF I(11) [OF loc]])
      (rule other_chunk_bytes [OF I(1) ne _ _ q out]; use U zk in simp)
qed

lemma hold_chunk:
  assumes inv: "cache_inv ops content buf P (Some (z, k)) p c d"
    and zk: "z < unat (zc_nr_zones c)" "k < unat (zc_max_zone_chunks c)"
  shows "held (zc_zone_state c) (chunk_at z k)" "unat (zp_zone (chunk_at z k)) = z"
    "unat (zp_chunk_offset (chunk_at z k)) = k" "zview (zc_zone_state c) z = Writing k"
proof -
  note I = cache_invD [OF inv]
  note S = sizes_okD [OF I(1)]
  have len: "z < length (zs_state (zc_zone_state c))" using zk(1) zsm_soundD(5) [OF I(5)] S(15) by simp
  have k: "k < unat (zs_max_zone_chunks (zc_zone_state c))" using zk(2) S(14) by simp
  show v: "zview (zc_zone_state c) z = Writing k" using I(6) [OF zk(1), of k] by simp
  show "held (zc_zone_state c) (chunk_at z k)"
    by (simp add: held_chunk_at [OF zsm_soundD(1) [OF I(5)] len k] v)
  show "unat (zp_zone (chunk_at z k)) = z" "unat (zp_chunk_offset (chunk_at z k)) = k"
    by (rule chunk_at_unat [OF zsm_soundD(1) [OF I(5)] len k])+
qed

text \<open>The write failed: the location goes back, the identifier is absent again.\<close>

lemma miss_undo:
  assumes inv: "cache_inv ops content buf P (Some (z, k)) p c d"
    and zk: "z < unat (zc_nr_zones c)" "k < unat (zc_max_zone_chunks c)" and i: "i \<in> P"
    and out: "same_outside content (unat (chunk_addr (zc_zone_size c) (zc_chunk_sz c) (chunk_at z k)))
      (unat (zc_chunk_sz c)) d d'"
  shows "\<exists>zs cm. zsm_failed_to_write nd (chunk_at z k) (zc_zone_state c) = Inr zs \<and>
    zn_cachemap_fail nd i (zc_cache_map c) = Inr cm \<and> cm_slot cm = (cm_slot (zc_cache_map c))(i := Absent) \<and>
    cache_inv ops content buf (P - {i}) None p (c\<lparr>zc_zone_state := zs, zc_cache_map := cm\<rparr>) d'"
proof -
  note I = cache_invD [OF inv] and H = hold_chunk [OF inv zk]
  obtain zs where zs: "zsm_failed_to_write nd (chunk_at z k) (zc_zone_state c) = Inr zs" "zsm_sound ops zs"
    "zsm_cfg zs = zsm_cfg (zc_zone_state c)" "zview zs = (zview (zc_zone_state c))(z := Filling k)"
    using failed_reliable [OF I(5) H(1), of nd] H(2,3) by auto
  have pend: "cm_slot (zc_cache_map c) i = Pending" using I(4) i by simp
  obtain cm where cm: "zn_cachemap_fail nd i (zc_cache_map c) = Inr cm" "cachemap_inv (unat (zc_nr_zones c)) cm"
    "cm_slot cm = (cm_slot (zc_cache_map c))(i := Absent)"
    "cm_active_readers cm = cm_active_readers (zc_cache_map c)" using cm.fail_law [OF I(3) pend, of nd] by blast
  define c' where "c' = c\<lparr>zc_zone_state := zs, zc_cache_map := cm\<rparr>"
  have sz: "sizes_ok c'" using I(1) zs(3) by (simp add: sizes_ok_def c'_def)
  have wr: "zview zs x \<noteq> Writing j" if "x < unat (zc_nr_zones c)" for x j
    using I(6) [OF that, of j] zs(4) by (cases "x = z") auto
  have ordr: "y \<in> set (prom_order p) \<longleftrightarrow> unat y < unat (zc_nr_zones c) \<and> zview zs (unat y) = Full" for y
    using I(9) [of y] H(4) zs(4) by (cases "unat y = z") auto
  have loc: "place_written zs q \<and> chunk_stored content buf c' d' j q" if "cm_slot cm j = Located q" for j q
  proof -
    have l: "cm_slot (zc_cache_map c) j = Located q" using that cm(3) by (auto split: if_splits)
    have "zview zs (unat (zp_zone q)) = (if unat (zp_zone q) = z then Filling k
        else zview (zc_zone_state c) (unat (zp_zone q)))" by (simp add: zs(4))
    then show ?thesis using write_keeps_chunks(1) [OF inv zk out l] I(10) [OF l] H(4) zs(3)
      by (auto simp: place_written_def chunk_stored_def c'_def zsm_cfg_def)
  qed
  have "cm_slot cm j = Pending \<longleftrightarrow> j \<in> P - {i}" for j using I(4) [of j] cm(3) by simp
  then have "cache_inv ops content buf (P - {i}) None p c' d'"
    unfolding cache_inv_def using sz I(2,7,8,12) cm(2,4) zs(2) wr ordr loc by (simp add: c'_def)
  then show ?thesis using zs(1) cm(1,3) by (auto simp: c'_def)
qed

text \<open>The policy after a write: the zone joins the queue exactly when its last chunk was written.\<close>

lemma policy_after_write:
  assumes inv: "cache_inv ops content buf P (Some (z, k)) p c d"
    and zk: "z < unat (zc_nr_zones c)" "k < unat (zc_max_zone_chunks c)"
  shows "\<exists>p'. zn_policy_promotional_update (chunk_at z k) ZN_WRITE p = Inr p' \<and> prom_inv p' \<and>
    pp_zone_max_chunks p' = pp_zone_max_chunks p \<and>
    (\<forall>y. y \<in> set (prom_order p') \<longleftrightarrow> y \<in> set (prom_order p) \<or> unat y = z \<and> k + 1 = unat (zc_max_zone_chunks c))"
proof -
  note I = cache_invD [OF inv] and H = hold_chunk [OF inv zk]
  have mx: "unat (pp_zone_max_chunks p) = unat (zc_max_zone_chunks c)"
    using I(8) by (metis unat_ucast_u32_u64)
  then have "0 < pp_zone_max_chunks p" using sizes_okD(8) [OF I(1)] by (simp add: word_less_nat_alt)
  then have "unat (pp_zone_max_chunks p - 1) = unat (zc_max_zone_chunks c) - 1" by (simp add: unat_dec mx)
  then have last: "zp_chunk_offset (chunk_at z k) = pp_zone_max_chunks p - 1 \<longleftrightarrow> k + 1 = unat (zc_max_zone_chunks c)"
    unfolding unat_inject [symmetric] H(3) using zk(2) by auto
  have z: "unat y = z \<longleftrightarrow> y = zp_zone (chunk_at z k)" for y using H(2) by (metis unat_inject)
  show ?thesis
  proof (cases "k + 1 = unat (zc_max_zone_chunks c)")
    case True
    have "zp_zone (chunk_at z k) \<notin> set (prom_order p)" using I(9) [of "zp_zone (chunk_at z k)"] H(2,4) by simp
    from prom_fill_ok [OF I(7) last [THEN iffD2, OF True] this] True show ?thesis
      unfolding z by auto
  next
    case False
    then show ?thesis using prom_write_ok [of "chunk_at z k" p] last I(7) by auto
  qed
qed

text \<open>The write succeeded: the zone moves on, the policy learns of it, the identifier is published.\<close>

lemma miss_publish:
  assumes dev: "device_ok ops content" and inv: "cache_inv ops content buf P (Some (z, k)) p c d"
    and pol: "zc_eviction_policy c = Promotional p"
    and zk: "z < unat (zc_nr_zones c)" "k < unat (zc_max_zone_chunks c)" and i: "i \<in> P" "id_ok i"
    and out: "same_outside content (unat (chunk_addr (zc_zone_size c) (zc_chunk_sz c) (chunk_at z k)))
      (unat (zc_chunk_sz c)) d d1"
    and st: "chunk_stored content buf c d1 i (chunk_at z k)"
  shows "\<exists>zs d' c' p' cm. zsm_return_active_zone nd ops (chunk_at z k) (zc_zone_state c) d1 = Inr (0, zs, d') \<and>
    update_policy nd (chunk_at z k) ZN_WRITE (c\<lparr>zc_ratio := rt, zc_zone_state := zs\<rparr>) = Inr c' \<and>
    zn_cachemap_insert nd i (chunk_at z k) (zc_cache_map c') = Inr cm \<and>
    c'\<lparr>zc_cache_map := cm\<rparr> = c\<lparr>zc_ratio := rt, zc_zone_state := zs, zc_eviction_policy := Promotional p', zc_cache_map := cm\<rparr> \<and>
    cm_slot cm = (cm_slot (zc_cache_map c))(i := Located (chunk_at z k)) \<and>
    cache_inv ops content buf (P - {i}) None p' (c'\<lparr>zc_cache_map := cm\<rparr>) d'"
proof -
  note I = cache_invD [OF inv] and H = hold_chunk [OF inv zk]
  note S = sizes_okD [OF I(1)]
  define w where "w = (if k + 1 < unat (zc_max_zone_chunks c) then Filling (k + 1) else Full)"
  have aw: "after_write (zc_zone_state c) (unat (zp_chunk_offset (chunk_at z k))) 0 = w"
    by (simp add: after_write_def w_def H(3) S(14))
  obtain zs d' where zs: "zsm_return_active_zone nd ops (chunk_at z k) (zc_zone_state c) d1 = Inr (0, zs, d')"
    "zsm_sound ops zs" "zsm_cfg zs = zsm_cfg (zc_zone_state c)" "zview zs = (zview (zc_zone_state c))(z := w)"
    "d' = d1 \<or> (\<exists>off. d' = snd (zbd_finish_zones ops (zs_fd (zc_zone_state c)) off (zs_zone_cap (zc_zone_state c)) d1))"
    using ret_reliable [OF I(5) H(1), of nd d1] unfolding H(2) aw by blast
  have cont: "content d' = content d1" using zs(5) zbd_same_content(2) [OF device_okD(3) [OF dev]] by auto
  obtain p' where p': "zn_policy_promotional_update (chunk_at z k) ZN_WRITE p = Inr p'" "prom_inv p'"
    "pp_zone_max_chunks p' = pp_zone_max_chunks p"
    "\<And>y. y \<in> set (prom_order p') \<longleftrightarrow> y \<in> set (prom_order p) \<or> unat y = z \<and> k + 1 = unat (zc_max_zone_chunks c)"
    using policy_after_write [OF inv zk] by blast
  have free: "place_free (cm_slot (zc_cache_map c)) (chunk_at z k)"
    using write_keeps_chunks(2) [OF inv zk out] by (auto simp: place_free_def)
  have pend: "cm_slot (zc_cache_map c) i = Pending" using I(4) i(1) by simp
  obtain cm where cm: "zn_cachemap_insert nd i (chunk_at z k) (zc_cache_map c) = Inr cm"
    "cachemap_inv (unat (zc_nr_zones c)) cm" "cm_slot cm = (cm_slot (zc_cache_map c))(i := Located (chunk_at z k))"
    "cm_active_readers cm = cm_active_readers (zc_cache_map c)"
    using cm.insert_law [OF I(3) pend i(2) _ free, of nd] zk(1) H(2) by auto
  define c' where "c' = c\<lparr>zc_ratio := rt, zc_zone_state := zs, zc_eviction_policy := Promotional p'\<rparr>"
  define c'' where "c'' = c'\<lparr>zc_cache_map := cm\<rparr>"
  have sz: "sizes_ok c''" using I(1) zs(3) by (simp add: sizes_ok_def c''_def c'_def)
  have wr: "zview zs x \<noteq> Writing j" if "x < unat (zc_nr_zones c)" for x j
    using I(6) [OF that, of j] zs(4) by (cases "x = z") (auto simp: w_def)
  have ordr: "y \<in> set (prom_order p') \<longleftrightarrow> unat y < unat (zc_nr_zones c) \<and> zview zs (unat y) = Full" for y
    using I(9) [of y] p'(4) [of y] H(4) zs(4) zk by (cases "unat y = z") (auto simp: w_def)
  have mx: "zs_max_zone_chunks zs = zc_max_zone_chunks c" using zs(3) S(14) by (simp add: zsm_cfg_def)
  have loc: "place_written zs q \<and> chunk_stored content buf c'' d' j q" if "cm_slot cm j = Located q" for j q
  proof (cases "j = i")
    case True
    then have "q = chunk_at z k" using that cm(3) by simp
    then show ?thesis using True st H(2,3) zs(4) zk(2) mx same_content_bytes [of content d' d1, OF cont]
      by (auto simp: place_written_def chunk_stored_def c''_def c'_def w_def)
  next
    case False
    then have l: "cm_slot (zc_cache_map c) j = Located q" using that cm(3) by simp
    have "zview zs (unat (zp_zone q)) = (if unat (zp_zone q) = z then w
        else zview (zc_zone_state c) (unat (zp_zone q)))" by (simp add: zs(4))
    then show ?thesis using write_keeps_chunks(1) [OF inv zk out l] I(10) [OF l] H(4) mx S(14)
        same_content_bytes [of content d' d1, OF cont]
      by (auto simp: place_written_def chunk_stored_def c''_def c'_def w_def)
  qed
  have "cm_slot cm j = Pending \<longleftrightarrow> j \<in> P - {i}" for j using I(4) [of j] cm(3) by simp
  then have "cache_inv ops content buf (P - {i}) None p' c'' d'"
    unfolding cache_inv_def using sz I(2,8,12) cm(2,4) zs(2) wr ordr loc p'(2,3) by (simp add: c''_def c'_def)
  moreover have "update_policy nd (chunk_at z k) ZN_WRITE (c\<lparr>zc_ratio := rt, zc_zone_state := zs\<rparr>) = Inr c'"
    using pol p'(1) by (simp add: update_policy_def c'_def)
  ultimately show ?thesis using zs(1) cm(1,3) by (auto simp: c''_def c'_def)
qed

section \<open>The whole call\<close>

text \<open>A cache with the promotional policy, between calls.\<close>

definition cache_ready :: "'dev dev_ops \<Rightarrow> ('dev \<Rightarrow> nat \<Rightarrow> u8) \<Rightarrow> u8 list \<Rightarrow> zn_cache \<Rightarrow> 'dev \<Rightarrow> bool" where
  "cache_ready ops content buf c d \<longleftrightarrow> 0 < unat (zc_nr_zones c) \<and>
     (\<exists>p. zc_eviction_policy c = Promotional p \<and> cache_inv ops content buf {} None p c d)"

definition cached :: "zn_cache \<Rightarrow> u32 \<Rightarrow> bool" where
  "cached c i \<longleftrightarrow> (\<exists>q. cm_slot (zc_cache_map c) i = Located q)"

definition aligned :: "'a zn_core_scheme \<Rightarrow> bool" where
  "aligned c \<longleftrightarrow> zc_zone_size c mod 4096 = 0 \<and> zc_chunk_sz c mod 4096 = 0 \<and> zc_io_size c mod 4096 = 0"

lemma unat_mod_4096: "(w :: u64) mod 4096 = 0 \<longleftrightarrow> unat w mod 4096 = 0"
proof -
  have "unat (w mod 4096) = unat w mod 4096" by (simp add: unat_mod_distrib)
  then show ?thesis by (metis unat_eq_zero)
qed

lemma chunk_addr_aligned:
  assumes s: "sizes_ok c" and a: "aligned c" and z: "unat (zp_zone p) < unat (zc_nr_zones c)"
    and k: "unat (zp_chunk_offset p) < unat (zc_max_zone_chunks c)"
  shows "chunk_addr (zc_zone_size c) (zc_chunk_sz c) p mod 4096 = 0"
proof -
  note S = sizes_okD [OF s]
  have "unat (zp_chunk_offset p) < unat (zc_zone_cap c) div unat (zc_chunk_sz c)" using k S(7) by simp
  then have "unat (chunk_addr (zc_zone_size c) (zc_chunk_sz c) p) =
      unat (zp_zone p) * unat (zc_zone_size c) + unat (zp_chunk_offset p) * unat (zc_chunk_sz c)"
    unfolding chunk_addr_def by (rule CHUNK_POINTER_unat [OF S(1) z])
  moreover have "4096 dvd unat (zc_zone_size c)" "4096 dvd unat (zc_chunk_sz c)"
    using a unfolding aligned_def unat_mod_4096 by auto
  ultimately show ?thesis unfolding unat_mod_4096 by (simp add: dvd_eq_mod_eq_0 [symmetric])
qed

lemma cache_get_miss_ok:
  assumes dev: "device_ok ops content" and inv: "cache_inv ops content buf P None p c d"
    and pol: "zc_eviction_policy c = Promotional p" and nz: "0 < unat (zc_nr_zones c)"
    and low: "0 < EVICT_LOW_THRESH_ZONES cfg" and i: "i \<in> P" "id_ok i"
  shows "\<exists>r p' c' d'. cache_get_miss cfg ops (Suc (Suc fuel)) i buf c d = Inr (r, c', d') \<and>
    zc_eviction_policy c' = Promotional p' \<and> cache_inv ops content buf (P - {i}) None p' c' d' \<and> zc_static c' = zc_static c \<and>
    (\<forall>data. r = Some data \<longrightarrow> zn_gen_write_buffer (zc_chunk_sz c') i buf = Inr data \<and> cached c' i \<and>
       zc_ratio c' = (zc_ratio c)\<lparr>hr_misses := hr_misses (zc_ratio c) + 1\<rparr>) \<and>
    (r = None \<longrightarrow> \<not> cached c' i \<and> zc_ratio c' = zc_ratio c \<and> \<not> io_reliable ops)"
proof -
  obtain z k p1 c1 d1 where g: "get_location cfg ops (Suc (Suc fuel)) c d = Inr (Some (chunk_at z k), c1, d1)"
    "z < unat (zc_nr_zones c1)" "k < unat (zc_max_zone_chunks c1)" "zc_eviction_policy c1 = Promotional p1"
    "cache_inv ops content buf P (Some (z, k)) p1 c1 d1" "zc_ratio c1 = zc_ratio c" "zc_static c1 = zc_static c"
    using get_location_ok [OF dev inv pol nz low] by blast
  note I = cache_invD [OF g(5)] and H = hold_chunk [OF g(5,2,3)]
  note S = sizes_okD [OF I(1)]
  let ?wp = "chunk_addr (zc_zone_size c1) (zc_chunk_sz c1) (chunk_at z k)"
  obtain data where data: "zn_gen_write_buffer (zc_chunk_sz c1) i buf = Inr data" "length data = unat (zc_chunk_sz c1)"
    using zn_gen_write_buffer_ok [OF S(3) I(2), of i] by blast
  have io: "io_ok (zc_chunk_sz c1) (zc_io_size c1) ?wp" by (rule chunk_io_ok [OF I(1)]) (use H g in simp_all)
  obtain r d2 where w: "zn_write_out (NDEBUG cfg) ops (zc_fd c1) (zc_chunk_sz c1) data (zc_io_size c1) ?wp d1 = Inr (r, d2)"
    "same_outside content (unat ?wp) (unat (zc_chunk_sz c1)) d1 d2"
    "r = 0 \<longrightarrow> disk_bytes content d2 (unat ?wp) (unat (zc_chunk_sz c1)) = data" "r = 0 \<or> r = -1"
    using zn_write_out_ok [OF device_okD(1) [OF dev] io, of data "NDEBUG cfg" "zc_fd c1" d1] data(2) by auto
  show ?thesis
  proof (cases "r = 0")
    case False
    then have w1: "zn_write_out (NDEBUG cfg) ops (zc_fd c1) (zc_chunk_sz c1) data (zc_io_size c1) ?wp d1 = Inr (-1, d2)"
      using w(1,4) by simp
    have "\<not> io_reliable ops"
    proof
      assume "io_reliable ops"
      from zn_write_out_reliable [OF this io] w1 show False by blast
    qed
    moreover obtain zs cm where "zsm_failed_to_write (NDEBUG cfg) (chunk_at z k) (zc_zone_state c1) = Inr zs"
      "zn_cachemap_fail (NDEBUG cfg) i (zc_cache_map c1) = Inr cm"
      "cm_slot cm = (cm_slot (zc_cache_map c1))(i := Absent)"
      "cache_inv ops content buf (P - {i}) None p1 (c1\<lparr>zc_zone_state := zs, zc_cache_map := cm\<rparr>) d2"
      using miss_undo [OF g(5,2,3) i(1) w(2)] by blast
    ultimately show ?thesis using g(1,4,6,7) data(1) w(1) False
      by (simp add: cache_get_miss_def Let_def chunk_addr_def cached_def)
  next
    case True
    then have st: "chunk_stored content buf c1 d2 i (chunk_at z k)" using w(3) data(1) by (simp add: chunk_stored_def)
    define rt where "rt = (zc_ratio c1)\<lparr>hr_misses := hr_misses (zc_ratio c1) + 1\<rparr>"
    obtain zs d3 c2 p2 cm where m: "zsm_return_active_zone (NDEBUG cfg) ops (chunk_at z k) (zc_zone_state c1) d2 = Inr (0, zs, d3)"
      "update_policy (NDEBUG cfg) (chunk_at z k) ZN_WRITE (c1\<lparr>zc_ratio := rt, zc_zone_state := zs\<rparr>) = Inr c2"
      "zn_cachemap_insert (NDEBUG cfg) i (chunk_at z k) (zc_cache_map c2) = Inr cm"
      "c2\<lparr>zc_cache_map := cm\<rparr> = c1\<lparr>zc_ratio := rt, zc_zone_state := zs, zc_eviction_policy := Promotional p2, zc_cache_map := cm\<rparr>"
      "cm_slot cm = (cm_slot (zc_cache_map c1))(i := Located (chunk_at z k))"
      "cache_inv ops content buf (P - {i}) None p2 (c2\<lparr>zc_cache_map := cm\<rparr>) d3"
      using miss_publish [OF dev g(5,4,2,3) i w(2) st] by blast
    have "cache_get_miss cfg ops (Suc (Suc fuel)) i buf c d = Inr (Some data, c2\<lparr>zc_cache_map := cm\<rparr>, d3)"
      using g(1) data(1) w(1) True m(1-3) by (simp add: cache_get_miss_def Let_def chunk_addr_def rt_def)
    then show ?thesis using m(4-6) data(1) g(6,7) by (simp add: cached_def rt_def)
  qed
qed

lemma find_located_run:
  assumes "cachemap_inv nz m" "cm_slot m i = Located q"
  shows "\<exists>r m'. zn_cachemap_find i m = Inr (r, m') \<and> zr_type r = RESULT_LOC \<and> zr_location r = q \<and>
    cachemap_inv nz m' \<and> cm_slot m' = cm_slot m \<and>
    cm_active_readers m' = inc_reader (zp_zone q) (cm_active_readers m)"
  using cm.find_hit [OF assms] by (auto simp: zn_cachemap_find_def)

lemma find_absent_run:
  assumes "cachemap_inv nz m" "cm_slot m i = Absent"
  shows "\<exists>r m'. zn_cachemap_find i m = Inr (r, m') \<and> zr_type r = RESULT_COND \<and>
    cachemap_inv nz m' \<and> cm_slot m' = (cm_slot m)(i := Pending) \<and> cm_active_readers m' = cm_active_readers m"
  using cm.find_miss [OF assms] by (auto simp: zn_cachemap_find_def)

text \<open>
  One call on a consistent cache ends in a consistent cache. It returns \<open>NULL\<close> or the data of the
  identifier; on a hit nothing moves, on a miss the identifier is cached afterwards if and only if
  data is returned; \<open>NULL\<close> is only returned when the device fails or sizes are not aligned.
\<close>

lemma zn_cache_get_ok:
  assumes dev: "device_ok ops content" and rdy: "cache_ready ops content buf c d"
    and low: "0 < EVICT_LOW_THRESH_ZONES cfg" and i: "id_ok i"
  shows "\<exists>r c' d'. zn_cache_get cfg ops (Suc (Suc fuel)) i buf c d = Inr (r, c', d') \<and>
    cache_ready ops content buf c' d' \<and> zc_static c' = zc_static c \<and>
    (\<forall>data. r = Some data \<longrightarrow> zn_gen_write_buffer (zc_chunk_sz c') i buf = Inr data \<and> cached c' i) \<and>
    (cached c i \<longrightarrow> cached c' i \<and> zc_ratio c' = (zc_ratio c)\<lparr>hr_hits := hr_hits (zc_ratio c) + 1\<rparr>) \<and>
    (\<not> cached c i \<longrightarrow> (cached c' i \<longleftrightarrow> r \<noteq> None) \<and>
       zc_ratio c' = (if r = None then zc_ratio c else (zc_ratio c)\<lparr>hr_misses := hr_misses (zc_ratio c) + 1\<rparr>)) \<and>
    (r = None \<longrightarrow> \<not> (io_reliable ops \<and> aligned c))"
proof -
  obtain p where pol: "zc_eviction_policy c = Promotional p" and inv: "cache_inv ops content buf {} None p c d"
    and nz: "0 < unat (zc_nr_zones c)" using rdy by (auto simp: cache_ready_def)
  note I = cache_invD [OF inv]
  show ?thesis
  proof (cases "cached c i")
    case True
    then obtain q where q: "cm_slot (zc_cache_map c) i = Located q" by (auto simp: cached_def)
    obtain x cm' where f: "zn_cachemap_find i (zc_cache_map c) = Inr (x, cm')" "zr_type x = RESULT_LOC" "zr_location x = q"
      "cachemap_inv (unat (zc_nr_zones c)) cm'" "cm_slot cm' = cm_slot (zc_cache_map c)"
      "cm_active_readers cm' = inc_reader (zp_zone q) (cm_active_readers (zc_cache_map c))"
      using find_located_run [OF I(3) q] by blast
    obtain r p' c' d' where h: "cache_get_hit (NDEBUG cfg) ops q (c\<lparr>zc_cache_map := cm'\<rparr>) d = Inr (r, c', d')"
      "zc_eviction_policy c' = Promotional p'" "cache_inv ops content buf {} None p' c' d'"
      "zc_static c' = zc_static c" "cm_slot (zc_cache_map c') = cm_slot (zc_cache_map c)"
      "zc_ratio c' = (zc_ratio c)\<lparr>hr_hits := hr_hits (zc_ratio c) + 1\<rparr>"
      "\<forall>data. r = Some data \<longrightarrow> zn_gen_write_buffer (zc_chunk_sz c) i buf = Inr data"
      "r = None \<longrightarrow> zn_read_from_disk ops (zc_fd c) (zc_chunk_sz c) (zc_io_size c) (zc_zone_size c) q d = Inr (None, d')"
      using cache_get_hit_ok [OF dev inv pol q f(4-6), of "NDEBUG cfg"] by blast
    have z: "unat (zp_zone q) < unat (zc_nr_zones c)" "unat (zp_chunk_offset q) < unat (zc_max_zone_chunks c)"
      using cachemap_invD(5) [OF I(3) q] I(10) [OF q] sizes_okD(14) [OF I(1)] by (simp_all add: place_written_def)
    have "r \<noteq> None" if a: "io_reliable ops" "aligned c"
    proof
      assume "r = None"
      then have "zn_read_from_disk ops (zc_fd c) (zc_chunk_sz c) (zc_io_size c) (zc_zone_size c) q d = Inr (None, d')"
        using h(8) by blast
      moreover have "zn_read_from_disk ops (zc_fd c) (zc_chunk_sz c) (zc_io_size c) (zc_zone_size c) q d \<noteq> Inr (None, d')"
        by (rule zn_read_from_disk_reliable [OF a(1) chunk_io_ok [OF I(1) z] _ _ chunk_addr_aligned [OF I(1) a(2) z]])
          (use a(2) in \<open>simp_all add: aligned_def\<close>)
      ultimately show False by blast
    qed
    then show ?thesis using f(1-3) h zc_staticD(1,2) [OF h(4)] nz q True by (auto simp: zn_cache_get_def cache_ready_def cached_def)
  next
    case False
    have "cm_slot (zc_cache_map c) i = Absent"
      using False I(4) [of i] by (cases "cm_slot (zc_cache_map c) i") (auto simp: cached_def)
    then obtain x cm' where f: "zn_cachemap_find i (zc_cache_map c) = Inr (x, cm')" "zr_type x = RESULT_COND"
      "cachemap_inv (unat (zc_nr_zones c)) cm'" "cm_slot cm' = (cm_slot (zc_cache_map c))(i := Pending)"
      "cm_active_readers cm' = cm_active_readers (zc_cache_map c)"
      using find_absent_run [OF I(3)] by blast
    have inv': "cache_inv ops content buf {i} None p (c\<lparr>zc_cache_map := cm'\<rparr>) d"
      using inv f(3-5) unfolding cache_inv_def by (auto simp: sizes_ok_def chunk_stored_def split: if_splits)
    obtain r p' c' d' where m: "cache_get_miss cfg ops (Suc (Suc fuel)) i buf (c\<lparr>zc_cache_map := cm'\<rparr>) d = Inr (r, c', d')"
      "zc_eviction_policy c' = Promotional p'" "cache_inv ops content buf {} None p' c' d'" "zc_static c' = zc_static c"
      "\<forall>data. r = Some data \<longrightarrow> zn_gen_write_buffer (zc_chunk_sz c') i buf = Inr data \<and> cached c' i \<and>
         zc_ratio c' = (zc_ratio c)\<lparr>hr_misses := hr_misses (zc_ratio c) + 1\<rparr>"
      "r = None \<longrightarrow> \<not> cached c' i \<and> zc_ratio c' = zc_ratio c \<and> \<not> io_reliable ops"
      using cache_get_miss_ok [OF dev inv' _ _ low _ i, of fuel] pol nz by auto
    show ?thesis using f(1,2) m zc_staticD(1) [OF m(4)] nz False by (cases r) (auto simp: zn_cache_get_def cache_ready_def)
  qed
qed

section \<open>Initialisation and runs\<close>

text \<open>What a sensible command line and device give \<open>zn_init_cache\<close>.\<close>

definition init_sizes_ok :: "zn_config \<Rightarrow> zbd_info \<Rightarrow> u64 \<Rightarrow> u64 \<Rightarrow> u8 list \<Rightarrow> bool" where
  "init_sizes_ok cfg info chunk_sz zone_cap buf \<longleftrightarrow>
     geometry_ok (zi_zone_size info) zone_cap chunk_sz (unat (zi_nr_zones info)) \<and>
     0 < unat (zi_nr_zones info) \<and> unat (zi_nr_zones info) < 2 ^ 31 \<and>
     4 \<le> unat chunk_sz \<and> unat chunk_sz < 2 ^ 32 \<and> unat chunk_sz \<le> length buf \<and>
     0 < unat zone_cap div unat chunk_sz \<and> unat zone_cap div unat chunk_sz < 2 ^ 32 \<and>
     unat (MAX_IO cfg) < 2 ^ 63"

lemma zn_init_cache_ok:
  assumes dev: "device_ok ops content" and sz: "init_sizes_ok cfg info chunk_sz zone_cap buf"
  shows "\<exists>c. zn_init_cache cfg garbage info chunk_sz zone_cap fd ZN_EVICT_PROMOTE_ZONE be wb wm = Inr c \<and>
    cache_ready ops content buf c d \<and> (\<forall>i. \<not> cached c i) \<and> zc_ratio c = \<lparr>hr_hits = 0, hr_misses = 0\<rparr> \<and>
    zc_chunk_sz c = chunk_sz \<and> zc_zone_size c = zi_zone_size info \<and>
    zc_io_size c = (if MAX_IO cfg = 0 then chunk_sz else MAX_IO cfg)"
proof -
  define mx where "mx = (if zi_max_nr_active_zones info = 0 then MAX_OPEN_ZONES else zi_max_nr_active_zones info)"
  have mx: "0 < mx" by (simp add: mx_def MAX_OPEN_ZONES_def word_gt_0)
  have s: "0 < unat zone_cap div unat chunk_sz" "unat zone_cap div unat chunk_sz < 2 ^ 32" "chunk_sz \<noteq> 0"
    using sz by (auto simp: init_sizes_ok_def)
  obtain zs where zs: "zsm_init (zi_nr_zones info) fd zone_cap (zi_zone_size info) chunk_sz mx be = Inr zs"
    "zsm_inv zs" "zsm_tight zs" "\<forall>z < unat (zi_nr_zones info). zz_state (zone_at zs z) = ZN_ZONE_FREE"
    "length (zs_state zs) = unat (zi_nr_zones info)"
    using zsm_init_ok [OF s(1,2)] by blast
  have cfg: "zsm_cfg zs = (fd, zone_cap, zi_zone_size info, chunk_sz, mx, zone_cap div chunk_sz, zi_nr_zones info, be)"
    using zs(1) s(3) by (auto simp: zsm_init_def zsm_cfg_def)
  have snd: "zsm_sound ops zs" using zs(2,3) mx device_okD(4) [OF dev] cfg by (simp add: zsm_sound_def zsm_cfg_def)
  have free: "zview zs z = Free" if "z < unat (zi_nr_zones info)" for z using zs(4) that by (simp add: zview_iff)
  define io where "io = (if MAX_IO cfg = 0 then chunk_sz else MAX_IO cfg)"
  have io: "0 < unat io" "unat io < 2 ^ 63" using sz by (auto simp: io_def init_sizes_ok_def unat_gt_0)
  have div: "unat (zone_cap div chunk_sz) = unat zone_cap div unat chunk_sz" by (rule unat_div_distrib)
  have pp: "ucast (ucast (zone_cap div chunk_sz) :: u32) = zone_cap div chunk_sz"
  proof -
    have "unat (ucast (zone_cap div chunk_sz) :: u32) = unat (zone_cap div chunk_sz)"
      using s(2) div by (simp add: unsigned_ucast_eq take_bit_nat_eq_self)
    then show ?thesis by (metis unat_inject unat_ucast_u32_u64)
  qed
  define c where "c = \<lparr>zc_backend = be, zc_fd = fd, zc_max_nr_active_zones = mx,
     zc_nr_zones = zi_nr_zones info, zc_max_zone_chunks = zone_cap div chunk_sz, zc_chunk_sz = chunk_sz,
     zc_zone_cap = zone_cap, zc_zone_size = zi_zone_size info, zc_io_size = io,
     zc_cache_map = zn_cachemap_init (unat (zi_nr_zones info)) (replicate (unat (zi_nr_zones info)) 0),
     zc_zone_state = zs,
     zc_reader = \<lparr>rd_workload_index = 0, rd_workload_buffer = wb, rd_workload_max = wm, rd_thresh_perc = 0\<rparr>,
     zc_ratio = \<lparr>hr_hits = 0, hr_misses = 0\<rparr>,
     zc_eviction_policy = Promotional (promotional_init (zone_cap div chunk_sz))\<rparr>"
  have run: "zn_init_cache cfg garbage info chunk_sz zone_cap fd ZN_EVICT_PROMOTE_ZONE be wb wm = Inr c"
    using zs(1) s(3) by (simp add: zn_init_cache_def zn_evict_policy_init_def Let_def c_def io_def mx_def)
  have sizes: "sizes_ok c" using sz io div cfg by (simp add: sizes_ok_def init_sizes_ok_def c_def)
  have "cache_inv ops content buf {} None (promotional_init (zone_cap div chunk_sz)) c d"
    unfolding cache_inv_def
  proof (intro conjI allI impI)
    show "cachemap_inv (unat (zc_nr_zones c)) (zc_cache_map c)" by (simp add: c_def init_ok(1))
    show "cm_active_readers (zc_cache_map c) = replicate (unat (zc_nr_zones c)) 0"
      by (simp add: c_def zn_cachemap_init_def)
    show "ucast (pp_zone_max_chunks (promotional_init (zone_cap div chunk_sz))) = zc_max_zone_chunks c"
      using pp by (simp add: c_def promotional_init_def)
  qed (use sizes sz snd free in \<open>auto simp: c_def init_ok(2) init_sizes_ok_def\<close>)
  then show ?thesis using run sz by (auto simp: cache_ready_def cached_def init_ok(2) c_def io_def init_sizes_ok_def)
qed

lemma zn_init_cache_reader:
  assumes "zn_init_cache cfg garbage info chunk_sz zone_cap fd policy be wb wm = Inr c"
  shows "zc_reader c = \<lparr>rd_workload_index = 0, rd_workload_buffer = wb, rd_workload_max = wm, rd_thresh_perc = 0\<rparr>"
  using assms by (auto simp: zn_init_cache_def Let_def bind_res_def split: if_splits sum.splits)

text \<open>A sequence of calls, with the results.\<close>

fun cache_run :: "zn_config \<Rightarrow> 'dev dev_ops \<Rightarrow> nat \<Rightarrow> u8 list \<Rightarrow> u32 list \<Rightarrow> zn_cache \<Rightarrow> 'dev \<Rightarrow>
    (u8 list option list \<times> zn_cache \<times> 'dev) res" where
  "cache_run cfg ops fuel buf [] c d = Inr ([], c, d)"
| "cache_run cfg ops fuel buf (i # is) c d =
     bind_res (zn_cache_get cfg ops fuel i buf c d) (\<lambda>(r, c1, d1).
     bind_res (cache_run cfg ops fuel buf is c1 d1) (\<lambda>(rs, c2, d2). Inr (r # rs, c2, d2)))"

lemma cache_run_ok:
  assumes dev: "device_ok ops content" and low: "0 < EVICT_LOW_THRESH_ZONES cfg"
  shows "cache_ready ops content buf c d \<Longrightarrow> \<forall>i \<in> set is. id_ok i \<Longrightarrow>
    \<exists>rs c' d'. cache_run cfg ops (Suc (Suc fuel)) buf is c d = Inr (rs, c', d') \<and>
      cache_ready ops content buf c' d' \<and> zc_static c' = zc_static c \<and> length rs = length is \<and>
      (\<forall>k < length is. \<forall>data. rs ! k = Some data \<longrightarrow> zn_gen_write_buffer (zc_chunk_sz c) (is ! k) buf = Inr data) \<and>
      (io_reliable ops \<and> aligned c \<longrightarrow> None \<notin> set rs \<and>
        (unat (hr_hits (zc_ratio c)) + unat (hr_misses (zc_ratio c)) + length is < 2 ^ 64 \<longrightarrow>
         unat (hr_hits (zc_ratio c')) + unat (hr_misses (zc_ratio c')) =
           unat (hr_hits (zc_ratio c)) + unat (hr_misses (zc_ratio c)) + length is))"
proof (induction "is" arbitrary: c d)
  case (Cons i "is")
  obtain r c1 d1 where g: "zn_cache_get cfg ops (Suc (Suc fuel)) i buf c d = Inr (r, c1, d1)"
    "cache_ready ops content buf c1 d1" "zc_static c1 = zc_static c"
    "\<forall>data. r = Some data \<longrightarrow> zn_gen_write_buffer (zc_chunk_sz c1) i buf = Inr data"
    "cached c i \<longrightarrow> zc_ratio c1 = (zc_ratio c)\<lparr>hr_hits := hr_hits (zc_ratio c) + 1\<rparr>"
    "\<not> cached c i \<longrightarrow> zc_ratio c1 = (if r = None then zc_ratio c else (zc_ratio c)\<lparr>hr_misses := hr_misses (zc_ratio c) + 1\<rparr>)"
    "r = None \<longrightarrow> \<not> (io_reliable ops \<and> aligned c)"
    using zn_cache_get_ok [OF dev Cons.prems(1) low, of i fuel] Cons.prems(2) by auto
  from Cons.IH [OF g(2)] Cons.prems(2) obtain rs c2 d2 where
    h: "cache_run cfg ops (Suc (Suc fuel)) buf is c1 d1 = Inr (rs, c2, d2)" "cache_ready ops content buf c2 d2"
    "zc_static c2 = zc_static c1" "length rs = length is"
    "\<forall>k < length is. \<forall>data. rs ! k = Some data \<longrightarrow> zn_gen_write_buffer (zc_chunk_sz c1) (is ! k) buf = Inr data"
    "io_reliable ops \<and> aligned c1 \<longrightarrow> None \<notin> set rs \<and>
        (unat (hr_hits (zc_ratio c1)) + unat (hr_misses (zc_ratio c1)) + length is < 2 ^ 64 \<longrightarrow>
         unat (hr_hits (zc_ratio c2)) + unat (hr_misses (zc_ratio c2)) =
           unat (hr_hits (zc_ratio c1)) + unat (hr_misses (zc_ratio c1)) + length is)" by auto
  have al: "aligned c1 = aligned c" using zc_staticD(2,4,5) [OF g(3)] by (simp add: aligned_def)
  have count: "unat (hr_hits (zc_ratio c1)) + unat (hr_misses (zc_ratio c1)) =
      unat (hr_hits (zc_ratio c)) + unat (hr_misses (zc_ratio c)) + 1"
    if "r \<noteq> None" "unat (hr_hits (zc_ratio c)) + unat (hr_misses (zc_ratio c)) + 1 < 2 ^ 64"
    using that g(5,6) unat_inc [of "hr_hits (zc_ratio c)"] unat_inc [of "hr_misses (zc_ratio c)"]
    by (cases "cached c i") auto
  have dat: "\<forall>k < length (i # is). \<forall>data. (r # rs) ! k = Some data \<longrightarrow>
      zn_gen_write_buffer (zc_chunk_sz c) ((i # is) ! k) buf = Inr data"
    using g(4) h(5) zc_staticD(2) [OF g(3)] by (simp add: nth_Cons split: nat.split)
  have rel: "None \<notin> set (r # rs) \<and>
        (unat (hr_hits (zc_ratio c)) + unat (hr_misses (zc_ratio c)) + length (i # is) < 2 ^ 64 \<longrightarrow>
         unat (hr_hits (zc_ratio c2)) + unat (hr_misses (zc_ratio c2)) =
           unat (hr_hits (zc_ratio c)) + unat (hr_misses (zc_ratio c)) + length (i # is))"
    if a: "io_reliable ops \<and> aligned c"
  proof -
    have r: "r \<noteq> None" using g(7) a by blast
    show ?thesis using h(6) a al r count [OF r] by auto
  qed
  have "cache_run cfg ops (Suc (Suc fuel)) buf (i # is) c d = Inr (r # rs, c2, d2)" using g(1) h(1) by simp
  then show ?case using h(2,3,4) g(3) dat rel by (intro exI [of _ "r # rs"] exI [of _ c2] exI [of _ d2]) simp
qed auto

section \<open>Small devices\<close>

lemma ram_device_ok: "device_ok ram_ops (\<lambda>d. d)"
  using ram_ops_ok by (simp add: device_ok_def zbd_reliable_def ram_ops_def)

lemma fuel_two: "2 \<le> fuel \<Longrightarrow> Suc (Suc (fuel - 2)) = fuel"
  by simp

text \<open>The configuration and device of the witnesses: two zones of two chunks of 4096 bytes.\<close>

abbreviation no_garbage :: "nat \<Rightarrow> nat \<Rightarrow> zn_pair" where
  "no_garbage \<equiv> \<lambda>_ _. pair_at 0 0"

abbreviation two_zones :: zbd_info where
  "two_zones \<equiv> \<lparr>zi_nr_zones = 2, zi_max_nr_active_zones = 0, zi_zone_size = 8192\<rparr>"

lemma two_zones_sizes: "init_sizes_ok default_config two_zones 4096 8192 (replicate 4096 7)"
  by (simp add: init_sizes_ok_def geometry_ok_def default_config_def)

text \<open>
  A started cache that evaluation reaches quickly: two zones of two chunks of 4 bytes, and a device
  whose writes all fail.
\<close>

definition tiny_start :: zn_cache where
  "tiny_start = projr (zn_init_cache default_config no_garbage
     \<lparr>zi_nr_zones = 2, zi_max_nr_active_zones = 0, zi_zone_size = 8\<rparr> 4 8 3 ZN_EVICT_PROMOTE_ZONE
     ZE_BACKEND_ZNS [] 0)"

abbreviation no_write_ops :: "(nat \<Rightarrow> u8) dev_ops" where
  "no_write_ops \<equiv> ram_ops\<lparr>dev_pwrite := \<lambda>_ _ _ d. (-1, d)\<rparr>"

lemma no_write_device_ok: "device_ok no_write_ops (\<lambda>d. d)"
  by (simp add: device_ok_def zbd_reliable_def ram_ops_def pwrite_ok_def pread_ok_def zbd_keeps_data_def)

lemma tiny_start_ok:
  assumes "device_ok ops content"
  shows "cache_ready ops content (replicate 4 7) tiny_start d \<and> \<not> cached tiny_start i"
  using zn_init_cache_ok [OF assms, of default_config "\<lparr>zi_nr_zones = 2, zi_max_nr_active_zones = 0, zi_zone_size = 8\<rparr>"
      4 8 "replicate 4 7" no_garbage 3 ZE_BACKEND_ZNS "[]" 0 d]
  by (auto simp: tiny_start_def init_sizes_ok_def geometry_ok_def default_config_def)

lemma default_low: "0 < EVICT_LOW_THRESH_ZONES default_config"
  by (simp add: default_config_def)

end
