(* ===== verification/ZN_Workload.thy ===== *)
theory ZN_Workload
  imports ZN_Cache
begin

text \<open>
  The program around the cache, \<open>src/zncache.c\<close>: reading the workload, handing out its requests, the
  worker and the eviction task. System calls and \<open>libzbd\<close> are parameters. Printing, clock readings and metrics are
  left out.
\<close>

section \<open>The workload file\<close>

text \<open>
  What \<open>read\<close> gives: a failure that is \<open>EINTR\<close>, another failure, or bytes (none at the end of the
  file). The first argument is the number of bytes asked for.
\<close>

datatype read_result = Read_Intr | Read_Error | Read_Bytes "u8 list"

text \<open>
  The loop of \<open>read_workload\<close>. \<open>buffer\<close> is the memory the caller allocated, as bytes; \<open>buffer\<close> in
  the source has type \<open>uint32_t *\<close>, so \<open>buffer + total_bytes_read\<close> is \<open>4 * total_bytes_read\<close> bytes
  further. Storing outside the memory is the error \<open>Out_Of_Bounds\<close>. A file that is always
  interrupted keeps the loop going; \<open>fuel\<close> bounds it.
\<close>

definition store_bytes :: "nat \<Rightarrow> u8 list \<Rightarrow> u8 list \<Rightarrow> u8 list res" where
  "store_bytes off bs memory =
     (if length memory < off + length bs then Inl Out_Of_Bounds
      else Inr (take off memory @ bs @ drop (off + length bs) memory))"

fun read_workload_loop :: "(u64 \<Rightarrow> 'f \<Rightarrow> read_result \<times> 'f) \<Rightarrow> u64 \<Rightarrow> nat \<Rightarrow> u64 \<Rightarrow> u8 list \<Rightarrow> 'f \<Rightarrow>
    ((int + u64) \<times> u8 list \<times> 'f) res" where
  "read_workload_loop rd sz 0 total_bytes_read buffer f = Inl Out_Of_Fuel"
| "read_workload_loop rd sz (Suc fuel) total_bytes_read buffer f =
     (if total_bytes_read < sz then
        case rd (sz - total_bytes_read) f of
          (Read_Intr, f') \<Rightarrow> read_workload_loop rd sz fuel total_bytes_read buffer f'
        | (Read_Error, f') \<Rightarrow> Inr (Inl 1, buffer, f')
        | (Read_Bytes bs, f') \<Rightarrow>
            if bs = [] then Inr (Inr total_bytes_read, buffer, f')
            else
              bind_res (store_bytes (4 * unat total_bytes_read) bs buffer) (\<lambda>buffer'.
                read_workload_loop rd sz fuel (total_bytes_read + of_nat (length bs)) buffer' f')
      else Inr (Inr total_bytes_read, buffer, f))"

definition read_workload :: "(u64 \<Rightarrow> 'f \<Rightarrow> read_result \<times> 'f) \<Rightarrow> nat \<Rightarrow> u8 list \<Rightarrow> u64 \<Rightarrow> 'f \<Rightarrow>
    (int \<times> u8 list \<times> 'f) res" where
  "read_workload rd fuel buffer sz f =
     bind_res (read_workload_loop rd sz fuel 0 buffer f) (\<lambda>(r, buffer', f').
       case r of
         Inl ret \<Rightarrow> Inr (ret, buffer', f')
       | Inr total_bytes_read \<Rightarrow> Inr (if total_bytes_read \<noteq> sz then 1 else 0, buffer', f'))"

section \<open>Handing out requests\<close>

definition PRINT_THRESH_PERCENT :: u64 where
  "PRINT_THRESH_PERCENT = 1"

text \<open>
  The part of \<open>task_function\<close> under the reader's lock: the index of the next request, the
  percentage and whether to print it, or \<open>None\<close> when the workload is finished.
\<close>

definition claim_request :: "zn_reader \<Rightarrow> (u64 \<times> u64 \<times> bool) option \<times> zn_reader" where
  "claim_request reader =
     (if rd_workload_max reader \<le> rd_workload_index reader then (None, reader)
      else
        let wi = rd_workload_index reader;
            percent = (wi * 100) div rd_workload_max reader;
            print = (rd_thresh_perc reader \<le> percent) in
        (Some (wi, percent, print),
         reader\<lparr>rd_workload_index := wi + 1,
                rd_thresh_perc := (if print then rd_thresh_perc reader + PRINT_THRESH_PERCENT else rd_thresh_perc reader)\<rparr>))"

section \<open>The worker task\<close>

datatype task_outcome = Task_Finished | Task_Failed | Task_Served

text \<open>One iteration of the worker's loop. \<open>verify\<close> is the build option; \<open>NDEBUG\<close> removes the check.\<close>

definition task_step :: "zn_config \<Rightarrow> bool \<Rightarrow> 'dev dev_ops \<Rightarrow> nat \<Rightarrow> u8 list \<Rightarrow> zn_cache \<Rightarrow> 'dev \<Rightarrow>
    (task_outcome \<times> zn_cache \<times> 'dev) res" where
  "task_step cfg verify ops fuel RANDOM_DATA cache d =
     (case claim_request (zc_reader cache) of
        (None, r) \<Rightarrow> Inr (Task_Finished, cache\<lparr>zc_reader := r\<rparr>, d)
      | (Some (wi, percent, print), r) \<Rightarrow>
          bind_res (arr_get (rd_workload_buffer r) (unat wi)) (\<lambda>data_id.
          bind_res (zn_cache_get cfg ops fuel data_id RANDOM_DATA (cache\<lparr>zc_reader := r\<rparr>) d) (\<lambda>(data, cache', d').
            case data of
              None \<Rightarrow> Inr (Task_Failed, cache', d')
            | Some bytes \<Rightarrow>
                if verify \<and> \<not> NDEBUG cfg then
                  bind_res (zn_validate_read (zc_chunk_sz cache') bytes data_id RANDOM_DATA) (\<lambda>ret.
                    c_assert False (ret = 0) (Inr (Task_Served, cache', d')))
                else Inr (Task_Served, cache', d'))))"

text \<open>The loop, with a bound on the iterations; the flag tells whether the loop was left at its end.\<close>

fun task_loop :: "zn_config \<Rightarrow> bool \<Rightarrow> 'dev dev_ops \<Rightarrow> nat \<Rightarrow> u8 list \<Rightarrow> nat \<Rightarrow> zn_cache \<Rightarrow> 'dev \<Rightarrow>
    (bool \<times> zn_cache \<times> 'dev) res" where
  "task_loop cfg verify ops fuel RANDOM_DATA 0 cache d = Inl Out_Of_Fuel"
| "task_loop cfg verify ops fuel RANDOM_DATA (Suc n) cache d =
     bind_res (task_step cfg verify ops fuel RANDOM_DATA cache d) (\<lambda>(outcome, cache', d').
       case outcome of
         Task_Finished \<Rightarrow> Inr (True, cache', d')
       | Task_Failed \<Rightarrow> Inr (False, cache', d')
       | Task_Served \<Rightarrow> task_loop cfg verify ops fuel RANDOM_DATA n cache' d')"

text \<open>What the threads share through \<open>struct zn_thread_data\<close> besides the cache.\<close>

record zn_thread_data =
  td_nr_threads :: u32
  td_nr_threads_completed :: u32
  td_done :: bool
  td_loop_quit :: bool

text \<open>The end of \<open>task_function\<close>, under \<open>thread_counter_lock\<close>.\<close>

definition task_complete :: "zn_thread_data \<Rightarrow> zn_thread_data" where
  "task_complete td =
     (let completed = td_nr_threads_completed td + 1 in
      if completed = td_nr_threads td
      then td\<lparr>td_nr_threads_completed := completed, td_loop_quit := True, td_done := True\<rparr>
      else td\<lparr>td_nr_threads_completed := completed\<rparr>)"

definition task_function :: "zn_config \<Rightarrow> bool \<Rightarrow> 'dev dev_ops \<Rightarrow> nat \<Rightarrow> u8 list \<Rightarrow> nat \<Rightarrow> zn_thread_data \<Rightarrow>
    zn_cache \<Rightarrow> 'dev \<Rightarrow> (zn_thread_data \<times> zn_cache \<times> 'dev) res" where
  "task_function cfg verify ops fuel RANDOM_DATA n td cache d =
     bind_res (task_loop cfg verify ops fuel RANDOM_DATA n cache d) (\<lambda>(finished, cache', d').
       Inr (if finished then task_complete td else td, cache', d'))"

section \<open>The eviction task\<close>

text \<open>One iteration of \<open>evict_task\<close>; the flag tells whether it goes on.\<close>

definition evict_task_step :: "zn_config \<Rightarrow> 'dev dev_ops \<Rightarrow> bool \<Rightarrow> zn_cache \<Rightarrow> 'dev \<Rightarrow>
    (bool \<times> zn_cache \<times> 'dev) res" where
  "evict_task_step cfg ops done_flag cache d =
     (if done_flag then Inr (False, cache, d)
      else
        let free_zones = zsm_get_num_free_zones (zc_zone_state cache) in
        if free_zones > EVICT_HIGH_THRESH_ZONES cfg then Inr (True, cache, d)
        else c_assert (NDEBUG cfg) (EVICT_LOW_THRESH_ZONES cfg - free_zones > 0)
          (bind_res (zn_fg_evict cfg ops cache d) (\<lambda>(cache', d'). Inr (True, cache', d'))))"

text \<open>The task, given what each test of \<open>*thread_data->done\<close> reads.\<close>

fun evict_task :: "zn_config \<Rightarrow> 'dev dev_ops \<Rightarrow> bool list \<Rightarrow> zn_cache \<Rightarrow> 'dev \<Rightarrow> (zn_cache \<times> 'dev) res" where
  "evict_task cfg ops [] cache d = Inl Out_Of_Fuel"
| "evict_task cfg ops (done_flag # flags) cache d =
     bind_res (evict_task_step cfg ops done_flag cache d) (\<lambda>(go_on, cache', d').
       if go_on then evict_task cfg ops flags cache' d' else Inr (cache', d'))"

section \<open>Reading the workload\<close>

text \<open>A file as the sequence of results its \<open>read\<close> calls give.\<close>

definition script_read :: "u64 \<Rightarrow> read_result list \<Rightarrow> read_result \<times> read_result list" where
  "script_read n rs = (case rs of [] \<Rightarrow> (Read_Bytes [], []) | r # rs' \<Rightarrow> (r, rs'))"

lemma read_skips_interrupts:
  "t < sz \<Longrightarrow> read_workload_loop script_read sz (k + fuel) t buffer (replicate k Read_Intr @ rs) =
     read_workload_loop script_read sz fuel t buffer rs"
  by (induction k) (simp_all add: script_read_def)

lemma read_workload_one:
  assumes "0 < sz" and "length bs = unat sz" and "length buffer = unat sz"
  shows "read_workload script_read (k + 2) buffer sz (replicate k Read_Intr @ Read_Bytes bs # rest) = Inr (0, bs, rest)"
proof -
  have "bs \<noteq> []" using assms(1,2) by (auto simp: word_gt_0 unat_eq_0)
  moreover have "of_nat (length bs) = sz" using assms(2) by simp
  ultimately have "read_workload_loop script_read sz 2 0 buffer (Read_Bytes bs # rest) = Inr (Inr sz, bs, rest)"
    using assms by (simp add: numeral_2_eq_2 script_read_def store_bytes_def)
  then show ?thesis unfolding read_workload_def read_skips_interrupts [OF assms(1)] by simp
qed

text \<open>C34. A workload file that arrives in two pieces is not read but written past the end of the memory: the
  second \<open>read\<close> stores at four times the offset, since the byte count is added to a \<open>uint32_t *\<close>.\<close>

theorem read_workload_short_read_overflows:
  assumes "bs1 \<noteq> []" and "bs2 \<noteq> []" and "length bs1 + length bs2 = unat sz" and "length buffer = unat sz"
  shows "read_workload script_read (Suc (Suc fuel)) buffer sz (Read_Bytes bs1 # Read_Bytes bs2 # rest) = Inl Out_Of_Bounds"
proof -
  have l1: "0 < length bs1" "length bs1 < unat sz"
    using assms(1-3) by (cases bs1; cases bs2; simp)+
  have u: "unat (of_nat (length bs1) :: u64) = length bs1"
    using l1(2) by (intro unat_of_nat_less [of _ sz]) simp
  then have "of_nat (length bs1) < sz" "0 < sz" using l1 by (simp_all add: word_less_nat_alt)
  moreover have "store_bytes 0 bs1 buffer = Inr (bs1 @ drop (length bs1) buffer)"
    using assms(4) l1(2) by (simp add: store_bytes_def)
  moreover have "store_bytes (4 * length bs1) bs2 (bs1 @ drop (length bs1) buffer) = Inl Out_Of_Bounds"
  proof -
    have "unat sz < 4 * length bs1 + length bs2" using assms(3) l1(1) by linarith
    then show ?thesis using assms(4) l1(2) by (simp add: store_bytes_def)
  qed
  ultimately show ?thesis using assms(1,2) u by (simp add: read_workload_def script_read_def)
qed

theorem read_workload_short_read_overflows_witness:
  "read_workload script_read (Suc (Suc 0)) (replicate 8 0) 8 (Read_Bytes [1, 0, 0, 0] # Read_Bytes [2, 0, 0, 0] # []) = Inl Out_Of_Bounds"
  by (rule read_workload_short_read_overflows) simp_all

section \<open>Requests are handed out once\<close>

text \<open>Successive claims, by whichever workers.\<close>

fun claims :: "nat \<Rightarrow> zn_reader \<Rightarrow> u64 option list" where
  "claims 0 reader = []"
| "claims (Suc n) reader = (let (r, reader') = claim_request reader in map_option fst r # claims n reader')"

lemma claim_request_reader:
  assumes "claim_request r = (x, r')"
  shows "rd_workload_max r' = rd_workload_max r" "rd_workload_buffer r' = rd_workload_buffer r"
    "rd_workload_max r \<le> rd_workload_index r \<Longrightarrow> x = None \<and> r' = r"
    "rd_workload_index r < rd_workload_max r \<Longrightarrow>
      map_option fst x = Some (rd_workload_index r) \<and> rd_workload_index r' = rd_workload_index r + 1"
  using assms by (auto simp: claim_request_def Let_def not_le split: if_splits)

lemma claims_from:
  "unat (rd_workload_index r) \<le> unat (rd_workload_max r) \<Longrightarrow>
   claims n r = map (\<lambda>k. if k < unat (rd_workload_max r) then Some (of_nat k) else None)
     [unat (rd_workload_index r) ..< unat (rd_workload_index r) + n]"
proof (induction n arbitrary: r)
  case (Suc n)
  obtain x r' where c: "claim_request r = (x, r')" by fastforce
  note R = claim_request_reader [OF c]
  show ?case
  proof (cases "rd_workload_index r < rd_workload_max r")
    case True
    then have i: "unat (rd_workload_index r + 1) = Suc (unat (rd_workload_index r))" "unat (rd_workload_index r) < unat (rd_workload_max r)"
      using unat_inc_less [OF True] by (simp_all add: word_less_nat_alt)
    then show ?thesis using c R(1) R(4) [OF True] Suc.IH [of r'] by (simp add: upt_conv_Cons del: upt_Suc)
  next
    case False
    then have e: "unat (rd_workload_index r) = unat (rd_workload_max r)" using Suc.prems by (simp add: word_less_nat_alt)
    have none: "map (\<lambda>k. if k < unat (rd_workload_max r) then Some (of_nat k) else None)
        [unat (rd_workload_max r) ..< unat (rd_workload_max r) + m] = replicate m (None :: u64 option)" for m
      by (induction m) (simp_all add: replicate_append_same)
    have "claims n r = replicate n None" using Suc.IH [of r] e none [of n] by simp
    then show ?thesis unfolding e none using c R(3) False by (simp add: not_less)
  qed
qed simp

text \<open>Whatever the number of workers and the order in which they ask, the requests of the workload are
  handed out in order, each exactly once, and after the last one every worker is told to finish.\<close>

lemma requests_claimed_once:
  assumes "rd_workload_index r = 0"
  shows "claims n r = map (\<lambda>k. Some (of_nat k)) [0 ..< min n (unat (rd_workload_max r))] @
    replicate (n - unat (rd_workload_max r)) None"
proof -
  have "claims n r = map (\<lambda>k. if k < unat (rd_workload_max r) then Some (of_nat k) else None) [0 ..< n]"
    using claims_from [of r n] assms by simp
  also have "\<dots> = map (\<lambda>k. Some (of_nat k)) [0 ..< min n (unat (rd_workload_max r))] @
      replicate (n - unat (rd_workload_max r)) None"
    by (rule nth_equalityI) (auto simp: nth_append)
  finally show ?thesis .
qed

section \<open>Workers and the eviction task\<close>

definition workload_ok :: "zn_reader \<Rightarrow> bool" where
  "workload_ok r \<longleftrightarrow> unat (rd_workload_max r) \<le> length (rd_workload_buffer r) \<and> (\<forall>i \<in> set (rd_workload_buffer r). id_ok i)"

lemma cache_ready_reader [simp]: "cache_ready ops content buf (c\<lparr>zc_reader := r\<rparr>) d = cache_ready ops content buf c d"
  by (simp add: cache_ready_def cache_inv_def sizes_ok_def chunk_stored_def)

lemma aligned_reader [simp]: "aligned (c\<lparr>zc_reader := r\<rparr>) = aligned c"
  by (simp add: aligned_def)

lemma generated_validates:
  assumes "cache_ready ops content buf c d" and "zn_gen_write_buffer (zc_chunk_sz c) i buf = Inr data"
  shows "zn_validate_read (zc_chunk_sz c) data i buf = Inr 0"
  by (rule generated_valid [OF _ _ _ assms(2)]) (use assms(1) in \<open>auto simp: cache_ready_def cache_inv_def sizes_ok_def\<close>)

text \<open>
  One iteration of a worker on a consistent cache: it ends, no assertion fails, the cache stays
  consistent, and it takes one request from the workload if there is one.
\<close>

lemma task_step_ok:
  assumes dev: "device_ok ops content" and rdy: "cache_ready ops content buf c d"
    and low: "0 < EVICT_LOW_THRESH_ZONES cfg" and wl: "workload_ok (zc_reader c)" and fuel: "2 \<le> fuel"
  shows "\<exists>out c' d'. task_step cfg verify ops fuel buf c d = Inr (out, c', d') \<and>
    cache_ready ops content buf c' d' \<and> workload_ok (zc_reader c') \<and> aligned c' = aligned c \<and>
    rd_workload_max (zc_reader c') = rd_workload_max (zc_reader c) \<and>
    (if rd_workload_index (zc_reader c) < rd_workload_max (zc_reader c)
     then out \<noteq> Task_Finished \<and> rd_workload_index (zc_reader c') = rd_workload_index (zc_reader c) + 1
     else out = Task_Finished \<and> zc_ratio c' = zc_ratio c) \<and>
    (out = Task_Failed \<longrightarrow> \<not> (io_reliable ops \<and> aligned c)) \<and>
    (out = Task_Served \<longrightarrow> io_reliable ops \<and> aligned c \<longrightarrow>
       unat (hr_hits (zc_ratio c)) + unat (hr_misses (zc_ratio c)) + 1 < 2 ^ 64 \<longrightarrow>
       unat (hr_hits (zc_ratio c')) + unat (hr_misses (zc_ratio c')) =
         unat (hr_hits (zc_ratio c)) + unat (hr_misses (zc_ratio c)) + 1)"
proof -
  obtain x r where c: "claim_request (zc_reader c) = (x, r)" by fastforce
  note R = claim_request_reader [OF c]
  have wl': "workload_ok r" using wl R(1,2) by (simp add: workload_ok_def)
  show ?thesis
  proof (cases "rd_workload_index (zc_reader c) < rd_workload_max (zc_reader c)")
    case False
    then show ?thesis using c R(3) rdy wl by (simp add: task_step_def not_less)
  next
    case True
    then obtain percent print where x: "x = Some (rd_workload_index (zc_reader c), percent, print)"
      and i: "rd_workload_index r = rd_workload_index (zc_reader c) + 1" using R(4) by auto
    let ?k = "unat (rd_workload_index (zc_reader c))"
    define i where "i = rd_workload_buffer r ! ?k"
    have k: "?k < length (rd_workload_buffer r)" using True wl R(2) by (simp add: workload_ok_def word_less_nat_alt)
    then have id: "id_ok i" using wl' by (simp add: workload_ok_def i_def)
    have get: "arr_get (rd_workload_buffer r) ?k = Inr i" using k by (simp add: i_def arr_get_def)
    let ?c = "c\<lparr>zc_reader := r\<rparr>"
    obtain res c' d' where g: "zn_cache_get cfg ops fuel i buf ?c d = Inr (res, c', d')"
      "cache_ready ops content buf c' d'" "zc_static c' = zc_static ?c"
      "\<forall>data. res = Some data \<longrightarrow> zn_gen_write_buffer (zc_chunk_sz c') i buf = Inr data"
      "cached ?c i \<longrightarrow> zc_ratio c' = (zc_ratio ?c)\<lparr>hr_hits := hr_hits (zc_ratio ?c) + 1\<rparr>"
      "\<not> cached ?c i \<longrightarrow> zc_ratio c' = (if res = None then zc_ratio ?c else (zc_ratio ?c)\<lparr>hr_misses := hr_misses (zc_ratio ?c) + 1\<rparr>)"
      "res = None \<longrightarrow> \<not> (io_reliable ops \<and> aligned ?c)"
      using zn_cache_get_ok [OF dev, of buf ?c d cfg i "fuel - 2"] rdy low id unfolding fuel_two [OF fuel] by auto
    have st: "zc_reader c' = r" "aligned c' = aligned c" using zc_staticD [OF g(3)] by (simp_all add: aligned_def)
    show ?thesis
    proof (cases res)
      case None
      then have "task_step cfg verify ops fuel buf c d = Inr (Task_Failed, c', d')"
        using c x get g(1) by (simp add: task_step_def)
      then show ?thesis using True None g(2,7) st wl' R(1) i by simp
    next
      case (Some data)
      have "zn_validate_read (zc_chunk_sz c') data i buf = Inr 0" using generated_validates [OF g(2)] g(4) Some by blast
      then have run: "task_step cfg verify ops fuel buf c d = Inr (Task_Served, c', d')"
        using c x get g(1) Some by (simp add: task_step_def)
      have "unat (hr_hits (zc_ratio c')) + unat (hr_misses (zc_ratio c')) =
          unat (hr_hits (zc_ratio c)) + unat (hr_misses (zc_ratio c)) + 1"
        if "unat (hr_hits (zc_ratio c)) + unat (hr_misses (zc_ratio c)) + 1 < 2 ^ 64"
        using that g(5,6) Some unat_inc [of "hr_hits (zc_ratio c)"] unat_inc [of "hr_misses (zc_ratio c)"]
        by (cases "cached ?c i") auto
      then show ?thesis using run True g(2) st wl' R(1) i by simp
    qed
  qed
qed

text \<open>One iteration of the eviction task.\<close>

lemma fg_evict_ready:
  assumes dev: "device_ok ops content" and rdy: "cache_ready ops content buf c d"
  shows "\<exists>c' d'. zn_fg_evict cfg ops c d = Inr (c', d') \<and> cache_ready ops content buf c' d' \<and>
    zc_static c' = zc_static c \<and> zc_ratio c' = zc_ratio c"
proof -
  obtain p where p: "zc_eviction_policy c = Promotional p" "cache_inv ops content buf {} None p c d" "0 < unat (zc_nr_zones c)"
    using rdy by (auto simp: cache_ready_def)
  from fg_evict_zones_ok [OF dev p(2)] obtain p' c' d' where
    "fg_evict_zones (NDEBUG cfg) ops (unat (EVICT_LOW_THRESH_ZONES cfg - zsm_get_num_free_zones (zc_zone_state c))) p c d = Inr (c', d')"
    "zc_eviction_policy c' = Promotional p'" "cache_inv ops content buf {} None p' c' d'" "zc_static c' = zc_static c"
    "zc_ratio c' = zc_ratio c" by blast
  then show ?thesis using p zc_staticD(1) [of c' c] by (auto simp: zn_fg_evict_def cache_ready_def)
qed

lemma evict_task_step_ok:
  assumes dev: "device_ok ops content" and rdy: "cache_ready ops content buf c d"
    and th: "EVICT_HIGH_THRESH_ZONES cfg < EVICT_LOW_THRESH_ZONES cfg"
  shows "\<exists>c' d'. evict_task_step cfg ops done_flag c d = Inr (\<not> done_flag, c', d') \<and>
    cache_ready ops content buf c' d' \<and> zc_static c' = zc_static c \<and> zc_ratio c' = zc_ratio c"
proof -
  have "EVICT_LOW_THRESH_ZONES cfg - f > 0" if "\<not> f > EVICT_HIGH_THRESH_ZONES cfg" for f
    using that th by (auto simp: word_gt_0)
  then show ?thesis using fg_evict_ready [OF dev rdy, of cfg] rdy by (auto simp: evict_task_step_def Let_def)
qed

section \<open>Whole runs\<close>

text \<open>
  The program as a sequence of whole iterations of workers (\<open>Serve\<close>) and of the eviction task
  (\<open>Evict_Round\<close>), in any order.
\<close>

datatype program_event = Serve | Evict_Round

fun program_run :: "zn_config \<Rightarrow> bool \<Rightarrow> 'dev dev_ops \<Rightarrow> nat \<Rightarrow> u8 list \<Rightarrow> program_event list \<Rightarrow> zn_cache \<Rightarrow> 'dev \<Rightarrow>
    (task_outcome list \<times> zn_cache \<times> 'dev) res" where
  "program_run cfg verify ops fuel buf [] c d = Inr ([], c, d)"
| "program_run cfg verify ops fuel buf (Serve # es) c d =
     bind_res (task_step cfg verify ops fuel buf c d) (\<lambda>(out, c1, d1).
     bind_res (program_run cfg verify ops fuel buf es c1 d1) (\<lambda>(outs, c2, d2). Inr (out # outs, c2, d2)))"
| "program_run cfg verify ops fuel buf (Evict_Round # es) c d =
     bind_res (evict_task_step cfg ops False c d) (\<lambda>(_, c1, d1). program_run cfg verify ops fuel buf es c1 d1)"

lemma program_run_ok:
  assumes dev: "device_ok ops content" and th: "EVICT_HIGH_THRESH_ZONES cfg < EVICT_LOW_THRESH_ZONES cfg"
    and fuel: "2 \<le> fuel"
  shows "cache_ready ops content buf c d \<Longrightarrow> workload_ok (zc_reader c) \<Longrightarrow>
    \<exists>outs c' d'. program_run cfg verify ops fuel buf es c d = Inr (outs, c', d') \<and>
      cache_ready ops content buf c' d' \<and> (io_reliable ops \<and> aligned c \<longrightarrow> Task_Failed \<notin> set outs)"
proof (induction es arbitrary: c d)
  case (Cons e es)
  have low: "0 < EVICT_LOW_THRESH_ZONES cfg" using th by (rule le_less_trans [OF word_zero_le])
  show ?case
  proof (cases e)
    case Serve
    obtain out c1 d1 where 1: "task_step cfg verify ops fuel buf c d = Inr (out, c1, d1)"
      "cache_ready ops content buf c1 d1" "workload_ok (zc_reader c1)" "aligned c1 = aligned c"
      "out = Task_Failed \<longrightarrow> \<not> (io_reliable ops \<and> aligned c)"
      using task_step_ok [OF dev Cons.prems(1) low Cons.prems(2) fuel] by blast
    then show ?thesis using Cons.IH [OF 1(2,3)] Serve by auto
  next
    case Evict_Round
    obtain c1 d1 where 1: "evict_task_step cfg ops False c d = Inr (True, c1, d1)"
      "cache_ready ops content buf c1 d1" "zc_static c1 = zc_static c"
      using evict_task_step_ok [OF dev Cons.prems(1) th, of False] by auto
    then have "workload_ok (zc_reader c1)" "aligned c1 = aligned c"
      using Cons.prems(2) zc_staticD [OF 1(3)] by (simp_all add: aligned_def)
    then show ?thesis using Cons.IH [OF 1(2)] Evict_Round 1(1) by auto
  qed
qed auto

text \<open>From the cache that \<open>zn_init_cache\<close> builds, every order of worker iterations and rounds of the
  background eviction task runs without fault: no assertion fails, the check of every chunk under
  \<open>VERIFY\<close> included, and with a reliable device and aligned sizes no worker gives up.\<close>

lemma program_survives_any_schedule:
  assumes "device_ok ops content" and "init_sizes_ok cfg info chunk_sz zone_cap buf"
    and "EVICT_HIGH_THRESH_ZONES cfg < EVICT_LOW_THRESH_ZONES cfg" and "2 \<le> fuel"
    and "unat wm \<le> length wb" and "\<forall>i \<in> set wb. id_ok i"
  shows "\<exists>c outs c' d'. zn_init_cache cfg garbage info chunk_sz zone_cap fd ZN_EVICT_PROMOTE_ZONE be wb wm = Inr c \<and>
    program_run cfg verify ops fuel buf es c d = Inr (outs, c', d') \<and>
    (io_reliable ops \<and> aligned c \<longrightarrow> Task_Failed \<notin> set outs)"
proof -
  obtain c where c: "zn_init_cache cfg garbage info chunk_sz zone_cap fd ZN_EVICT_PROMOTE_ZONE be wb wm = Inr c"
    "cache_ready ops content buf c d" using zn_init_cache_ok [OF assms(1,2)] by blast
  have "zc_reader c = \<lparr>rd_workload_index = 0, rd_workload_buffer = wb, rd_workload_max = wm, rd_thresh_perc = 0\<rparr>"
    by (rule zn_init_cache_reader [OF c(1)])
  then have "workload_ok (zc_reader c)" using assms(5,6) by (simp add: workload_ok_def)
  from program_run_ok [OF assms(1,3,4) c(2) this, of verify es] c(1) show ?thesis by blast
qed

text \<open>The worker's loop serves the rest of the workload and ends.\<close>

lemma task_loop_ok:
  assumes dev: "device_ok ops content" and low: "0 < EVICT_LOW_THRESH_ZONES cfg" and fuel: "2 \<le> fuel"
    and rel: "io_reliable ops"
  shows "cache_ready ops content buf c d \<Longrightarrow> workload_ok (zc_reader c) \<Longrightarrow> aligned c \<Longrightarrow>
    unat (rd_workload_max (zc_reader c)) - unat (rd_workload_index (zc_reader c)) < n \<Longrightarrow>
    unat (hr_hits (zc_ratio c)) + unat (hr_misses (zc_ratio c)) +
      (unat (rd_workload_max (zc_reader c)) - unat (rd_workload_index (zc_reader c))) < 2 ^ 64 \<Longrightarrow>
    \<exists>c' d'. task_loop cfg verify ops fuel buf n c d = Inr (True, c', d') \<and> cache_ready ops content buf c' d' \<and>
      unat (hr_hits (zc_ratio c')) + unat (hr_misses (zc_ratio c')) =
        unat (hr_hits (zc_ratio c)) + unat (hr_misses (zc_ratio c)) +
        (unat (rd_workload_max (zc_reader c)) - unat (rd_workload_index (zc_reader c)))"
proof (induction n arbitrary: c d)
  case (Suc n)
  let ?i = "rd_workload_index (zc_reader c)" and ?m = "rd_workload_max (zc_reader c)"
  obtain out c1 d1 where 1: "task_step cfg verify ops fuel buf c d = Inr (out, c1, d1)"
    "cache_ready ops content buf c1 d1" "workload_ok (zc_reader c1)" "aligned c1 = aligned c"
    "rd_workload_max (zc_reader c1) = ?m"
    "if ?i < ?m then out \<noteq> Task_Finished \<and> rd_workload_index (zc_reader c1) = ?i + 1
     else out = Task_Finished \<and> zc_ratio c1 = zc_ratio c"
    "out = Task_Failed \<longrightarrow> \<not> (io_reliable ops \<and> aligned c)"
    "out = Task_Served \<longrightarrow> io_reliable ops \<and> aligned c \<longrightarrow>
       unat (hr_hits (zc_ratio c)) + unat (hr_misses (zc_ratio c)) + 1 < 2 ^ 64 \<longrightarrow>
       unat (hr_hits (zc_ratio c1)) + unat (hr_misses (zc_ratio c1)) =
         unat (hr_hits (zc_ratio c)) + unat (hr_misses (zc_ratio c)) + 1"
    using task_step_ok [OF dev Suc.prems(1) low Suc.prems(2) fuel] by blast
  show ?case
  proof (cases "?i < ?m")
    case False
    then have "unat ?m - unat ?i = 0" by (simp add: word_less_nat_alt)
    then show ?thesis using 1(1,2,6) False by simp
  next
    case True
    then have out: "out = Task_Served" using 1(6,7) rel Suc.prems(3) by (cases out) auto
    have i: "unat (?i + 1) = unat ?i + 1" "unat ?i < unat ?m"
      using unat_inc_less [OF True] True by (simp_all add: word_less_nat_alt)
    have rest: "unat ?m - unat ?i = Suc (unat ?m - unat (?i + 1))" using i by simp
    have cnt: "unat (hr_hits (zc_ratio c1)) + unat (hr_misses (zc_ratio c1)) =
         unat (hr_hits (zc_ratio c)) + unat (hr_misses (zc_ratio c)) + 1"
      using 1(8) out rel Suc.prems(3,5) rest by simp
    have i1: "rd_workload_index (zc_reader c1) = ?i + 1" using 1(6) True by simp
    have "\<exists>c' d'. task_loop cfg verify ops fuel buf n c1 d1 = Inr (True, c', d') \<and> cache_ready ops content buf c' d' \<and>
      unat (hr_hits (zc_ratio c')) + unat (hr_misses (zc_ratio c')) =
        unat (hr_hits (zc_ratio c1)) + unat (hr_misses (zc_ratio c1)) + (unat ?m - unat (?i + 1))"
      using Suc.IH [OF 1(2,3)] 1(4,5) Suc.prems(3-5) rest cnt unfolding i1 1(5) by auto
    then show ?thesis using 1(1) out cnt rest by auto
  qed
qed simp

lemma worker_completes:
  assumes "device_ok ops content" and "init_sizes_ok cfg info chunk_sz zone_cap buf"
    and "0 < EVICT_LOW_THRESH_ZONES cfg" and "2 \<le> fuel" and "io_reliable ops"
    and "unat wm \<le> length wb" and "\<forall>i \<in> set wb. id_ok i"
    and "zi_zone_size info mod 4096 = 0" and "chunk_sz mod 4096 = 0" and "MAX_IO cfg mod 4096 = 0"
    and "td_nr_threads_completed td + 1 = td_nr_threads td" and "unat wm < n"
  shows "\<exists>c td' c' d'. zn_init_cache cfg garbage info chunk_sz zone_cap fd ZN_EVICT_PROMOTE_ZONE be wb wm = Inr c \<and>
    task_function cfg verify ops fuel buf n td c d = Inr (td', c', d') \<and>
    td_done td' \<and> td_loop_quit td' \<and>
    unat (hr_hits (zc_ratio c')) + unat (hr_misses (zc_ratio c')) = unat wm"
proof -
  obtain c where c: "zn_init_cache cfg garbage info chunk_sz zone_cap fd ZN_EVICT_PROMOTE_ZONE be wb wm = Inr c"
    "cache_ready ops content buf c d" "zc_ratio c = \<lparr>hr_hits = 0, hr_misses = 0\<rparr>"
    "zc_chunk_sz c = chunk_sz" "zc_zone_size c = zi_zone_size info"
    "zc_io_size c = (if MAX_IO cfg = 0 then chunk_sz else MAX_IO cfg)"
    using zn_init_cache_ok [OF assms(1,2)] by blast
  have r: "zc_reader c = \<lparr>rd_workload_index = 0, rd_workload_buffer = wb, rd_workload_max = wm, rd_thresh_perc = 0\<rparr>"
    by (rule zn_init_cache_reader [OF c(1)])
  have "workload_ok (zc_reader c)" "aligned c" using r assms(6-10) c(4-6) by (simp_all add: workload_ok_def aligned_def)
  moreover have "unat wm < 2 ^ 64" by (rule order.strict_trans2 [OF unsigned_less]) simp
  ultimately obtain c' d' where "task_loop cfg verify ops fuel buf n c d = Inr (True, c', d')"
    "unat (hr_hits (zc_ratio c')) + unat (hr_misses (zc_ratio c')) = unat wm"
    using task_loop_ok [OF assms(1,3-5) c(2), of n verify] r c(3) assms(12) by auto
  then show ?thesis using c(1) assms(11) by (auto simp: task_function_def task_complete_def Let_def)
qed



lemma quits_fold:
  assumes "unat (td_nr_threads td) = length finished" and "td_nr_threads_completed td = 0"
    and "\<not> td_loop_quit td" and "finished \<noteq> []"
  shows "td_loop_quit (fold (\<lambda>f td. if f then task_complete td else td) finished td) \<longleftrightarrow> (\<forall>f \<in> set finished. f)"
proof -
  let ?step = "\<lambda>f td. if f then task_complete td else td"
  have run: "td_nr_threads (fold ?step fs td) = td_nr_threads td \<and>
      unat (td_nr_threads_completed (fold ?step fs td)) = length (filter (\<lambda>f. f) fs) \<and>
      (td_loop_quit (fold ?step fs td) \<longleftrightarrow> fs \<noteq> [] \<and> length (filter (\<lambda>f. f) fs) = length finished)"
    if "length fs \<le> length finished" for fs using that
  proof (induction fs rule: rev_induct)
    case (snoc f fs)
    let ?td = "fold ?step fs td"
    have IH: "td_nr_threads ?td = td_nr_threads td" "unat (td_nr_threads_completed ?td) = length (filter (\<lambda>f. f) fs)"
      "td_loop_quit ?td \<longleftrightarrow> fs \<noteq> [] \<and> length (filter (\<lambda>f. f) fs) = length finished" using snoc by auto
    have lt: "length (filter (\<lambda>f. f) fs) < length finished"
      using le_less_trans [OF length_filter_le [of "\<lambda>f. f" fs]] snoc.prems by simp
    then have nq: "\<not> td_loop_quit ?td" using IH(3) by simp
    have "td_nr_threads_completed ?td < td_nr_threads ?td" using lt IH(1,2) assms(1) by (simp add: word_less_nat_alt)
    note inc = unat_inc_less [OF this]
    have eq: "td_nr_threads_completed ?td + 1 = td_nr_threads ?td \<longleftrightarrow> length (filter (\<lambda>f. f) fs) + 1 = length finished"
      unfolding unat_inject [symmetric] inc using IH(1,2) assms(1) by simp
    show ?case using IH(1,2) nq inc eq lt by (cases f) (auto simp: task_complete_def Let_def)
  qed (use assms in auto)
  have "length (filter (\<lambda>f. f) finished) = length finished \<longleftrightarrow> (\<forall>f \<in> set finished. f)"
    by (metis filter_True length_filter_less less_irrefl)
  then show ?thesis using run [of finished] assms(4) by simp
qed

text \<open>C31. The main loop stops exactly when every worker has run to the end of its loop: a worker that leaves
  \<open>task_function\<close> because a request failed is never counted, and the program waits forever.\<close>

theorem loop_quits_iff_all_finish:
  assumes "td_nr_threads_completed (tds 0) = 0" and "\<not> td_loop_quit (tds 0)"
    and "unat (td_nr_threads (tds 0)) = nr" and "0 < nr"
    and "\<forall>k < nr. \<exists>c' d'. task_function cfg verify ops fuel buf n (tds k) (cs k) (ds k) = Inr (tds (Suc k), c', d')"
  shows "td_loop_quit (tds nr) \<longleftrightarrow> (\<forall>k < nr. \<exists>c' d'. task_loop cfg verify ops fuel buf n (cs k) (ds k) = Inr (True, c', d'))"
proof -
  define step where "step f td = (if f then task_complete td else td)" for f td
  define fin where "fin k \<longleftrightarrow> (\<exists>c' d'. task_loop cfg verify ops fuel buf n (cs k) (ds k) = Inr (True, c', d'))" for k
  have "tds (Suc k) = step (fin k) (tds k)" if k: "k < nr" for k
  proof -
    obtain c' d' where "task_function cfg verify ops fuel buf n (tds k) (cs k) (ds k) = Inr (tds (Suc k), c', d')"
      using assms(5) k by blast
    then obtain f c d where "task_loop cfg verify ops fuel buf n (cs k) (ds k) = Inr (f, c, d)" "tds (Suc k) = step f (tds k)"
      by (auto simp: task_function_def bind_res_eq_Inr step_def)
    then show ?thesis by (simp add: fin_def)
  qed
  then have "tds k = fold step (map fin [0 ..< k]) (tds 0)" if "k \<le> nr" for k using that by (induction k) simp_all
  from this [OF order_refl] have "td_loop_quit (tds nr) \<longleftrightarrow> td_loop_quit (fold step (map fin [0 ..< nr]) (tds 0))" by (rule arg_cong)
  also have "\<dots> \<longleftrightarrow> (\<forall>k < nr. fin k)"
    using quits_fold [of "tds 0" "map fin [0 ..< nr]"] assms(1-4) by (auto simp: step_def [abs_def])
  finally show ?thesis by (simp add: fin_def)
qed

theorem loop_quits_iff_all_finish_witness:
  "\<exists>tds. (\<forall>k < 2. \<exists>c' d'. task_function default_config True no_write_ops 2 (replicate 4 7) 3 (tds k)
      (if k = 0 then tiny_start\<lparr>zc_reader := \<lparr>rd_workload_index = 0, rd_workload_buffer = [9], rd_workload_max = 1, rd_thresh_perc = 0\<rparr>\<rparr>
       else tiny_start) (\<lambda>_. 0) = Inr (tds (Suc k), c', d')) \<and> \<not> td_loop_quit (tds 2)"
proof -
  define cs where "cs k = (if k = (0 :: nat)
    then tiny_start\<lparr>zc_reader := \<lparr>rd_workload_index = 0, rd_workload_buffer = [9], rd_workload_max = 1, rd_thresh_perc = 0\<rparr>\<rparr>
    else tiny_start)" for k
  define td where "td = \<lparr>td_nr_threads = 2, td_nr_threads_completed = 0, td_done = False, td_loop_quit = False\<rparr>"
  define tds where "tds k = (if k < (2 :: nat) then td else task_complete td)" for k
  let ?loop = "\<lambda>c. task_loop default_config True no_write_ops 2 (replicate 4 7) 3 c (\<lambda>_. 0)"
  have "case ?loop (cs 0) of Inr (f, _) \<Rightarrow> \<not> f | _ \<Rightarrow> False" "case ?loop (cs 1) of Inr (f, _) \<Rightarrow> f | _ \<Rightarrow> False"
    unfolding cs_def by code_simp+
  then obtain c0 d0 c1 d1 where l: "?loop (cs 0) = Inr (False, c0, d0)" "?loop (cs 1) = Inr (True, c1, d1)"
    by (auto split: sum.splits)
  then have run: "\<forall>k < 2. \<exists>c' d'. task_function default_config True no_write_ops 2 (replicate 4 7) 3 (tds k) (cs k) (\<lambda>_. 0) =
      Inr (tds (Suc k), c', d')"
    by (auto simp: task_function_def tds_def less_Suc_eq numeral_2_eq_2)
  have "td_loop_quit (tds 2) \<longleftrightarrow> (\<forall>k < 2. \<exists>c' d'. ?loop (cs k) = Inr (True, c', d'))"
    by (rule loop_quits_iff_all_finish [OF _ _ _ _ run]) (simp_all add: tds_def td_def)
  moreover have "\<not> (\<exists>c' d'. ?loop (cs 0) = Inr (True, c', d'))" unfolding l(1) by simp
  ultimately have "\<not> td_loop_quit (tds 2)" by (metis zero_less_numeral)
  then show ?thesis using run unfolding cs_def by blast
qed

end
