(* ===== verification/ZN_Main.thy ===== *)
theory ZN_Main
  imports ZN_Workload "HOL-Library.Signed_Division"
begin

text \<open>
  The set-up in \<open>main\<close> of \<open>src/zncache.c\<close>, with \<open>generate_random_buffer\<close> and \<open>zone_cap\<close> of
  \<open>src/znutil.c\<close>, up to the start of the threads. What the system, \<open>getopt\<close> and \<open>libzbd\<close> answer
  is the record \<open>main_env\<close>. The profiler's file is left out.
\<close>

section \<open>Utilities\<close>

text \<open>\<open>rand\<close> gives the values of successive calls of \<open>rand()\<close> after \<open>srand(SEED)\<close>.\<close>

definition generate_random_buffer :: "(nat \<Rightarrow> int) \<Rightarrow> u64 \<Rightarrow> u8 list option" where
  "generate_random_buffer rand n =
     (if n = 0 then None else Some (map (\<lambda>i. word_of_int (rand i mod 256)) [0 ..< unat n]))"

text \<open>The result of \<open>zbd_report_zones\<close> and the capacity of the zone it reports.\<close>

definition zone_cap :: "int \<times> u64 \<Rightarrow> u64 \<Rightarrow> int \<times> u64" where
  "zone_cap report zone_capacity =
     (let (ret, capacity) = report in if ret \<noteq> 0 then (ret, zone_capacity) else (ret, capacity))"

definition simple_workload :: "u32 list" where
  "simple_workload = [
     1, 2, 3, 4, 5, 6, 7, 8, 9, 10, 11, 12, 13, 14, 15, 16, 17, 18, 19, 20, 1, 2, 3, 4, 5, 6, 7, 8,
     9, 10, 11, 12, 13, 14, 15, 16, 17, 18, 19,
     20, 21, 22, 23, 24, 25, 26, 27, 28, 29, 30, 31, 32,
     33, 34, 35, 36, 37, 38, 39, 40,
     21, 22, 23, 24, 25, 26, 27, 28, 29, 30, 31, 32, 33, 34, 35, 36, 37, 38, 39, 40]"

section \<open>Options\<close>

text \<open>What \<open>getopt(argc, argv, "w:i:m:h")\<close> returns, with \<open>optarg\<close> (as a number for \<open>-i\<close>).\<close>

datatype getopt_result = Opt_w string | Opt_i int | Opt_m string | Opt_h | Opt_unknown

record main_options =
  mo_workload_file :: "string option"
  mo_workload_max :: u64
  mo_metrics_file :: "string option"

text \<open>The loop over the options; \<open>Inl\<close> is the value that \<open>main\<close> returns or exits with.\<close>

fun parse_options :: "getopt_result list \<Rightarrow> main_options \<Rightarrow> int + main_options" where
  "parse_options [] mo = Inr mo"
| "parse_options (Opt_w optarg # os) mo = parse_options os (mo\<lparr>mo_workload_file := Some optarg\<rparr>)"
| "parse_options (Opt_i optarg # os) mo = parse_options os (mo\<lparr>mo_workload_max := word_of_int optarg\<rparr>)"
| "parse_options (Opt_m optarg # os) mo = parse_options os (mo\<lparr>mo_metrics_file := Some optarg\<rparr>)"
| "parse_options (Opt_h # os) mo = Inl 0"
| "parse_options (Opt_unknown # os) mo = Inl (-1)"

section \<open>Set-up\<close>

record build_options =
  BLOCK_ZONE_CAPACITY :: u64
  MAX_ZONES_USED :: u32
  EVICTION_POLICY :: zn_evict_policy_type

record 'f main_env =
  env_euid :: int
  env_argc :: int
  env_chunk_sz :: u64
  env_options :: "getopt_result list"
  env_is_zoned :: bool
  env_open_workload :: "string \<Rightarrow> 'f option"
  env_read :: "u64 \<Rightarrow> 'f \<Rightarrow> read_result \<times> 'f"
  env_malloc :: "nat \<Rightarrow> u8"
  env_zbd_open :: "int \<times> zbd_info"
  env_open :: int
  env_blkgetsize64 :: "u64 option"
  env_report_zones :: "int \<times> u64"
  env_rand :: "nat \<Rightarrow> int"

text \<open>The bytes of the workload buffer as the \<open>uint32_t\<close> values they are.\<close>

fun u32s_of_bytes :: "u8 list \<Rightarrow> u32 list" where
  "u32s_of_bytes (a # b # c # d # bs) = u32_of_bytes [a, b, c, d] # u32s_of_bytes bs"
| "u32s_of_bytes _ = []"

definition main_workload :: "nat \<Rightarrow> 'f main_env \<Rightarrow> main_options \<Rightarrow> (int + u32 list \<times> u64) res" where
  "main_workload fuel env mo = (case mo_workload_file mo of
       None \<Rightarrow> Inr (Inr (simple_workload, of_nat (length simple_workload)))
     | Some path \<Rightarrow>
         if mo_workload_max mo = - 1 then Inr (Inl 1)
         else (case env_open_workload env path of
             None \<Rightarrow> Inr (Inl 1)
           | Some f \<Rightarrow>
               let workload_sz = mo_workload_max mo * 4 in
               bind_res (read_workload (env_read env) fuel (map (env_malloc env) [0 ..< unat workload_sz]) workload_sz f)
                 (\<lambda>(ret, buffer, _).
                 if ret \<noteq> 0 then Inr (Inl 1) else Inr (Inr (u32s_of_bytes buffer, mo_workload_max mo)))))"

text \<open>Opening the device: its descriptor and description, or the value \<open>main\<close> returns.\<close>

definition main_open :: "bool \<Rightarrow> build_options \<Rightarrow> 'f main_env \<Rightarrow> zn_backend \<Rightarrow> (int + int \<times> zbd_info) res" where
  "main_open nd bo env device_type =
     bind_res
       (if device_type = ZE_BACKEND_ZNS then Inr (Inr (env_zbd_open env))
        else (case env_blkgetsize64 env of
            None \<Rightarrow> Inr (Inl (-1))
          | Some sz \<Rightarrow>
              if sz < BLOCK_ZONE_CAPACITY bo then c_assert nd False (Inr (Inl (-1)))
              else if BLOCK_ZONE_CAPACITY bo = 0 then Inl Div_By_Zero
              else Inr (Inr (env_open env,
                \<lparr>zi_nr_zones = word_of_int (sint sz sdiv sint (BLOCK_ZONE_CAPACITY bo)), zi_max_nr_active_zones = 0,
                 zi_zone_size = 0\<rparr>))))
       (\<lambda>r. case r of Inl ret \<Rightarrow> Inr (Inl ret) | Inr (fd, info) \<Rightarrow> if fd < 0 then Inr (Inl fd) else Inr (Inr (fd, info)))"

text \<open>Preparing the device: the final description and the zone capacity.\<close>

definition main_prepare :: "build_options \<Rightarrow> 'f main_env \<Rightarrow> 'dev dev_ops \<Rightarrow> zn_backend \<Rightarrow> int \<Rightarrow> zbd_info \<Rightarrow> 'dev \<Rightarrow>
    (int + zbd_info \<times> u64) \<times> 'dev" where
  "main_prepare bo env ops device_type fd info d =
     (if device_type = ZE_BACKEND_ZNS then
        let info = (if MAX_ZONES_USED bo \<noteq> 0 then info\<lparr>zi_nr_zones := MAX_ZONES_USED bo\<rparr> else info);
            (ret, d') = zbd_reset_zones ops fd 0 0 d in
        if ret \<noteq> 0 then (Inl (-1), d')
        else
          let (ret, zone_capacity) = zone_cap (env_report_zones env) 0 in
          if ret \<noteq> 0 then (Inl ret, d') else (Inr (info, zone_capacity), d')
      else (Inr (info\<lparr>zi_zone_size := BLOCK_ZONE_CAPACITY bo\<rparr>, BLOCK_ZONE_CAPACITY bo), d))"

text \<open>\<open>nomem\<close> ends the program with \<open>ENOMEM\<close>, which is 12.\<close>

definition nomem :: "'a res" where
  "nomem = Inl (Program_Exit 12)"

definition main_setup :: "zn_config \<Rightarrow> build_options \<Rightarrow> (nat \<Rightarrow> nat \<Rightarrow> zn_pair) \<Rightarrow> 'f main_env \<Rightarrow> 'dev dev_ops \<Rightarrow> nat \<Rightarrow> 'dev \<Rightarrow>
    ((int + zn_cache \<times> u8 list) \<times> 'dev) res" where
  "main_setup cfg bo garbage env ops fuel d =
     (if env_euid env \<noteq> 0 then Inr (Inl (-1), d)
      else if env_argc env < 4 \<or> env_argc env > 11 then Inr (Inl (-1), d)
      else case parse_options (env_options env)
                  \<lparr>mo_workload_file = None, mo_workload_max = - 1, mo_metrics_file = None\<rparr> of
        Inl ret \<Rightarrow> Inr (Inl ret, d)
      | Inr mo \<Rightarrow>
          let device_type = (if env_is_zoned env then ZE_BACKEND_ZNS else ZE_BACKEND_BLOCK) in
          bind_res (main_workload fuel env mo) (\<lambda>wl. case wl of Inl ret \<Rightarrow> Inr (Inl ret, d) | Inr (workload_buffer, workload_max) \<Rightarrow>
          bind_res (main_open (NDEBUG cfg) bo env device_type) (\<lambda>dev. case dev of Inl ret \<Rightarrow> Inr (Inl ret, d) | Inr (fd, info) \<Rightarrow>
          case main_prepare bo env ops device_type fd info d of
            (Inl ret, d') \<Rightarrow> Inr (Inl ret, d')
          | (Inr (info, zone_capacity), d') \<Rightarrow>
              (case generate_random_buffer (env_rand env) (env_chunk_sz env) of
                 None \<Rightarrow> nomem
               | Some RANDOM_DATA \<Rightarrow>
                   bind_res (zn_init_cache cfg garbage info (env_chunk_sz env) zone_capacity fd (EVICTION_POLICY bo)
                      device_type workload_buffer workload_max) (\<lambda>cache. Inr (Inr (cache, RANDOM_DATA), d'))))))"

section \<open>Properties\<close>

lemma u32s_roundtrip: "u32s_of_bytes (concat (map bytes_of_u32 ids)) = ids"
proof (induction ids)
  case (Cons i ids)
  obtain a b c d where i: "bytes_of_u32 i = [a, b, c, d]" by (simp add: bytes_of_u32_def upt_rec)
  then have "u32_of_bytes [a, b, c, d] = i" using u32_of_bytes_of_u32 [of i "[]"] by simp
  then show ?case using Cons i by simp
qed simp

text \<open>C28. A workload file holding the identifiers as four bytes each, lowest first, and arriving in one piece
  is loaded as exactly these identifiers.\<close>

theorem main_workload_roundtrip:
  assumes "mo_workload_file mo = Some path" and "env_open_workload env path = Some (replicate k Read_Intr @ [Read_Bytes (concat (map bytes_of_u32 ids))])"
    and "env_read env = script_read" and "unat (mo_workload_max mo) = length ids" and "ids \<noteq> []" and "length ids < 2 ^ 62"
  shows "main_workload (k + 2) env mo = Inr (Inr (ids, mo_workload_max mo))"
proof -
  let ?sz = "mo_workload_max mo * 4"
  have sz: "unat ?sz = 4 * length ids" using assms(4,6) by (subst unat_mult_64) simp_all
  have len: "length (concat (map bytes_of_u32 ids)) = unat ?sz"
    unfolding sz by (simp add: length_concat comp_def sum_list_triv)
  have "0 < ?sz" using sz assms(5) by (simp add: word_less_nat_alt)
  from read_workload_one [OF this len, of "map (env_malloc env) [0 ..< unat ?sz]" k "[]"]
  have "read_workload script_read (k + 2) (map (env_malloc env) [0 ..< unat ?sz]) ?sz
      (replicate k Read_Intr @ [Read_Bytes (concat (map bytes_of_u32 ids))]) = Inr (0, concat (map bytes_of_u32 ids), [])" by simp
  moreover have "mo_workload_max mo \<noteq> - 1"
  proof
    assume "mo_workload_max mo = - 1"
    moreover have "unat (- 1 :: u64) = 2 ^ 64 - 1" by (simp add: unsigned_minus_1_eq_mask mask_eq_exp_minus_1)
    ultimately show False using assms(4,6) by simp
  qed
  ultimately show ?thesis using assms(1-3) by (simp add: main_workload_def Let_def u32s_roundtrip)
qed

theorem main_workload_roundtrip_witness:
  "\<exists>env :: read_result list main_env. main_workload (1 + 2) env
      \<lparr>mo_workload_file = Some ''w'', mo_workload_max = 2, mo_metrics_file = None\<rparr> = Inr (Inr ([258, 7], 2))"
proof -
  define env :: "read_result list main_env" where "env = \<lparr>env_euid = 0, env_argc = 8, env_chunk_sz = 4096, env_options = [],
    env_is_zoned = False, env_open_workload = (\<lambda>_. Some (replicate 1 Read_Intr @ [Read_Bytes (concat (map bytes_of_u32 [258, 7]))])),
    env_read = script_read, env_malloc = (\<lambda>_. 0), env_zbd_open = (-1, two_zones), env_open = 3, env_blkgetsize64 = None,
    env_report_zones = (0, 0), env_rand = (\<lambda>_. 0)\<rparr>"
  have "main_workload (1 + 2) env \<lparr>mo_workload_file = Some ''w'', mo_workload_max = 2, mo_metrics_file = None\<rparr> =
      Inr (Inr ([258, 7], mo_workload_max \<lparr>mo_workload_file = Some ''w'', mo_workload_max = 2, mo_metrics_file = None\<rparr>))"
    by (rule main_workload_roundtrip) (simp_all add: env_def)
  then show ?thesis by auto
qed

lemma random_buffer_length: "generate_random_buffer rand n = Some buf \<Longrightarrow> length buf = unat n"
  by (auto simp: generate_random_buffer_def split: if_splits)

lemma simple_workload_ids: "length simple_workload = 80" "\<forall>i \<in> set simple_workload. id_ok i"
  by (simp_all add: simple_workload_def id_ok_def)

text \<open>What \<open>main\<close> requires of a block device and of its sizes.\<close>

definition block_sizes_ok :: "zn_config \<Rightarrow> build_options \<Rightarrow> u64 \<Rightarrow> u64 \<Rightarrow> bool" where
  "block_sizes_ok cfg bo sz chunk_sz \<longleftrightarrow>
     unat (BLOCK_ZONE_CAPACITY bo) \<le> unat sz \<and> unat sz < 2 ^ 63 \<and>
     unat sz div unat (BLOCK_ZONE_CAPACITY bo) < 2 ^ 31 \<and>
     4 \<le> unat chunk_sz \<and> unat chunk_sz \<le> unat (BLOCK_ZONE_CAPACITY bo) \<and> unat chunk_sz < 2 ^ 32 \<and>
     unat (BLOCK_ZONE_CAPACITY bo) div unat chunk_sz < 2 ^ 32 \<and>
     BLOCK_ZONE_CAPACITY bo mod 4096 = 0 \<and> chunk_sz mod 4096 = 0 \<and>
     MAX_IO cfg mod 4096 = 0 \<and> unat (MAX_IO cfg) < 2 ^ 63"

lemma sdiv_of_nat: "int a sdiv int b = int (a div b)"
  by (cases "a = 0"; cases "b = 0") (simp_all add: signed_divide_int_def zdiv_int)

lemma block_zones:
  assumes "block_sizes_ok cfg bo sz chunk_sz"
  shows "unat (word_of_int (sint sz sdiv sint (BLOCK_ZONE_CAPACITY bo)) :: u32) = unat sz div unat (BLOCK_ZONE_CAPACITY bo)"
proof -
  have s: "unat sz < 2 ^ 63" "unat (BLOCK_ZONE_CAPACITY bo) < 2 ^ 63" "unat sz div unat (BLOCK_ZONE_CAPACITY bo) < 2 ^ 31"
    using assms by (simp_all add: block_sizes_ok_def)
  have "sint sz sdiv sint (BLOCK_ZONE_CAPACITY bo) = int (unat sz div unat (BLOCK_ZONE_CAPACITY bo))"
    unfolding sint_eq_unat_64 [OF s(1)] sint_eq_unat_64 [OF s(2)] by (rule sdiv_of_nat)
  then have "(word_of_int (sint sz sdiv sint (BLOCK_ZONE_CAPACITY bo)) :: u32) = of_nat (unat sz div unat (BLOCK_ZONE_CAPACITY bo))"
    by (simp only: of_int_of_nat_eq)
  moreover have "unat sz div unat (BLOCK_ZONE_CAPACITY bo) < 2 ^ 32" using s(3) by simp
  ultimately show ?thesis by (simp only: unat_of_nat_u32)
qed

lemma block_init_sizes:
  assumes "block_sizes_ok cfg bo sz chunk_sz" and "length buf = unat chunk_sz"
  shows "init_sizes_ok cfg \<lparr>zi_nr_zones = word_of_int (sint sz sdiv sint (BLOCK_ZONE_CAPACITY bo)), zi_max_nr_active_zones = 0,
     zi_zone_size = BLOCK_ZONE_CAPACITY bo\<rparr> chunk_sz (BLOCK_ZONE_CAPACITY bo) buf"
proof -
  let ?cap = "unat (BLOCK_ZONE_CAPACITY bo)"
  have s: "?cap \<le> unat sz" "unat sz < 2 ^ 63" "unat sz div ?cap < 2 ^ 31" "4 \<le> unat chunk_sz" "unat chunk_sz \<le> ?cap"
    "unat chunk_sz < 2 ^ 32" "?cap div unat chunk_sz < 2 ^ 32" "unat (MAX_IO cfg) < 2 ^ 63"
    using assms(1) by (simp_all add: block_sizes_ok_def)
  have "unat sz div ?cap * ?cap \<le> 2 ^ 64"
    by (rule order.trans [OF div_times_less_eq_dividend order.trans [OF less_imp_le [OF s(2)]]]) simp
  moreover have "0 < unat sz div ?cap" "0 < ?cap div unat chunk_sz" using s by (simp_all add: div_greater_zero_iff)
  ultimately show ?thesis using s assms(2) block_zones [OF assms(1)]
    by (simp add: init_sizes_ok_def geometry_ok_def)
qed



end
