(* ===== verification/ZN_Threads.thy ===== *)
theory ZN_Threads
  imports ZN_Workload
begin

text \<open>
  The threads of the program: the workers of \<open>task_function\<close>, each inside \<open>zn_cache_get\<close> for its
  request, and the thread of \<open>evict_task\<close>, on one cache.

  A thread is its position in the code with its local variables. A step is what the thread does
  between two points at which another thread can observe or change what it uses: a call that holds a
  mutex throughout, an atomic operation, or the transfer of one chunk. Which thread steps next is the
  scheduler's choice, and so is whether \<open>g_mutex_trylock\<close> finds the mutex of the policy free. A wait
  (on the condition variable of an entry, in a loop with \<open>g_thread_yield\<close>) is a step that changes
  nothing. Reading and writing of a chunk are one step each; \<open>ZN_Concurrency\<close> shows that no other
  thread touches the chunk meanwhile.
\<close>

section \<open>Positions\<close>

text \<open>
  The positions in the order of the code, each named by what the thread does next. The option of the
  positions inside \<open>zn_fg_evict\<close> is the identifier whose \<open>zn_cache_get\<close> called it, \<open>None\<close> in the
  eviction thread.
\<close>

datatype thread_pc =
    Claim
  | Find u32
  | Hit_Read u32 zn_pair
  | Hit_Touch u32 zn_pair "u8 list option"
  | Hit_Release u32 zn_pair "u8 list option"
  | Hit_Count u32 "u8 list option"
  | Miss_Get u32
  | Miss_Write u32 zn_pair
  | Miss_Count u32 zn_pair "u8 list"
  | Miss_Return u32 zn_pair "u8 list"
  | Miss_Update u32 zn_pair "u8 list"
  | Miss_Insert u32 zn_pair "u8 list"
  | Undo_Zone u32 zn_pair
  | Undo_Map u32
  | Returned u32 "u8 list option"
  | Complete
  | Stopped
  | Evict_Poll
  | Evict_Start "u32 option"
  | Evict_Choose "u32 option" u32
  | Evict_Clear "u32 option" u32 int
  | Evict_Wait "u32 option" u32 int
  | Evict_Reset "u32 option" u32 int

text \<open>What all threads share.\<close>

type_synonym 'dev shared = "zn_thread_data \<times> zn_cache \<times> 'dev"

section \<open>Steps\<close>

text \<open>Where a thread goes on after \<open>zn_fg_evict\<close>.\<close>

definition evict_return :: "u32 option \<Rightarrow> thread_pc" where
  "evict_return caller = (case caller of None \<Rightarrow> Evict_Poll | Some i \<Rightarrow> Miss_Get i)"

text \<open>The steps of \<open>zn_fg_evict\<close>; the second argument of the positions counts the iterations left.\<close>

definition evict_step :: "zn_config \<Rightarrow> 'dev dev_ops \<Rightarrow> bool \<Rightarrow> thread_pc \<Rightarrow> zn_cache \<Rightarrow> 'dev \<Rightarrow>
    (thread_pc \<times> zn_cache \<times> 'dev) res" where
  "evict_step cfg ops lock pc cache d = (case pc of
       Evict_Start caller \<Rightarrow>
         (let free_zones = zsm_get_num_free_zones (zc_zone_state cache) in
          case zc_eviction_policy cache of
            Promotional _ \<Rightarrow>
              Inr (Evict_Choose caller (EVICT_LOW_THRESH_ZONES cfg - free_zones), cache, d)
          | Chunk p \<Rightarrow>
              bind_res (zn_policy_chunk_evict cfg ops lock (p, cache, d)) (\<lambda>(_, p', cache', d').
                Inr (evict_return caller, cache'\<lparr>zc_eviction_policy := Chunk p'\<rparr>, d')))
     | Evict_Choose caller n \<Rightarrow>
         if n = 0 then Inr (evict_return caller, cache, d)
         else (case zc_eviction_policy cache of
            Promotional p \<Rightarrow>
              (let (zone, p') = zn_policy_promotional_get_zone_to_evict lock p;
                   cache' = cache\<lparr>zc_eviction_policy := Promotional p'\<rparr> in
               Inr (if zone = -1 then evict_return caller else Evict_Clear caller (n - 1) zone, cache', d))
          | Chunk _ \<Rightarrow> Inr (pc, cache, d))
     | Evict_Clear caller n zone \<Rightarrow>
         bind_res (zn_cachemap_clear_zone (NDEBUG cfg) (word_of_int zone) (zc_cache_map cache)) (\<lambda>cm.
           Inr (Evict_Wait caller n zone, cache\<lparr>zc_cache_map := cm\<rparr>, d))
     | Evict_Wait caller n zone \<Rightarrow>
         if zone < 0 then Inl Out_Of_Bounds
         else
           bind_res (arr_get (cm_active_readers (zc_cache_map cache)) (nat zone)) (\<lambda>readers.
             Inr (if 0 < sint readers then pc else Evict_Reset caller n zone, cache, d))
     | Evict_Reset caller n zone \<Rightarrow>
         bind_res (zsm_evict (NDEBUG cfg) ops zone (zc_zone_state cache) d) (\<lambda>(ret, zs, d').
           c_assert (NDEBUG cfg) (ret = 0) (Inr (Evict_Choose caller n, cache\<lparr>zc_zone_state := zs\<rparr>, d')))
     | _ \<Rightarrow> Inr (pc, cache, d))"

text \<open>The steps of \<open>zn_cache_get\<close> outside \<open>zn_fg_evict\<close>.\<close>

definition get_step :: "zn_config \<Rightarrow> 'dev dev_ops \<Rightarrow> u8 list \<Rightarrow> thread_pc \<Rightarrow> zn_cache \<Rightarrow> 'dev \<Rightarrow>
    (thread_pc \<times> zn_cache \<times> 'dev) res" where
  "get_step cfg ops random_buffer pc cache d = (let nd = NDEBUG cfg in case pc of
       Find i \<Rightarrow>
         bind_res (zn_cachemap_find_pass i (zc_cache_map cache)) (\<lambda>(found, cm).
           let cache' = cache\<lparr>zc_cache_map := cm\<rparr> in
           case found of
             Find_Waits \<Rightarrow> Inr (pc, cache', d)
           | Find_Returns result \<Rightarrow>
               c_assert nd (zr_type result \<noteq> RESULT_EMPTY)
                 (Inr (if zr_type result = RESULT_LOC then Hit_Read i (zr_location result) else Miss_Get i,
                       cache', d)))
     | Hit_Read i location \<Rightarrow>
         bind_res (zn_read_from_disk ops (zc_fd cache) (zc_chunk_sz cache) (zc_io_size cache)
                     (zc_zone_size cache) location d) (\<lambda>(data, d').
           Inr (Hit_Touch i location data, cache, d'))
     | Hit_Touch i location data \<Rightarrow>
         bind_res (update_policy nd location ZN_READ cache) (\<lambda>cache'.
           Inr (Hit_Release i location data, cache', d))
     | Hit_Release i location data \<Rightarrow>
         (let cm = zc_cache_map cache; z = unat (zp_zone location) in
          bind_res (arr_get (cm_active_readers cm) z) (\<lambda>n.
            Inr (Hit_Count i data,
                 cache\<lparr>zc_cache_map := cm\<lparr>cm_active_readers := (cm_active_readers cm)[z := n - 1]\<rparr>\<rparr>, d)))
     | Hit_Count i data \<Rightarrow>
         Inr (Returned i data, cache\<lparr>zc_ratio := (zc_ratio cache)\<lparr>hr_hits := hr_hits (zc_ratio cache) + 1\<rparr>\<rparr>, d)
     | Miss_Get i \<Rightarrow>
         bind_res (zsm_get_active_zone nd ops Indet (zc_zone_state cache) d) (\<lambda>(ret, cell, zs, d').
           let cache' = cache\<lparr>zc_zone_state := zs\<rparr> in
           case ret of
             ZSM_GET_ACTIVE_ZONE_RETRY \<Rightarrow> Inr (pc, cache', d')
           | ZSM_GET_ACTIVE_ZONE_ERROR \<Rightarrow> Inr (Undo_Map i, cache', d')
           | ZSM_GET_ACTIVE_ZONE_EVICT \<Rightarrow> Inr (Evict_Start (Some i), cache', d')
           | ZSM_GET_ACTIVE_ZONE_SUCCESS \<Rightarrow>
               bind_res (read_cell cell) (\<lambda>location. Inr (Miss_Write i location, cache', d')))
     | Miss_Write i location \<Rightarrow>
         bind_res (zn_gen_write_buffer (zc_chunk_sz cache) i random_buffer) (\<lambda>data.
         let wp = CHUNK_POINTER (zc_zone_size cache) (zc_chunk_sz cache)
                    (zp_chunk_offset location) (zp_zone location) in
         bind_res (zn_write_out nd ops (zc_fd cache) (zc_chunk_sz cache) data (zc_io_size cache) wp d) (\<lambda>(ret, d').
           Inr (if ret \<noteq> 0 then Undo_Zone i location else Miss_Count i location data, cache, d')))
     | Miss_Count i location data \<Rightarrow>
         Inr (Miss_Return i location data,
              cache\<lparr>zc_ratio := (zc_ratio cache)\<lparr>hr_misses := hr_misses (zc_ratio cache) + 1\<rparr>\<rparr>, d)
     | Miss_Return i location data \<Rightarrow>
         bind_res (zsm_return_active_zone nd ops location (zc_zone_state cache) d) (\<lambda>(_, zs, d').
           Inr (Miss_Update i location data, cache\<lparr>zc_zone_state := zs\<rparr>, d'))
     | Miss_Update i location data \<Rightarrow>
         bind_res (update_policy nd location ZN_WRITE cache) (\<lambda>cache'.
           Inr (Miss_Insert i location data, cache', d))
     | Miss_Insert i location data \<Rightarrow>
         bind_res (zn_cachemap_insert nd i location (zc_cache_map cache)) (\<lambda>cm.
           Inr (Returned i (Some data), cache\<lparr>zc_cache_map := cm\<rparr>, d))
     | Undo_Zone i location \<Rightarrow>
         bind_res (zsm_failed_to_write nd location (zc_zone_state cache)) (\<lambda>zs.
           Inr (Undo_Map i, cache\<lparr>zc_zone_state := zs\<rparr>, d))
     | Undo_Map i \<Rightarrow>
         bind_res (zn_cachemap_fail nd i (zc_cache_map cache)) (\<lambda>cm.
           Inr (Returned i None, cache\<lparr>zc_cache_map := cm\<rparr>, d))
     | _ \<Rightarrow> Inr (pc, cache, d))"

text \<open>
  A step of a thread: in \<open>task_function\<close> claiming a request, checking its answer and reporting the
  end, in \<open>evict_task\<close> the test of the loop, and the steps above. A worker that has been given no data
  returns without reporting.
\<close>

definition thread_step :: "zn_config \<Rightarrow> bool \<Rightarrow> 'dev dev_ops \<Rightarrow> u8 list \<Rightarrow> bool \<Rightarrow> thread_pc \<Rightarrow> 'dev shared \<Rightarrow>
    (thread_pc \<times> 'dev shared) res" where
  "thread_step cfg verify ops RANDOM_DATA lock pc s = (case s of (td, cache, d) \<Rightarrow> case pc of
       Claim \<Rightarrow>
         (case claim_request (zc_reader cache) of
            (None, r) \<Rightarrow> Inr (Complete, td, cache\<lparr>zc_reader := r\<rparr>, d)
          | (Some (wi, _, _), r) \<Rightarrow>
              bind_res (arr_get (rd_workload_buffer r) (unat wi)) (\<lambda>data_id.
                Inr (Find data_id, td, cache\<lparr>zc_reader := r\<rparr>, d)))
     | Returned i None \<Rightarrow> Inr (Stopped, td, cache, d)
     | Returned i (Some data) \<Rightarrow>
         if verify \<and> \<not> NDEBUG cfg then
           bind_res (zn_validate_read (zc_chunk_sz cache) data i RANDOM_DATA) (\<lambda>ret.
             c_assert False (ret = 0) (Inr (Claim, td, cache, d)))
         else Inr (Claim, td, cache, d)
     | Complete \<Rightarrow> Inr (Stopped, task_complete td, cache, d)
     | Stopped \<Rightarrow> Inr (Stopped, td, cache, d)
     | Evict_Poll \<Rightarrow>
         if td_done td then Inr (Stopped, td, cache, d)
         else
           let free_zones = zsm_get_num_free_zones (zc_zone_state cache) in
           if free_zones > EVICT_HIGH_THRESH_ZONES cfg then Inr (Evict_Poll, td, cache, d)
           else c_assert (NDEBUG cfg) (EVICT_LOW_THRESH_ZONES cfg - free_zones > 0)
             (Inr (Evict_Start None, td, cache, d))
     | _ \<Rightarrow>
         bind_res (case pc of
             Evict_Start _ \<Rightarrow> evict_step cfg ops lock pc cache d
           | Evict_Choose _ _ \<Rightarrow> evict_step cfg ops lock pc cache d
           | Evict_Clear _ _ _ \<Rightarrow> evict_step cfg ops lock pc cache d
           | Evict_Wait _ _ _ \<Rightarrow> evict_step cfg ops lock pc cache d
           | Evict_Reset _ _ _ \<Rightarrow> evict_step cfg ops lock pc cache d
           | _ \<Rightarrow> get_step cfg ops RANDOM_DATA pc cache d)
           (\<lambda>(pc', cache', d'). Inr (pc', td, cache', d')))"

section \<open>Starting and ending\<close>

text \<open>The threads \<open>main\<close> starts, and the data they share besides the cache.\<close>

definition main_threads :: "u32 \<Rightarrow> thread_pc list \<times> zn_thread_data" where
  "main_threads nr_threads =
     (replicate (unat nr_threads) Claim @ [Evict_Poll],
      \<lparr>td_nr_threads = nr_threads, td_nr_threads_completed = 0, td_done = False, td_loop_quit = False\<rparr>)"

text \<open>
  What \<open>main\<close> waits for before it cleans up: the main loop, the tasks of the thread pool, the eviction
  thread.
\<close>

definition main_joined :: "thread_pc list \<Rightarrow> zn_thread_data \<Rightarrow> bool" where
  "main_joined ts td \<longleftrightarrow> td_loop_quit td \<and> (\<forall>pc \<in> set ts. pc = Stopped)"

section \<open>Schedules\<close>

text \<open>A schedule: which thread steps, and whether it would get the mutex of the policy.\<close>

fun threads_run :: "zn_config \<Rightarrow> bool \<Rightarrow> 'dev dev_ops \<Rightarrow> u8 list \<Rightarrow> (nat \<times> bool) list \<Rightarrow> thread_pc list \<Rightarrow>
    'dev shared \<Rightarrow> (thread_pc list \<times> 'dev shared) res" where
  "threads_run cfg verify ops RANDOM_DATA [] ts s = Inr (ts, s)"
| "threads_run cfg verify ops RANDOM_DATA ((t, lock) # sched) ts s =
     (if t < length ts then
        bind_res (thread_step cfg verify ops RANDOM_DATA lock (ts ! t) s) (\<lambda>(pc, s').
          threads_run cfg verify ops RANDOM_DATA sched (ts[t := pc]) s')
      else threads_run cfg verify ops RANDOM_DATA sched ts s)"

end
