(* ===== verification/ZN_Interleaving.thy ===== *)
theory ZN_Interleaving
  imports ZN_Threads
begin

text \<open>
  What the threads of \<open>ZN_Threads\<close> keep true together. Each position has footprints: the identifier it
  is writing, the zone it reads from, the place in its hands, the zone it evicts. The invariant relates
  the number of threads with a footprint to the state of the cache map, the zones and the queue of the
  policy, so that a step of one thread changes each count by at most one. Its parts are separate
  predicates, and a step only has to be followed through the parts it touches.
\<close>

section \<open>Footprints\<close>

text \<open>Counting the threads at positions of a kind.\<close>

definition cnt :: "('a \<Rightarrow> bool) \<Rightarrow> 'a list \<Rightarrow> nat" where
  "cnt P ts = length (filter P ts)"

lemma cnt_update:
  assumes "t < length ts"
  shows "cnt P (ts[t := x]) + (if P (ts ! t) then 1 else 0) = cnt P ts + (if P x then 1 else 0)"
  using assms
proof (induction ts arbitrary: t)
  case (Cons a ts)
  show ?case
  proof (cases t)
    case (Suc n)
    then have "n < length ts" using Cons.prems by simp
    from Cons.IH [OF this] Suc show ?thesis by (simp add: cnt_def split: if_splits)
  qed (simp add: cnt_def)
qed simp

lemma cnt_same: "t < length ts \<Longrightarrow> P (ts ! t) = P x \<Longrightarrow> cnt P (ts[t := x]) = cnt P ts"
  using cnt_update [of t ts P x] by simp

lemma cnt_enter: "t < length ts \<Longrightarrow> \<not> P (ts ! t) \<Longrightarrow> P x \<Longrightarrow> cnt P (ts[t := x]) = Suc (cnt P ts)"
  using cnt_update [of t ts P x] by simp

lemma cnt_leave: "t < length ts \<Longrightarrow> P (ts ! t) \<Longrightarrow> \<not> P x \<Longrightarrow> Suc (cnt P (ts[t := x])) = cnt P ts"
  using cnt_update [of t ts P x] by simp

lemma cnt_pos_iff: "0 < cnt P ts \<longleftrightarrow> (\<exists>pc \<in> set ts. P pc)"
  by (auto simp: cnt_def filter_empty_conv)

lemma cnt_zero_iff: "cnt P ts = 0 \<longleftrightarrow> (\<forall>pc \<in> set ts. \<not> P pc)"
  by (auto simp: cnt_def filter_empty_conv)

lemma cnt_le_length: "cnt P ts \<le> length ts"
  by (simp add: cnt_def)

text \<open>A count of one singles out the thread.\<close>

lemma cnt_one_other:
  assumes "cnt P ts \<le> 1" "t < length ts" "u < length ts" "P (ts ! t)" "P (ts ! u)"
  shows "t = u"
proof (rule ccontr)
  assume "t \<noteq> u"
  let ?S = "{i. i < length ts \<and> P (ts ! i)}"
  have "finite ?S" by simp
  then have "card {t, u} \<le> card ?S" by (rule card_mono) (use assms in auto)
  moreover have "card ?S \<le> 1" using assms(1) by (simp add: cnt_def length_filter_conv_card)
  ultimately show False using \<open>t \<noteq> u\<close> by simp
qed

text \<open>The identifier a thread is writing, from the lookup that missed to the insertion.\<close>

fun owner :: "thread_pc \<Rightarrow> u32 option" where
  "owner (Miss_Get i) = Some i"
| "owner (Miss_Write i q) = Some i"
| "owner (Miss_Count i q x) = Some i"
| "owner (Miss_Return i q x) = Some i"
| "owner (Miss_Update i q x) = Some i"
| "owner (Miss_Insert i q x) = Some i"
| "owner (Undo_Zone i q) = Some i"
| "owner (Undo_Map i) = Some i"
| "owner (Evict_Start w) = w"
| "owner (Evict_Choose w n) = w"
| "owner (Evict_Clear w n z) = w"
| "owner (Evict_Wait w n z) = w"
| "owner (Evict_Reset w n z) = w"
| "owner _ = None"

text \<open>The zone whose counter of readers the thread has raised.\<close>

fun reading :: "thread_pc \<Rightarrow> u32 option" where
  "reading (Hit_Read i q) = Some (zp_zone q)"
| "reading (Hit_Touch i q x) = Some (zp_zone q)"
| "reading (Hit_Release i q x) = Some (zp_zone q)"
| "reading _ = None"

text \<open>The place a thread has been given to write, until it gives the zone back.\<close>

fun holding :: "thread_pc \<Rightarrow> zn_pair option" where
  "holding (Miss_Write i q) = Some q"
| "holding (Miss_Count i q x) = Some q"
| "holding (Miss_Return i q x) = Some q"
| "holding (Undo_Zone i q) = Some q"
| "holding _ = None"

text \<open>A place that is written and not yet entered into the cache map.\<close>

fun publishing :: "thread_pc \<Rightarrow> zn_pair option" where
  "publishing (Miss_Update i q x) = Some q"
| "publishing (Miss_Insert i q x) = Some q"
| "publishing _ = None"

text \<open>The zone a thread has taken from the queue of the policy to evict it.\<close>

fun evicting :: "thread_pc \<Rightarrow> int option" where
  "evicting (Evict_Clear w n z) = Some z"
| "evicting (Evict_Wait w n z) = Some z"
| "evicting (Evict_Reset w n z) = Some z"
| "evicting _ = None"

text \<open>The zone whose entries an evicting thread has removed from the cache map.\<close>

fun cleared :: "thread_pc \<Rightarrow> int option" where
  "cleared (Evict_Wait w n z) = Some z"
| "cleared (Evict_Reset w n z) = Some z"
| "cleared _ = None"

text \<open>The zone an evicting thread has seen without readers.\<close>

fun resetting :: "thread_pc \<Rightarrow> int option" where
  "resetting (Evict_Reset w n z) = Some z"
| "resetting _ = None"

text \<open>A full zone that is missing in the queue: its last chunk is not reported yet, or it is being evicted.\<close>

definition unqueued :: "u64 \<Rightarrow> u32 \<Rightarrow> thread_pc \<Rightarrow> bool" where
  "unqueued mx z pc \<longleftrightarrow> evicting pc = Some (int (unat z)) \<or>
     (\<exists>i q x. pc = Miss_Update i q x \<and> zp_zone q = z \<and> unat (zp_chunk_offset q) + 1 = unat mx)"

text \<open>The chunks a thread relies on: to be read, or written by itself.\<close>

fun relying :: "thread_pc \<Rightarrow> (u32 \<times> zn_pair) option" where
  "relying (Hit_Read i q) = Some (i, q)"
| "relying (Miss_Update i q x) = Some (i, q)"
| "relying (Miss_Insert i q x) = Some (i, q)"
| "relying _ = None"

fun written :: "thread_pc \<Rightarrow> (u32 \<times> zn_pair) option" where
  "written (Miss_Count i q x) = Some (i, q)"
| "written (Miss_Return i q x) = Some (i, q)"
| "written _ = None"

text \<open>The answer a thread carries.\<close>

fun carrying :: "thread_pc \<Rightarrow> (u32 \<times> u8 list) option" where
  "carrying (Hit_Touch i q x) = map_option (Pair i) x"
| "carrying (Hit_Release i q x) = map_option (Pair i) x"
| "carrying (Hit_Count i x) = map_option (Pair i) x"
| "carrying (Miss_Count i q x) = Some (i, x)"
| "carrying (Miss_Return i q x) = Some (i, x)"
| "carrying (Miss_Update i q x) = Some (i, x)"
| "carrying (Miss_Insert i q x) = Some (i, x)"
| "carrying (Returned i x) = map_option (Pair i) x"
| "carrying _ = None"

text \<open>The identifier a thread serves.\<close>

fun serving :: "thread_pc \<Rightarrow> u32 option" where
  "serving (Find i) = Some i"
| "serving pc = owner pc"

section \<open>Invariant\<close>

text \<open>The cache map: counters of readers, and one writer for every pending identifier.\<close>

definition map_inv :: "nat \<Rightarrow> zn_cachemap \<Rightarrow> thread_pc list \<Rightarrow> bool" where
  "map_inv nz m ts \<longleftrightarrow> cachemap_inv nz m \<and>
     (\<forall>z. unat z < nz \<longrightarrow> unat (cm_active_readers m ! unat z) = cnt (\<lambda>pc. reading pc = Some z) ts) \<and>
     (\<forall>i. cnt (\<lambda>pc. owner pc = Some i) ts = (if cm_slot m i = Pending then 1 else 0))"

text \<open>The zones: one writer for every zone that is being written.\<close>

definition at_place :: "nat \<Rightarrow> nat \<Rightarrow> zn_pair option \<Rightarrow> bool" where
  "at_place z k q \<longleftrightarrow> (case q of None \<Rightarrow> False | Some p \<Rightarrow> unat (zp_zone p) = z \<and> unat (zp_chunk_offset p) = k)"

definition zone_inv :: "'dev dev_ops \<Rightarrow> zone_state_manager \<Rightarrow> thread_pc list \<Rightarrow> bool" where
  "zone_inv ops zs ts \<longleftrightarrow> zsm_sound ops zs \<and>
     (\<forall>z k. z < unat (zs_num_zones zs) \<longrightarrow>
        cnt (\<lambda>pc. at_place z k (holding pc)) ts = (if zview zs z = Writing k then 1 else 0))"

text \<open>The policy: a full zone is in the queue, or one thread accounts for it.\<close>

definition queue_inv :: "nat \<Rightarrow> u64 \<Rightarrow> (nat \<Rightarrow> zone_view) \<Rightarrow> zn_policy_promotional \<Rightarrow> thread_pc list \<Rightarrow> bool" where
  "queue_inv nz mx view p ts \<longleftrightarrow> prom_inv p \<and> ucast (pp_zone_max_chunks p) = mx \<and>
     (\<forall>z. cnt (unqueued mx z) ts + (if z \<in> set (prom_order p) then 1 else 0) =
        (if unat z < nz \<and> view (unat z) = Full then 1 else 0))"

text \<open>The device: located chunks, and those a thread relies on, hold the data of their identifier.\<close>

definition data_inv :: "('dev \<Rightarrow> nat \<Rightarrow> u8) \<Rightarrow> u8 list \<Rightarrow> zn_cache \<Rightarrow> thread_pc list \<Rightarrow> 'dev \<Rightarrow> bool" where
  "data_inv content buf c ts d \<longleftrightarrow>
     (\<forall>i q. cm_slot (zc_cache_map c) i = Located q \<or> Some (i, q) \<in> relying ` set ts \<longrightarrow>
        unat (zp_zone q) < unat (zc_nr_zones c) \<and> place_written (zc_zone_state c) q \<and> chunk_stored content buf c d i q) \<and>
     (\<forall>i q. Some (i, q) \<in> written ` set ts \<longrightarrow> chunk_stored content buf c d i q)"

text \<open>
  Places: one identifier for each, counting those about to be entered into the cache map; none about to
  be entered for a zone in eviction; after the clearing none is located there, and nobody reads from a
  zone that is about to be reset.
\<close>

definition publishes_at :: "zn_pair \<Rightarrow> thread_pc \<Rightarrow> bool" where
  "publishes_at q pc \<longleftrightarrow> (case publishing pc of None \<Rightarrow> False | Some p \<Rightarrow> same_place p q)"

definition place_inv :: "nat \<Rightarrow> (u32 \<Rightarrow> slot) \<Rightarrow> thread_pc list \<Rightarrow> bool" where
  "place_inv nz slots ts \<longleftrightarrow>
     (\<forall>q. cnt (publishes_at q) ts + (if place_free slots q then 0 else 1) \<le> 1) \<and>
     (\<forall>z. Some z \<in> evicting ` set ts \<longrightarrow> 0 \<le> z \<and> nat z < nz \<and>
        (\<forall>q. Some q \<in> publishing ` set ts \<longrightarrow> int (unat (zp_zone q)) \<noteq> z)) \<and>
     (\<forall>z. Some z \<in> cleared ` set ts \<longrightarrow> (\<forall>i q. slots i = Located q \<longrightarrow> int (unat (zp_zone q)) \<noteq> z)) \<and>
     (\<forall>z. Some z \<in> resetting ` set ts \<longrightarrow> (\<forall>y. Some y \<in> reading ` set ts \<longrightarrow> int (unat y) \<noteq> z))"

text \<open>What each thread knows by itself.\<close>

definition local_ok :: "u8 list \<Rightarrow> zn_cache \<Rightarrow> thread_pc \<Rightarrow> bool" where
  "local_ok buf c pc \<longleftrightarrow> (\<forall>i. serving pc = Some i \<longrightarrow> id_ok i) \<and>
     (\<forall>q. holding pc = Some q \<longrightarrow> unat (zp_zone q) < unat (zc_nr_zones c) \<and>
        unat (zp_chunk_offset q) < unat (zc_max_zone_chunks c)) \<and>
     (\<forall>z. reading pc = Some z \<longrightarrow> unat z < unat (zc_nr_zones c)) \<and>
     (\<forall>i x. carrying pc = Some (i, x) \<longrightarrow> zn_gen_write_buffer (zc_chunk_sz c) i buf = Inr x)"

definition reader_ok :: "zn_reader \<Rightarrow> bool" where
  "reader_ok r \<longleftrightarrow> unat (rd_workload_max r) \<le> length (rd_workload_buffer r) \<and>
     (\<forall>i \<in> set (rd_workload_buffer r). id_ok i)"

definition conc_inv :: "'dev dev_ops \<Rightarrow> ('dev \<Rightarrow> nat \<Rightarrow> u8) \<Rightarrow> u8 list \<Rightarrow> zn_policy_promotional \<Rightarrow>
    thread_pc list \<Rightarrow> zn_cache \<Rightarrow> 'dev \<Rightarrow> bool" where
  "conc_inv ops content buf p ts c d \<longleftrightarrow> zc_eviction_policy c = Promotional p \<and>
     sizes_ok c \<and> unat (zc_chunk_sz c) \<le> length buf \<and> 0 < unat (zc_nr_zones c) \<and> length ts < 2 ^ 31 \<and>
     reader_ok (zc_reader c) \<and> (\<forall>pc \<in> set ts. local_ok buf c pc) \<and>
     map_inv (unat (zc_nr_zones c)) (zc_cache_map c) ts \<and>
     zone_inv ops (zc_zone_state c) ts \<and>
     queue_inv (unat (zc_nr_zones c)) (zc_max_zone_chunks c) (zview (zc_zone_state c)) p ts \<and>
     data_inv content buf c ts d \<and>
     place_inv (unat (zc_nr_zones c)) (cm_slot (zc_cache_map c)) ts"

lemma conc_invI:
  assumes "zc_eviction_policy c = Promotional p" "sizes_ok c" "unat (zc_chunk_sz c) \<le> length buf"
    "0 < unat (zc_nr_zones c)" "length ts < 2 ^ 31" "reader_ok (zc_reader c)"
    "\<forall>pc \<in> set ts. local_ok buf c pc"
    "map_inv (unat (zc_nr_zones c)) (zc_cache_map c) ts" "zone_inv ops (zc_zone_state c) ts"
    "queue_inv (unat (zc_nr_zones c)) (zc_max_zone_chunks c) (zview (zc_zone_state c)) p ts"
    "data_inv content buf c ts d" "place_inv (unat (zc_nr_zones c)) (cm_slot (zc_cache_map c)) ts"
  shows "conc_inv ops content buf p ts c d"
  unfolding conc_inv_def using assms by blast

lemma conc_invD:
  assumes "conc_inv ops content buf p ts c d"
  shows "zc_eviction_policy c = Promotional p" "sizes_ok c" "unat (zc_chunk_sz c) \<le> length buf"
    "0 < unat (zc_nr_zones c)" "length ts < 2 ^ 31" "reader_ok (zc_reader c)"
    "\<forall>pc \<in> set ts. local_ok buf c pc"
    "map_inv (unat (zc_nr_zones c)) (zc_cache_map c) ts" "zone_inv ops (zc_zone_state c) ts"
    "queue_inv (unat (zc_nr_zones c)) (zc_max_zone_chunks c) (zview (zc_zone_state c)) p ts"
    "data_inv content buf c ts d" "place_inv (unat (zc_nr_zones c)) (cm_slot (zc_cache_map c)) ts"
  using assms unfolding conc_inv_def by blast+

section \<open>Frames\<close>

text \<open>A thread moves on: each part of the invariant only sees its own footprint.\<close>

lemma image_update:
  assumes "t < length ts"
  shows "y \<in> f ` set (ts[t := pc]) \<Longrightarrow> y = f pc \<or> y \<in> f ` set ts"
  using set_update_subset_insert [of ts t pc] by auto

lemma map_frame:
  assumes "map_inv nz m ts" "t < length ts" "owner pc = owner (ts ! t)" "reading pc = reading (ts ! t)"
  shows "map_inv nz m (ts[t := pc])"
  using assms by (simp add: map_inv_def cnt_same)

lemma zone_frame:
  assumes "zone_inv ops zs ts" "t < length ts" "holding pc = holding (ts ! t)"
  shows "zone_inv ops zs (ts[t := pc])"
  using assms by (simp add: zone_inv_def cnt_same)

lemma queue_frame:
  assumes "queue_inv nz mx view p ts" "t < length ts" "\<And>z. unqueued mx z pc = unqueued mx z (ts ! t)"
  shows "queue_inv nz mx view p (ts[t := pc])"
  using assms by (simp add: queue_inv_def cnt_same)

lemma data_frame:
  assumes "data_inv content buf c ts d" "t < length ts"
    "relying pc = None \<or> relying pc = relying (ts ! t)" "written pc = None \<or> written pc = written (ts ! t)"
  shows "data_inv content buf c (ts[t := pc]) d"
proof -
  have "Some x \<in> relying ` set ts" if "Some x \<in> relying ` set (ts[t := pc])" for x
    using image_update [OF assms(2) that] assms(2,3) by (metis image_eqI nth_mem option.discI)
  moreover have "Some x \<in> written ` set ts" if "Some x \<in> written ` set (ts[t := pc])" for x
    using image_update [OF assms(2) that] assms(2,4) by (metis image_eqI nth_mem option.discI)
  ultimately show ?thesis using assms(1) unfolding data_inv_def by blast
qed

lemma data_subset:
  assumes "data_inv content buf c ts d"
    and "\<And>i q. cm_slot (zc_cache_map c') i = Located q \<or> Some (i, q) \<in> relying ` set ts' \<Longrightarrow>
      cm_slot (zc_cache_map c) i = Located q \<or> Some (i, q) \<in> relying ` set ts"
    and "\<And>i q. Some (i, q) \<in> written ` set ts' \<Longrightarrow> Some (i, q) \<in> written ` set ts"
    and "chunk_stored content buf c' d = chunk_stored content buf c d"
    and "zc_nr_zones c' = zc_nr_zones c" "zc_zone_state c' = zc_zone_state c"
  shows "data_inv content buf c' ts' d"
  using assms(1) unfolding data_inv_def assms(4-6) by (meson assms(2,3))

lemma some_image_frame:
  assumes "t < length ts" "f pc = None \<or> f pc = f (ts ! t)"
  shows "Some x \<in> f ` set (ts[t := pc]) \<Longrightarrow> Some x \<in> f ` set ts"
  using image_update [OF assms(1), of "Some x" f pc] assms by (metis image_eqI nth_mem option.discI)

lemma place_frame:
  assumes inv: "place_inv nz slots ts" and t: "t < length ts"
    and "publishing pc = publishing (ts ! t)"
    and f: "evicting pc = None \<or> evicting pc = evicting (ts ! t)" "cleared pc = None \<or> cleared pc = cleared (ts ! t)"
      "resetting pc = None \<or> resetting pc = resetting (ts ! t)" "reading pc = None \<or> reading pc = reading (ts ! t)"
  shows "place_inv nz slots (ts[t := pc])"
proof -
  have "cnt (publishes_at q) (ts[t := pc]) = cnt (publishes_at q) ts" for q
    by (rule cnt_same [OF t]) (simp add: publishes_at_def assms(3))
  moreover have "publishing pc = None \<or> publishing pc = publishing (ts ! t)" using assms(3) by simp
  note some_image_frame [OF t this] some_image_frame [OF t f(1)] some_image_frame [OF t f(2)]
    some_image_frame [OF t f(3)] some_image_frame [OF t f(4)]
  ultimately show ?thesis using inv unfolding place_inv_def by (metis (no_types, lifting))
qed

lemma locals_frame:
  assumes "\<forall>pc \<in> set ts. local_ok buf c pc" "t < length ts" "local_ok buf c pc'"
  shows "\<forall>pc \<in> set (ts[t := pc']). local_ok buf c pc"
  using assms set_update_subset_insert [of ts t pc'] by blast

text \<open>A step that changes neither the map, the zones, the queue nor the bytes of the device.\<close>

definition same_footprint :: "u64 \<Rightarrow> thread_pc \<Rightarrow> thread_pc \<Rightarrow> bool" where
  "same_footprint mx pc pc' \<longleftrightarrow> owner pc' = owner pc \<and> reading pc' = reading pc \<and> holding pc' = holding pc \<and>
     (\<forall>z. unqueued mx z pc' = unqueued mx z pc) \<and> (relying pc' = None \<or> relying pc' = relying pc) \<and>
     (written pc' = None \<or> written pc' = written pc) \<and> publishing pc' = publishing pc \<and>
     evicting pc' = evicting pc \<and> cleared pc' = cleared pc \<and> resetting pc' = resetting pc"

lemma same_content_stored:
  "content d' = content d \<Longrightarrow> chunk_stored content buf c d' i q = chunk_stored content buf c d i q"
  by (simp add: chunk_stored_def same_content_bytes [of content d' d])

lemma chunk_stored_frame [simp]:
  "chunk_stored content buf (x\<lparr>zc_cache_map := m\<rparr>) = chunk_stored content buf x"
  "chunk_stored content buf (x\<lparr>zc_zone_state := zs\<rparr>) = chunk_stored content buf x"
  "chunk_stored content buf (x\<lparr>zc_ratio := rt\<rparr>) = chunk_stored content buf x"
  "chunk_stored content buf (x\<lparr>zc_reader := r\<rparr>) = chunk_stored content buf x"
  "chunk_stored content buf (y\<lparr>zc_eviction_policy := pol\<rparr>) = chunk_stored content buf y"
  by (simp_all add: fun_eq_iff chunk_stored_def)

lemma local_ok_frame [simp]:
  "local_ok buf (c\<lparr>zc_cache_map := m\<rparr>) = local_ok buf c"
  "local_ok buf (c\<lparr>zc_zone_state := zs\<rparr>) = local_ok buf c"
  "local_ok buf (c\<lparr>zc_ratio := rt\<rparr>) = local_ok buf c"
  "local_ok buf (c\<lparr>zc_reader := r\<rparr>) = local_ok buf c"
  "local_ok buf (c\<lparr>zc_eviction_policy := pol\<rparr>) = local_ok buf c"
  by (simp_all add: fun_eq_iff local_ok_def)

lemma sizes_ok_frame [simp]:
  "sizes_ok (x\<lparr>zc_cache_map := m\<rparr>) = sizes_ok x" "sizes_ok (x\<lparr>zc_ratio := rt\<rparr>) = sizes_ok x"
  "sizes_ok (x\<lparr>zc_reader := r\<rparr>) = sizes_ok x" "sizes_ok (y\<lparr>zc_eviction_policy := pol\<rparr>) = sizes_ok y"
  by (simp_all add: sizes_ok_def)

lemma silent_step:
  assumes inv: "conc_inv ops content buf p ts c d" and t: "t < length ts"
    and fp: "same_footprint (zc_max_zone_chunks c) (ts ! t) pc" and loc: "local_ok buf c pc"
    and r: "reader_ok r" and cont: "content d' = content d"
  shows "conc_inv ops content buf p (ts[t := pc]) (c\<lparr>zc_ratio := rt, zc_reader := r\<rparr>) d'"
proof -
  note I = conc_invD [OF inv]
  note F = fp [unfolded same_footprint_def]
  show ?thesis
  proof (rule conc_invI)
    have "data_inv content buf c (ts[t := pc]) d" using F by (intro data_frame [OF I(11) t]) simp_all
    then show "data_inv content buf (c\<lparr>zc_ratio := rt, zc_reader := r\<rparr>) (ts[t := pc]) d'"
      unfolding data_inv_def using same_content_stored [of content d' d buf c, OF cont] by simp
    show "\<forall>pc' \<in> set (ts[t := pc]). local_ok buf (c\<lparr>zc_ratio := rt, zc_reader := r\<rparr>) pc'"
      using locals_frame [OF I(7) t loc] by simp
    show "place_inv (unat (zc_nr_zones (c\<lparr>zc_ratio := rt, zc_reader := r\<rparr>)))
        (cm_slot (zc_cache_map (c\<lparr>zc_ratio := rt, zc_reader := r\<rparr>))) (ts[t := pc])"
      using F by (auto intro: place_frame [OF I(12) t])
  qed (use I(1-6) F r t in \<open>auto intro: map_frame [OF I(8)] zone_frame [OF I(9)] queue_frame [OF I(10)]\<close>)
qed

section \<open>Steps on the cache map\<close>

text \<open>Replacing the cache map: what is left to show.\<close>

lemma map_step:
  assumes inv: "conc_inv ops content buf p ts c d" and t: "t < length ts" and loc: "local_ok buf c pc"
    and fp: "holding pc = holding (ts ! t)" "\<And>z. unqueued (zc_max_zone_chunks c) z pc = unqueued (zc_max_zone_chunks c) z (ts ! t)"
      "written pc = None"
    and m: "map_inv (unat (zc_nr_zones c)) m (ts[t := pc])"
    and pl: "place_inv (unat (zc_nr_zones c)) (cm_slot m) (ts[t := pc])"
    and sl: "\<And>i q. cm_slot m i = Located q \<Longrightarrow>
       cm_slot (zc_cache_map c) i = Located q \<or> Some (i, q) \<in> relying ` set ts"
    and rel: "\<And>i q. relying pc = Some (i, q) \<Longrightarrow>
       cm_slot (zc_cache_map c) i = Located q \<or> Some (i, q) \<in> relying ` set ts"
  shows "conc_inv ops content buf p (ts[t := pc]) (c\<lparr>zc_cache_map := m\<rparr>) d"
proof -
  note I = conc_invD [OF inv]
  let ?c = "c\<lparr>zc_cache_map := m\<rparr>"
  have "cm_slot (zc_cache_map c) i = Located q \<or> Some (i, q) \<in> relying ` set ts"
    if "cm_slot (zc_cache_map ?c) i = Located q \<or> Some (i, q) \<in> relying ` set (ts[t := pc])" for i q
    using that sl rel image_update [OF t, of "Some (i, q)" relying pc] by (simp, metis)
  moreover have "Some (i, q) \<in> written ` set ts" if "Some (i, q) \<in> written ` set (ts[t := pc])" for i q
    using image_update [OF t that] fp(3) by auto
  ultimately have data: "data_inv content buf ?c (ts[t := pc]) d" by (rule data_subset [OF I(11)]) simp_all
  show ?thesis
  proof (rule conc_invI)
    show "\<forall>pc' \<in> set (ts[t := pc]). local_ok buf ?c pc'"
      using locals_frame [OF I(7) t loc] by simp
  qed (use I(1-6) m pl zone_frame [OF I(9) t fp(1)] queue_frame [OF I(10) t fp(2)] data in simp_all)
qed

lemma map_invD:
  assumes "map_inv nz m ts"
  shows "cachemap_inv nz m"
    "unat z < nz \<Longrightarrow> unat (cm_active_readers m ! unat z) = cnt (\<lambda>pc. reading pc = Some z) ts"
    "cnt (\<lambda>pc. owner pc = Some i) ts = (if cm_slot m i = Pending then 1 else 0)"
  using assms by (simp_all add: map_inv_def)

lemma owner_pending:
  assumes "map_inv nz m ts" "t < length ts" "owner (ts ! t) = Some i"
  shows "cm_slot m i = Pending"
proof -
  have "0 < cnt (\<lambda>pc. owner pc = Some i) ts" using assms by (auto simp: cnt_pos_iff)
  then show ?thesis using map_invD(3) [OF assms(1), of i] by (auto split: if_splits)
qed

lemma place_invD:
  assumes "place_inv nz slots ts"
  shows "cnt (publishes_at q) ts + (if place_free slots q then 0 else 1) \<le> 1"
    "pc \<in> set ts \<Longrightarrow> evicting pc = Some z \<Longrightarrow> 0 \<le> z \<and> nat z < nz"
    "pc \<in> set ts \<Longrightarrow> evicting pc = Some z \<Longrightarrow> pc' \<in> set ts \<Longrightarrow> publishing pc' = Some q \<Longrightarrow> int (unat (zp_zone q)) \<noteq> z"
    "pc \<in> set ts \<Longrightarrow> cleared pc = Some z \<Longrightarrow> slots i = Located q \<Longrightarrow> int (unat (zp_zone q)) \<noteq> z"
    "pc \<in> set ts \<Longrightarrow> resetting pc = Some z \<Longrightarrow> pc' \<in> set ts \<Longrightarrow> reading pc' = Some y \<Longrightarrow> int (unat y) \<noteq> z"
  using assms unfolding place_inv_def by (fast intro: image_eqI [OF sym])+

text \<open>Removing locations keeps the places.\<close>

lemma place_free_mono:
  "(\<And>i q. slots' i = Located q \<Longrightarrow> slots i = Located q) \<Longrightarrow> place_free slots q \<Longrightarrow> place_free slots' q"
  by (auto simp: place_free_def)

lemma place_slots:
  assumes "place_inv nz slots ts" "\<And>i q. slots' i = Located q \<Longrightarrow> slots i = Located q"
  shows "place_inv nz slots' ts"
proof -
  have "cnt (publishes_at q) ts + (if place_free slots' q then 0 else 1) \<le> 1" for q
    using place_invD(1) [OF assms(1), of q] place_free_mono [of slots' slots q] assms(2) by (auto split: if_splits)
  then show ?thesis using assms unfolding place_inv_def by blast
qed

lemma resetting_cleared: "resetting pc = Some z \<Longrightarrow> cleared pc = Some z"
  by (cases pc) auto

lemma cleared_evicting: "cleared pc = Some z \<Longrightarrow> evicting pc = Some z"
  by (cases pc) auto

lemma unqueued_simps [simp]:
  "unqueued mx z Claim = False" "unqueued mx z (Find i) = False" "unqueued mx z (Hit_Read i q) = False"
  "unqueued mx z (Hit_Touch i q y) = False" "unqueued mx z (Hit_Release i q y) = False"
  "unqueued mx z (Hit_Count i y) = False" "unqueued mx z (Miss_Get i) = False" "unqueued mx z (Miss_Write i q) = False"
  "unqueued mx z (Miss_Count i q x) = False" "unqueued mx z (Miss_Return i q x) = False"
  "unqueued mx z (Miss_Update i q x) \<longleftrightarrow> zp_zone q = z \<and> unat (zp_chunk_offset q) + 1 = unat mx"
  "unqueued mx z (Miss_Insert i q x) = False" "unqueued mx z (Undo_Zone i q) = False"
  "unqueued mx z (Undo_Map i) = False" "unqueued mx z (Returned i y) = False" "unqueued mx z Complete = False"
  "unqueued mx z Stopped = False" "unqueued mx z Evict_Poll = False" "unqueued mx z (Evict_Start w) = False"
  "unqueued mx z (Evict_Choose w n) = False" "unqueued mx z (Evict_Clear w n v) \<longleftrightarrow> v = int (unat z)"
  "unqueued mx z (Evict_Wait w n v) \<longleftrightarrow> v = int (unat z)" "unqueued mx z (Evict_Reset w n v) \<longleftrightarrow> v = int (unat z)"
  by (auto simp: unqueued_def)

lemma find_hit_map:
  assumes inv: "map_inv nz m ts" and t: "t < length ts" "ts ! t = Find i" "length ts < 2 ^ 31"
    and m': "cachemap_inv nz m'" "cm_slot m' = cm_slot m" "cm_active_readers m' = inc_reader (zp_zone q) (cm_active_readers m)"
    and q: "unat (zp_zone q) < nz"
  shows "map_inv nz m' (ts[t := Hit_Read i q])"
proof -
  note M = map_invD [OF inv]
  have len: "unat (zp_zone q) < length (cm_active_readers m)" using cachemap_invD(2) [OF M(1)] q by simp
  have "unat (cm_active_readers m' ! unat z) = cnt (\<lambda>pc. reading pc = Some z) (ts[t := Hit_Read i q])"
    if z: "unat z < nz" for z
  proof (cases "z = zp_zone q")
    case True
    have "unat (cm_active_readers m ! unat z) < 2 ^ 31"
      using M(2) [OF z] cnt_le_length [of "\<lambda>pc. reading pc = Some z" ts] t(3) by simp
    then have "unat (cm_active_readers m ! unat z + 1) = unat (cm_active_readers m ! unat z) + 1"
      by (intro unat_inc) simp
    then show ?thesis using True M(2) [OF z] t len by (simp add: m'(3) inc_reader_def cnt_enter)
  next
    case False
    then have "unat z \<noteq> unat (zp_zone q)" by simp
    then show ?thesis using False M(2) [OF z] t by (simp add: m'(3) inc_reader_def cnt_same)
  qed
  moreover have "cnt (\<lambda>pc. owner pc = Some j) (ts[t := Hit_Read i q]) = (if cm_slot m' j = Pending then 1 else 0)" for j
    using M(3) [of j] t by (simp add: cnt_same m'(2))
  ultimately show ?thesis using m'(1) by (simp add: map_inv_def)
qed

lemma find_hit_place:
  assumes inv: "place_inv nz slots ts" and t: "t < length ts" "ts ! t = Find i" and q: "slots i = Located q"
  shows "place_inv nz slots (ts[t := Hit_Read i q])"
proof -
  note t' = t(1) and P = place_invD [OF inv]
  have "cnt (publishes_at r) (ts[t := Hit_Read i q]) = cnt (publishes_at r) ts" for r
    by (rule cnt_same [OF t']) (simp add: publishes_at_def t(2))
  moreover have "int (unat y) \<noteq> z" if z: "Some z \<in> resetting ` set (ts[t := Hit_Read i q])"
    and y: "Some y \<in> reading ` set (ts[t := Hit_Read i q])" for y z
  proof -
    obtain pc where pc: "pc \<in> set ts" "resetting pc = Some z"
      using some_image_frame [OF t', of resetting "Hit_Read i q" z] z by auto
    have "y = zp_zone q \<or> Some y \<in> reading ` set ts" using image_update [OF t' y] by auto
    then show ?thesis using P(4) [OF pc(1) resetting_cleared [OF pc(2)] q] P(5) [OF pc] by (metis imageE)
  qed
  moreover note some_image_frame [OF t', of evicting "Hit_Read i q"] some_image_frame [OF t', of publishing "Hit_Read i q"]
    some_image_frame [OF t', of cleared "Hit_Read i q"]
  ultimately show ?thesis using inv unfolding place_inv_def by simp
qed

lemma find_step:
  assumes inv: "conc_inv ops content buf p ts c d" and t: "t < length ts" "ts ! t = Find i"
  shows "\<exists>pc c'. get_step cfg ops buf (Find i) c d = Inr (pc, c', d) \<and> conc_inv ops content buf p (ts[t := pc]) c' d"
proof -
  note I = conc_invD [OF inv]
  note M = map_invD [OF I(8)]
  have i: "id_ok i" using I(7) t by (metis local_ok_def nth_mem serving.simps(1))
  show ?thesis
  proof (cases "cm_slot (zc_cache_map c) i")
    case Pending
    then have "zn_cachemap_find_pass i (zc_cache_map c) = Inr (Find_Waits, zc_cache_map c)" by (rule cm.find_wait [OF M(1)])
    moreover have "ts[t := Find i] = ts" using t(2) by (metis list_update_id)
    ultimately show ?thesis using inv by (simp add: get_step_def)
  next
    case (Located q)
    obtain r m where f: "zn_cachemap_find_pass i (zc_cache_map c) = Inr (Find_Returns r, m)" "zr_type r = RESULT_LOC"
      "zr_location r = q" "cachemap_inv (unat (zc_nr_zones c)) m" "cm_slot m = cm_slot (zc_cache_map c)"
      "cm_active_readers m = inc_reader (zp_zone q) (cm_active_readers (zc_cache_map c))"
      using cm.find_hit [OF M(1) Located] by blast
    have z: "unat (zp_zone q) < unat (zc_nr_zones c)" by (rule cm.located_zone [OF M(1) Located])
    have "conc_inv ops content buf p (ts[t := Hit_Read i q]) (c\<lparr>zc_cache_map := m\<rparr>) d"
    proof (rule map_step [OF inv t(1)])
      show "map_inv (unat (zc_nr_zones c)) m (ts[t := Hit_Read i q])"
        by (rule find_hit_map [OF I(8) t I(5) f(4-6) z])
      show "place_inv (unat (zc_nr_zones c)) (cm_slot m) (ts[t := Hit_Read i q])"
        unfolding f(5) by (rule find_hit_place [OF I(12) t Located])
    qed (use t z f(5) Located in \<open>simp_all add: local_ok_def\<close>)
    then show ?thesis using f(1-3) by (simp add: get_step_def)
  next
    case Absent
    obtain r m where f: "zn_cachemap_find_pass i (zc_cache_map c) = Inr (Find_Returns r, m)" "zr_type r = RESULT_COND"
      "cachemap_inv (unat (zc_nr_zones c)) m" "cm_slot m = (cm_slot (zc_cache_map c))(i := Pending)"
      "cm_active_readers m = cm_active_readers (zc_cache_map c)"
      using cm.find_miss [OF M(1) Absent] by blast
    have "conc_inv ops content buf p (ts[t := Miss_Get i]) (c\<lparr>zc_cache_map := m\<rparr>) d"
    proof (rule map_step [OF inv t(1)])
      have "cnt (\<lambda>pc. owner pc = Some j) (ts[t := Miss_Get i]) = (if cm_slot m j = Pending then 1 else 0)" for j
        using M(3) [of j] t Absent by (cases "j = i") (simp_all add: f(4) cnt_enter cnt_same)
      then show "map_inv (unat (zc_nr_zones c)) m (ts[t := Miss_Get i])"
        unfolding map_inv_def using f(3,5) M(2) t by (simp add: cnt_same)
      have "place_inv (unat (zc_nr_zones c)) (cm_slot (zc_cache_map c)) (ts[t := Miss_Get i])"
        using t by (intro place_frame [OF I(12)]) simp_all
      then show "place_inv (unat (zc_nr_zones c)) (cm_slot m) (ts[t := Miss_Get i])"
        by (rule place_slots) (simp add: f(4) split: if_splits)
      show "cm_slot (zc_cache_map c) j = Located q \<or> Some (j, q) \<in> relying ` set ts"
        if "cm_slot m j = Located q" for j q using that by (simp add: f(4) split: if_splits)
    qed (use t i in \<open>simp_all add: local_ok_def\<close>)
    then show ?thesis using f(1,2) by (simp add: get_step_def)
  qed
qed

lemma release_step:
  assumes inv: "conc_inv ops content buf p ts c d" and t: "t < length ts" "ts ! t = Hit_Release i q x"
  shows "\<exists>c'. get_step cfg ops buf (Hit_Release i q x) c d = Inr (Hit_Count i x, c', d) \<and>
    conc_inv ops content buf p (ts[t := Hit_Count i x]) c' d"
proof -
  note I = conc_invD [OF inv]
  note M = map_invD [OF I(8)]
  have L: "local_ok buf c (Hit_Release i q x)" using I(7) t by (metis nth_mem)
  have z: "unat (zp_zone q) < unat (zc_nr_zones c)" using L by (simp add: local_ok_def)
  let ?ar = "cm_active_readers (zc_cache_map c)" and ?z = "unat (zp_zone q)"
  define m where "m = (zc_cache_map c)\<lparr>cm_active_readers := ?ar[?z := ?ar ! ?z - 1]\<rparr>"
  have len: "?z < length ?ar" using cachemap_invD(2) [OF M(1)] z by simp
  have sl: "cm_slot m = cm_slot (zc_cache_map c)" by (simp add: m_def)
  have "conc_inv ops content buf p (ts[t := Hit_Count i x]) (c\<lparr>zc_cache_map := m\<rparr>) d"
  proof (rule map_step [OF inv t(1)])
    have "cachemap_inv (unat (zc_nr_zones c)) m"
      unfolding m_def by (rule cachemap_inv_slots [OF M(1)]) (simp_all add: cachemap_invD(2) [OF M(1)])
    moreover have "unat (cm_active_readers m ! unat y) = cnt (\<lambda>pc. reading pc = Some y) (ts[t := Hit_Count i x])"
      if y: "unat y < unat (zc_nr_zones c)" for y
    proof (cases "y = zp_zone q")
      case True
      have n: "Suc (cnt (\<lambda>pc. reading pc = Some y) (ts[t := Hit_Count i x])) = unat (?ar ! ?z)"
        using M(2) [OF y] t True by (simp add: cnt_leave)
      then have "0 < ?ar ! ?z" by (simp add: word_less_nat_alt)
      from unat_dec [OF this] n show ?thesis using True len by (simp add: m_def)
    next
      case False
      then have "unat y \<noteq> ?z" by simp
      then show ?thesis using False M(2) [OF y] t by (simp add: m_def cnt_same)
    qed
    ultimately show "map_inv (unat (zc_nr_zones c)) m (ts[t := Hit_Count i x])"
      unfolding map_inv_def sl using M(3) t by (simp add: cnt_same)
    show "place_inv (unat (zc_nr_zones c)) (cm_slot m) (ts[t := Hit_Count i x])"
      unfolding sl using t by (intro place_frame [OF I(12)]) simp_all
  qed (use t L sl in \<open>simp_all add: local_ok_def\<close>)
  then show ?thesis using len by (simp add: get_step_def m_def Let_def)
qed

lemma insert_place:
  assumes inv: "place_inv nz slots ts" and t: "t < length ts" "ts ! t = Miss_Insert i q x"
    and free: "place_free slots q"
  shows "place_inv nz (slots(i := Located q)) (ts[t := Returned i (Some x)])"
proof -
  note P = place_invD [OF inv] and t' = t(1)
  let ?pc = "Returned i (Some x)"
  have mem: "Miss_Insert i q x \<in> set ts" using t by (metis nth_mem)
  have "cnt (publishes_at r) (ts[t := ?pc]) + (if place_free (slots(i := Located q)) r then 0 else 1) \<le> 1" for r
  proof (cases "same_place q r")
    case True
    then have "Suc (cnt (publishes_at r) (ts[t := ?pc])) = cnt (publishes_at r) ts"
      using t by (intro cnt_leave) (simp_all add: publishes_at_def)
    then show ?thesis using P(1) [of r] by (simp split: if_splits)
  next
    case False
    then have "cnt (publishes_at r) (ts[t := ?pc]) = cnt (publishes_at r) ts"
      using t by (intro cnt_same) (simp_all add: publishes_at_def)
    moreover have "place_free (slots(i := Located q)) r" if "place_free slots r"
      using that False by (auto simp: place_free_def same_place_def)
    ultimately show ?thesis using P(1) [of r] by (auto split: if_splits)
  qed
  moreover have "int (unat (zp_zone r)) \<noteq> z" if z: "Some z \<in> cleared ` set (ts[t := ?pc])"
    and r: "(slots(i := Located q)) j = Located r" for j r z
  proof -
    obtain pc where pc: "pc \<in> set ts" "cleared pc = Some z"
      using some_image_frame [OF t', of cleared ?pc z] z by auto
    then have "int (unat (zp_zone q)) \<noteq> z" by (intro P(3) [OF _ cleared_evicting mem]) simp_all
    then show ?thesis using P(4) [OF pc, of j r] r by (cases "j = i") auto
  qed
  moreover note some_image_frame [OF t', of evicting ?pc] some_image_frame [OF t', of publishing ?pc]
    some_image_frame [OF t', of resetting ?pc] some_image_frame [OF t', of reading ?pc]
  ultimately show ?thesis using inv unfolding place_inv_def by simp
qed

lemma insert_step:
  assumes inv: "conc_inv ops content buf p ts c d" and t: "t < length ts" "ts ! t = Miss_Insert i q x"
  shows "\<exists>c'. get_step cfg ops buf (Miss_Insert i q x) c d = Inr (Returned i (Some x), c', d) \<and>
    conc_inv ops content buf p (ts[t := Returned i (Some x)]) c' d"
proof -
  note I = conc_invD [OF inv]
  note M = map_invD [OF I(8)] and P = place_invD [OF I(12)]
  have mem: "Miss_Insert i q x \<in> set ts" using t by (metis nth_mem)
  have L: "local_ok buf c (Miss_Insert i q x)" using I(7) mem by blast
  have i: "id_ok i" using L by (simp add: local_ok_def)
  have rel: "Some (i, q) \<in> relying ` set ts" using mem by (force intro: image_eqI)
  then have z: "unat (zp_zone q) < unat (zc_nr_zones c)" using I(11) unfolding data_inv_def by blast
  have pend: "cm_slot (zc_cache_map c) i = Pending" by (rule owner_pending [OF I(8) t(1)]) (simp add: t(2))
  have "0 < cnt (publishes_at q) ts" unfolding cnt_pos_iff using mem by (force simp: publishes_at_def same_place_def)
  then have free: "place_free (cm_slot (zc_cache_map c)) q" and one: "cnt (publishes_at q) ts = 1"
    using P(1) [of q] by (auto split: if_splits)
  obtain m where m: "zn_cachemap_insert (NDEBUG cfg) i q (zc_cache_map c) = Inr m" "cachemap_inv (unat (zc_nr_zones c)) m"
    "cm_slot m = (cm_slot (zc_cache_map c))(i := Located q)" "cm_active_readers m = cm_active_readers (zc_cache_map c)"
    using cm.insert_law [OF M(1) pend i z free] by blast
  let ?pc = "Returned i (Some x)"
  have "conc_inv ops content buf p (ts[t := ?pc]) (c\<lparr>zc_cache_map := m\<rparr>) d"
  proof (rule map_step [OF inv t(1)])
    have "cnt (\<lambda>pc. owner pc = Some j) (ts[t := ?pc]) = (if cm_slot m j = Pending then 1 else 0)" for j
      using M(3) [of j] t pend cnt_leave [OF t(1), of "\<lambda>pc. owner pc = Some i" ?pc]
      by (cases "j = i") (simp_all add: m(3) cnt_same)
    then show "map_inv (unat (zc_nr_zones c)) m (ts[t := ?pc])"
      unfolding map_inv_def using m(2,4) M(2) t by (simp add: cnt_same)
    show "place_inv (unat (zc_nr_zones c)) (cm_slot m) (ts[t := ?pc])" unfolding m(3)
      by (rule insert_place [OF I(12) t free])
    show "cm_slot (zc_cache_map c) j = Located r \<or> Some (j, r) \<in> relying ` set ts" if "cm_slot m j = Located r" for j r
      using that rel by (simp add: m(3) split: if_splits)
  qed (use t L in \<open>simp_all add: local_ok_def\<close>)
  then show ?thesis using m(1) by (simp add: get_step_def Let_def)
qed

lemma undo_map_step:
  assumes inv: "conc_inv ops content buf p ts c d" and t: "t < length ts" "ts ! t = Undo_Map i"
  shows "\<exists>c'. get_step cfg ops buf (Undo_Map i) c d = Inr (Returned i None, c', d) \<and>
    conc_inv ops content buf p (ts[t := Returned i None]) c' d"
proof -
  note I = conc_invD [OF inv]
  note M = map_invD [OF I(8)]
  have pend: "cm_slot (zc_cache_map c) i = Pending" by (rule owner_pending [OF I(8) t(1)]) (simp add: t(2))
  obtain m where m: "zn_cachemap_fail (NDEBUG cfg) i (zc_cache_map c) = Inr m" "cachemap_inv (unat (zc_nr_zones c)) m"
    "cm_slot m = (cm_slot (zc_cache_map c))(i := Absent)" "cm_active_readers m = cm_active_readers (zc_cache_map c)"
    using cm.fail_law [OF M(1) pend] by blast
  let ?pc = "Returned i None"
  have "conc_inv ops content buf p (ts[t := ?pc]) (c\<lparr>zc_cache_map := m\<rparr>) d"
  proof (rule map_step [OF inv t(1)])
    have "cnt (\<lambda>pc. owner pc = Some j) (ts[t := ?pc]) = (if cm_slot m j = Pending then 1 else 0)" for j
      using M(3) [of j] t pend cnt_leave [OF t(1), of "\<lambda>pc. owner pc = Some i" ?pc]
      by (cases "j = i") (simp_all add: m(3) cnt_same)
    then show "map_inv (unat (zc_nr_zones c)) m (ts[t := ?pc])"
      unfolding map_inv_def using m(2,4) M(2) t by (simp add: cnt_same)
    have "place_inv (unat (zc_nr_zones c)) (cm_slot (zc_cache_map c)) (ts[t := ?pc])"
      using t by (intro place_frame [OF I(12)]) simp_all
    then show "place_inv (unat (zc_nr_zones c)) (cm_slot m) (ts[t := ?pc])"
      by (rule place_slots) (simp add: m(3) split: if_splits)
  qed (use t m(3) in \<open>auto simp: local_ok_def split: if_splits\<close>)
  then show ?thesis using m(1) by (simp add: get_step_def Let_def)
qed

lemma zone_word:
  assumes "0 \<le> z" "nat z < n" "n < 2 ^ 31"
  shows "unat (word_of_int z :: u32) = nat z"
proof -
  have "n < 2147483648" using assms(3) by simp
  then have "z < 4294967296" using assms(1,2) by linarith
  then have "uint (word_of_int z :: u32) = z" using assms(1) by (intro word_of_int_inverse [OF refl]) simp_all
  then show ?thesis by (metis nat_int uint_nat)
qed

lemma clear_place:
  assumes inv: "place_inv nz slots ts" and t: "t < length ts" "ts ! t = Evict_Clear w n z"
    and y: "int (unat y) = z"
  shows "place_inv nz (evict_slots y slots) (ts[t := Evict_Wait w n z])"
proof -
  note P = place_invD [OF inv] and t' = t(1)
  let ?pc = "Evict_Wait w n z"
  have inv': "place_inv nz (evict_slots y slots) ts" by (rule place_slots [OF inv]) simp
  have "cnt (publishes_at r) (ts[t := ?pc]) = cnt (publishes_at r) ts" for r
    by (rule cnt_same [OF t']) (simp add: publishes_at_def t(2))
  moreover have "int (unat (zp_zone r)) \<noteq> v" if v: "Some v \<in> cleared ` set (ts[t := ?pc])"
    and r: "evict_slots y slots j = Located r" for j r v
  proof -
    have "Some v = Some z \<or> Some v \<in> cleared ` set ts" using image_update [OF t' v] by simp
    moreover have "int (unat (zp_zone r)) \<noteq> z" using r y by (metis evict_slots_Located of_nat_eq_iff unat_inject)
    ultimately show ?thesis using P(4) r by force
  qed
  moreover have "evicting ?pc = evicting (ts ! t)" using t(2) by simp
  moreover note some_image_frame [OF t', of evicting ?pc] some_image_frame [OF t', of publishing ?pc]
    some_image_frame [OF t', of resetting ?pc] some_image_frame [OF t', of reading ?pc]
  ultimately show ?thesis using inv' unfolding place_inv_def by (simp del: evict_slots_Located)
qed

lemma clear_step:
  assumes inv: "conc_inv ops content buf p ts c d" and t: "t < length ts" "ts ! t = Evict_Clear w n z"
  shows "\<exists>c'. evict_step cfg ops lock (Evict_Clear w n z) c d = Inr (Evict_Wait w n z, c', d) \<and>
    conc_inv ops content buf p (ts[t := Evict_Wait w n z]) c' d"
proof -
  note I = conc_invD [OF inv]
  note M = map_invD [OF I(8)] and P = place_invD [OF I(12)]
  have mem: "Evict_Clear w n z \<in> set ts" using t by (metis nth_mem)
  have z: "0 \<le> z" "nat z < unat (zc_nr_zones c)" using P(2) [OF mem] by simp_all
  define y :: u32 where "y = word_of_int z"
  have y: "unat y = nat z" unfolding y_def by (rule zone_word [OF z sizes_okD(2) [OF I(2)]])
  then have y': "int (unat y) = z" using z(1) by simp
  obtain m where m: "zn_cachemap_clear_zone (NDEBUG cfg) y (zc_cache_map c) = Inr m" "cachemap_inv (unat (zc_nr_zones c)) m"
    "cm_slot m = evict_slots y (cm_slot (zc_cache_map c))" "cm_active_readers m = cm_active_readers (zc_cache_map c)"
    using cm.clear_zone_law [OF M(1), of y] y z(2) by auto
  let ?pc = "Evict_Wait w n z"
  have "conc_inv ops content buf p (ts[t := ?pc]) (c\<lparr>zc_cache_map := m\<rparr>) d"
  proof (rule map_step [OF inv t(1)])
    have "cm_slot m j = Pending \<longleftrightarrow> cm_slot (zc_cache_map c) j = Pending" for j
      unfolding m(3) by (auto simp: evict_slots_def split: slot.splits)
    then show "map_inv (unat (zc_nr_zones c)) m (ts[t := ?pc])"
      unfolding map_inv_def using m(2,4) M(2,3) t by (simp add: cnt_same)
    show "place_inv (unat (zc_nr_zones c)) (cm_slot m) (ts[t := ?pc])"
      unfolding m(3) by (rule clear_place [OF I(12) t y'])
    show "local_ok buf c ?pc" using I(7) mem by (fastforce simp: local_ok_def)
  qed (use t m(3) in auto)
  then show ?thesis using m(1) by (simp add: evict_step_def y_def)
qed

lemma wait_step:
  assumes inv: "conc_inv ops content buf p ts c d" and t: "t < length ts" "ts ! t = Evict_Wait w n z"
  shows "\<exists>pc. evict_step cfg ops lock (Evict_Wait w n z) c d = Inr (pc, c, d) \<and>
    conc_inv ops content buf p (ts[t := pc]) c d"
proof -
  note I = conc_invD [OF inv]
  note M = map_invD [OF I(8)] and P = place_invD [OF I(12)]
  have mem: "Evict_Wait w n z \<in> set ts" using t by (metis nth_mem)
  have z: "0 \<le> z" "nat z < unat (zc_nr_zones c)" using P(2) [OF mem] by simp_all
  define y :: u32 where "y = word_of_int z"
  have y: "unat y = nat z" unfolding y_def by (rule zone_word [OF z sizes_okD(2) [OF I(2)]])
  let ?r = "cm_active_readers (zc_cache_map c) ! nat z"
  have r: "unat ?r = cnt (\<lambda>pc. reading pc = Some y) ts" using M(2) [of y] y z(2) by simp
  then have "unat ?r < 2 ^ 31" using cnt_le_length [of "\<lambda>pc. reading pc = Some y" ts] I(5) by simp
  then have s: "sint ?r = int (unat ?r)" by (rule sint_small)
  have len: "nat z < length (cm_active_readers (zc_cache_map c))" using cachemap_invD(2) [OF M(1)] z(2) by simp
  show ?thesis
  proof (cases "0 < sint ?r")
    case True
    have "ts[t := Evict_Wait w n z] = ts" using t(2) by (metis list_update_id)
    then show ?thesis using True inv z(1) len by (simp add: evict_step_def)
  next
    case False
    then have none: "cnt (\<lambda>pc. reading pc = Some y) ts = 0" using r s by simp
    let ?pc = "Evict_Reset w n z"
    have pl: "place_inv (unat (zc_nr_zones c)) (cm_slot (zc_cache_map c)) (ts[t := ?pc])"
    proof -
      note t' = t(1)
      have "cnt (publishes_at q) (ts[t := ?pc]) = cnt (publishes_at q) ts" for q
        by (rule cnt_same [OF t']) (simp add: publishes_at_def t(2))
      moreover have "int (unat x) \<noteq> v" if v: "Some v \<in> resetting ` set (ts[t := ?pc])"
        and x: "Some x \<in> reading ` set (ts[t := ?pc])" for x v
      proof -
        have x': "Some x \<in> reading ` set ts" using some_image_frame [OF t', of reading ?pc x] x by simp
        then have "x \<noteq> y" using none unfolding cnt_zero_iff by (metis imageE)
        then have "int (unat x) \<noteq> z" using y z(1) by (metis int_nat_eq nat_int unat_inject)
        moreover have "Some v = Some z \<or> Some v \<in> resetting ` set ts" using image_update [OF t' v] by simp
        ultimately show ?thesis using P(5) x' by (metis imageE option.inject)
      qed
      moreover have "evicting ?pc = evicting (ts ! t)" "cleared ?pc = cleared (ts ! t)" using t(2) by simp_all
      moreover note some_image_frame [OF t', of evicting ?pc] some_image_frame [OF t', of publishing ?pc]
        some_image_frame [OF t', of cleared ?pc]
      ultimately show ?thesis using I(12) unfolding place_inv_def by simp
    qed
    have "local_ok buf c ?pc" using I(7) mem by (fastforce simp: local_ok_def)
    then have "conc_inv ops content buf p (ts[t := ?pc]) (c\<lparr>zc_cache_map := zc_cache_map c\<rparr>) d"
      by (rule map_step [OF inv t(1)]) (use pl t map_frame [OF I(8) t(1)] in simp_all)
    then show ?thesis using False z(1) len by (simp add: evict_step_def)
  qed
qed

section \<open>Steps on the policy\<close>

lemma policy_step:
  assumes inv: "conc_inv ops content buf p ts c d" and t: "t < length ts" and loc: "local_ok buf c pc"
    and fp: "owner pc = owner (ts ! t)" "reading pc = reading (ts ! t)" "holding pc = holding (ts ! t)"
      "relying pc = None \<or> relying pc = relying (ts ! t)" "written pc = None \<or> written pc = written (ts ! t)"
    and q: "queue_inv (unat (zc_nr_zones c)) (zc_max_zone_chunks c) (zview (zc_zone_state c)) p' (ts[t := pc])"
    and pl: "place_inv (unat (zc_nr_zones c)) (cm_slot (zc_cache_map c)) (ts[t := pc])"
  shows "conc_inv ops content buf p' (ts[t := pc]) (c\<lparr>zc_eviction_policy := Promotional p'\<rparr>) d"
proof -
  note I = conc_invD [OF inv]
  have "data_inv content buf c (ts[t := pc]) d" by (rule data_frame [OF I(11) t fp(4,5)])
  then have data: "data_inv content buf (c\<lparr>zc_eviction_policy := Promotional p'\<rparr>) (ts[t := pc]) d"
    by (rule data_subset) simp_all
  show ?thesis
  proof (rule conc_invI)
    show "\<forall>pc' \<in> set (ts[t := pc]). local_ok buf (c\<lparr>zc_eviction_policy := Promotional p'\<rparr>) pc'"
      using locals_frame [OF I(7) t loc] by simp
  qed (use I(2-6) q pl data map_frame [OF I(8) t fp(1,2)] zone_frame [OF I(9) t fp(3)] in simp_all)
qed

lemma queue_invD:
  assumes "queue_inv nz mx view p ts"
  shows "prom_inv p" "ucast (pp_zone_max_chunks p) = mx"
    "cnt (unqueued mx z) ts + (if z \<in> set (prom_order p) then 1 else 0) =
        (if unat z < nz \<and> view (unat z) = Full then 1 else 0)"
  using assms by (simp_all add: queue_inv_def)

lemma touch_step:
  assumes inv: "conc_inv ops content buf p ts c d" and t: "t < length ts" "ts ! t = Hit_Touch i q x"
  shows "\<exists>p' c'. get_step cfg ops buf (Hit_Touch i q x) c d = Inr (Hit_Release i q x, c', d) \<and>
    conc_inv ops content buf p' (ts[t := Hit_Release i q x]) c' d"
proof -
  note I = conc_invD [OF inv]
  note Q = queue_invD [OF I(10)]
  obtain p' where p': "zn_policy_promotional_update q ZN_READ p = Inr p'" "prom_inv p'"
    "prom_order p' = touch (zp_zone q) (prom_order p)" "pp_zone_max_chunks p' = pp_zone_max_chunks p"
    using prom_read_ok [OF Q(1)] by blast
  have ordr: "set (prom_order p') = set (prom_order p)" by (auto simp: p'(3) touch_def)
  have L: "local_ok buf c (Hit_Touch i q x)" using I(7) t by (metis nth_mem)
  have "conc_inv ops content buf p' (ts[t := Hit_Release i q x]) (c\<lparr>zc_eviction_policy := Promotional p'\<rparr>) d"
  proof (rule policy_step [OF inv t(1)])
    show "queue_inv (unat (zc_nr_zones c)) (zc_max_zone_chunks c) (zview (zc_zone_state c)) p' (ts[t := Hit_Release i q x])"
      unfolding queue_inv_def ordr using p'(2,4) Q(2,3) t by (simp add: cnt_same)
    show "place_inv (unat (zc_nr_zones c)) (cm_slot (zc_cache_map c)) (ts[t := Hit_Release i q x])"
      using t by (intro place_frame [OF I(12)]) simp_all
  qed (use t L in \<open>simp_all add: local_ok_def\<close>)
  then show ?thesis using p'(1) I(1) by (auto simp: get_step_def update_policy_def Let_def)
qed

lemma last_chunk:
  assumes "ucast (pp_zone_max_chunks p) = (mx :: u64)" "0 < unat mx" "unat (zp_chunk_offset q) < unat mx"
  shows "zp_chunk_offset q = pp_zone_max_chunks p - 1 \<longleftrightarrow> unat (zp_chunk_offset q) + 1 = unat mx"
proof -
  have mx: "unat (pp_zone_max_chunks p) = unat mx" using assms(1) by (metis unat_ucast_u32_u64)
  then have "0 < pp_zone_max_chunks p" using assms(2) by (simp add: word_less_nat_alt)
  then have "unat (pp_zone_max_chunks p - 1) = unat mx - 1" by (simp add: unat_dec mx)
  then show ?thesis unfolding unat_inject [symmetric] using assms(3) by auto
qed

lemma update_step:
  assumes inv: "conc_inv ops content buf p ts c d" and t: "t < length ts" "ts ! t = Miss_Update i q x"
  shows "\<exists>p' c'. get_step cfg ops buf (Miss_Update i q x) c d = Inr (Miss_Insert i q x, c', d) \<and>
    conc_inv ops content buf p' (ts[t := Miss_Insert i q x]) c' d"
proof -
  note I = conc_invD [OF inv]
  note Q = queue_invD [OF I(10)] and S = sizes_okD [OF I(2)]
  let ?mx = "zc_max_zone_chunks c" and ?pc = "Miss_Insert i q x"
  have mem: "Miss_Update i q x \<in> set ts" using t by (metis nth_mem)
  have L: "local_ok buf c (Miss_Update i q x)" using I(7) mem by blast
  have "Some (i, q) \<in> relying ` set ts" using mem by (force intro: image_eqI)
  then have k: "unat (zp_chunk_offset q) < unat ?mx"
    using I(11) S(14) unfolding data_inv_def place_written_def by auto
  note last = last_chunk [OF Q(2) S(8) k]
  have "\<exists>p'. zn_policy_promotional_update q ZN_WRITE p = Inr p' \<and>
    queue_inv (unat (zc_nr_zones c)) ?mx (zview (zc_zone_state c)) p' (ts[t := ?pc])"
  proof (cases "unat (zp_chunk_offset q) + 1 = unat ?mx")
    case True
    have n: "Suc (cnt (unqueued ?mx (zp_zone q)) (ts[t := ?pc])) = cnt (unqueued ?mx (zp_zone q)) ts"
      using t True by (intro cnt_leave) simp_all
    then have notin: "zp_zone q \<notin> set (prom_order p)" using Q(3) [of "zp_zone q"] by (auto split: if_splits)
    obtain p' where p': "zn_policy_promotional_update q ZN_WRITE p = Inr p'" "prom_inv p'"
      "prom_order p' = prom_order p @ [zp_zone q]" "pp_zone_max_chunks p' = pp_zone_max_chunks p"
      using prom_fill_ok [OF Q(1) last [THEN iffD2, OF True] notin] by blast
    have "cnt (unqueued ?mx z) (ts[t := ?pc]) + (if z \<in> set (prom_order p') then 1 else 0) =
        cnt (unqueued ?mx z) ts + (if z \<in> set (prom_order p) then 1 else 0)" for z
      using n notin t p'(3) by (cases "z = zp_zone q") (simp_all add: cnt_same)
    then show ?thesis using p'(1,2,4) Q(2,3) by (simp add: queue_inv_def)
  next
    case False
    then have "zn_policy_promotional_update q ZN_WRITE p = Inr p" using last by (intro prom_write_ok) simp
    moreover have "queue_inv (unat (zc_nr_zones c)) ?mx (zview (zc_zone_state c)) p (ts[t := ?pc])"
      using False t by (intro queue_frame [OF I(10)]) simp_all
    ultimately show ?thesis by blast
  qed
  then obtain p' where p': "zn_policy_promotional_update q ZN_WRITE p = Inr p'"
    "queue_inv (unat (zc_nr_zones c)) ?mx (zview (zc_zone_state c)) p' (ts[t := ?pc])" by blast
  have "conc_inv ops content buf p' (ts[t := ?pc]) (c\<lparr>zc_eviction_policy := Promotional p'\<rparr>) d"
  proof (rule policy_step [OF inv t(1) _ _ _ _ _ _ p'(2)])
    show "place_inv (unat (zc_nr_zones c)) (cm_slot (zc_cache_map c)) (ts[t := ?pc])"
      using t by (intro place_frame [OF I(12)]) simp_all
  qed (use t L in \<open>simp_all add: local_ok_def\<close>)
  then show ?thesis using p'(1) I(1) by (auto simp: get_step_def update_policy_def Let_def)
qed

text \<open>
  The assumption of the comment in \<open>zn_fg_evict\<close>: the zone that is about to be taken from the queue
  has no chunk whose entry in the cache map is still to be created.
\<close>

definition quiet :: "thread_pc list \<Rightarrow> nat \<Rightarrow> zn_cache \<Rightarrow> bool" where
  "quiet ts t c \<longleftrightarrow> (case (ts ! t, zc_eviction_policy c) of
       (Evict_Choose _ _, Promotional p) \<Rightarrow> (case prom_order p of [] \<Rightarrow> True
         | z # _ \<Rightarrow> \<forall>pc \<in> set ts. case publishing pc of None \<Rightarrow> True | Some q \<Rightarrow> zp_zone q \<noteq> z)
     | _ \<Rightarrow> True)"

lemma uint_inject [simp]: "uint (x :: 'a::len word) = uint y \<longleftrightarrow> x = y"
  by (simp add: word_uint_eq_iff)

lemma choose_place:
  assumes inv: "place_inv nz slots ts" and t: "t < length ts" "ts ! t = Evict_Choose w m"
    and z: "unat z < nz" and quiet: "\<And>pc q. pc \<in> set ts \<Longrightarrow> publishing pc = Some q \<Longrightarrow> zp_zone q \<noteq> z"
  shows "place_inv nz slots (ts[t := Evict_Clear w n (int (unat z))])"
proof -
  note P = place_invD [OF inv] and t' = t(1)
  let ?pc = "Evict_Clear w n (int (unat z))"
  have "cnt (publishes_at r) (ts[t := ?pc]) = cnt (publishes_at r) ts" for r
    by (rule cnt_same [OF t']) (simp add: publishes_at_def t(2))
  moreover have "0 \<le> v \<and> nat v < nz \<and> int (unat (zp_zone q)) \<noteq> v"
    if v: "Some v \<in> evicting ` set (ts[t := ?pc])" and q: "Some q \<in> publishing ` set (ts[t := ?pc])" for v q
  proof -
    obtain pc where pc: "pc \<in> set ts" "publishing pc = Some q"
      using some_image_frame [OF t', of publishing ?pc q] q by auto
    have "v = int (unat z) \<or> Some v \<in> evicting ` set ts" using image_update [OF t' v] by auto
    then show ?thesis
    proof
      assume "v = int (unat z)"
      then show ?thesis using quiet [OF pc] z by simp
    next
      assume "Some v \<in> evicting ` set ts"
      then obtain e where "e \<in> set ts" "evicting e = Some v" by auto
      then show ?thesis using P(2,3) pc by blast
    qed
  qed
  moreover have "0 \<le> v \<and> nat v < nz" if v: "Some v \<in> evicting ` set (ts[t := ?pc])" for v
  proof -
    have "v = int (unat z) \<or> Some v \<in> evicting ` set ts" using image_update [OF t' v] by auto
    then show ?thesis using P(2) z by (metis imageE int_nat_eq nat_int of_nat_0_le_iff)
  qed
  moreover note some_image_frame [OF t', of cleared ?pc] some_image_frame [OF t', of publishing ?pc]
    some_image_frame [OF t', of resetting ?pc] some_image_frame [OF t', of reading ?pc]
  ultimately show ?thesis using inv unfolding place_inv_def by simp
qed

lemma evict_return_footprint:
  "same_footprint mx (Evict_Choose w n) (evict_return w)" "local_ok buf c (Evict_Choose w n) \<Longrightarrow> local_ok buf c (evict_return w)"
  by (cases w; simp add: same_footprint_def evict_return_def local_ok_def)+

lemma choose_step:
  assumes inv: "conc_inv ops content buf p ts c d" and t: "t < length ts" "ts ! t = Evict_Choose w n"
    and quiet: "quiet ts t c"
  shows "\<exists>p' pc c'. evict_step cfg ops lock (Evict_Choose w n) c d = Inr (pc, c', d) \<and>
    conc_inv ops content buf p' (ts[t := pc]) c' d"
proof -
  note I = conc_invD [OF inv]
  note Q = queue_invD [OF I(10)] and S = sizes_okD [OF I(2)]
  have L: "local_ok buf c (Evict_Choose w n)" using I(7) t by (metis nth_mem)
  have ret: "conc_inv ops content buf p (ts[t := evict_return w]) c d"
    using silent_step [OF inv t(1) _ _ I(6) refl, of "evict_return w" "zc_ratio c"] evict_return_footprint L t(2) by simp
  show ?thesis
  proof (cases "n = 0")
    case True
    then show ?thesis using ret by (auto simp: evict_step_def)
  next
    case n: False
    show ?thesis
    proof (cases "prom_order p = [] \<or> \<not> lock")
      case True
      then have "zn_policy_promotional_get_zone_to_evict lock p = (-1, p)" by (rule prom_evict_empty)
      moreover have same: "c\<lparr>zc_eviction_policy := Promotional p\<rparr> = c" using I(1) by simp
      ultimately have "evict_step cfg ops lock (Evict_Choose w n) c d = Inr (evict_return w, c, d)"
        using n I(1) by (simp add: evict_step_def same)
      then show ?thesis using ret by blast
    next
      case False
      then obtain z rest where ord: "prom_order p = z # rest" and lock by (cases "prom_order p") auto
      obtain p' where p': "zn_policy_promotional_get_zone_to_evict True p = (sint z, p')" "prom_inv p'"
        "prom_order p' = rest" "pp_zone_max_chunks p' = pp_zone_max_chunks p" using prom_evict_ok [OF Q(1) ord] by blast
      have z: "unat z < unat (zc_nr_zones c)" "cnt (unqueued (zc_max_zone_chunks c) z) ts = 0"
        using Q(3) [of z] ord by (auto split: if_splits)
      have sz: "sint z = int (unat z)" by (rule sint_small) (use z(1) S(2) in simp)
      let ?pc = "Evict_Clear w (n - 1) (int (unat z))"
      have notin: "z \<notin> set rest" using prom_order_distinct [OF Q(1)] ord by simp
      have "cnt (unqueued (zc_max_zone_chunks c) y) (ts[t := ?pc]) + (if y \<in> set rest then 1 else 0) =
          cnt (unqueued (zc_max_zone_chunks c) y) ts + (if y \<in> set (prom_order p) then 1 else 0)" for y
        using t notin by (cases "y = z") (simp_all add: ord cnt_enter cnt_same)
      then have q: "queue_inv (unat (zc_nr_zones c)) (zc_max_zone_chunks c) (zview (zc_zone_state c)) p' (ts[t := ?pc])"
        using p'(2-4) Q(2,3) by (simp add: queue_inv_def)
      have nopub: "zp_zone q \<noteq> z" if "pc \<in> set ts" "publishing pc = Some q" for pc q
        using quiet that t(2) I(1) ord by (fastforce simp: quiet_def)
      have "conc_inv ops content buf p' (ts[t := ?pc]) (c\<lparr>zc_eviction_policy := Promotional p'\<rparr>) d"
      proof (rule policy_step [OF inv t(1) _ _ _ _ _ _ q])
        show "place_inv (unat (zc_nr_zones c)) (cm_slot (zc_cache_map c)) (ts[t := ?pc])"
          using choose_place [OF I(12) t(1) _ z(1) nopub] t(2) by simp
      qed (use t L in \<open>simp_all add: local_ok_def\<close>)
      moreover have "uint z \<noteq> -1" using uint_ge_0 [of z] by linarith
      then have "evict_step cfg ops lock (Evict_Choose w n) c d = Inr (?pc, c\<lparr>zc_eviction_policy := Promotional p'\<rparr>, d)"
        using p'(1) sz n I(1) \<open>lock\<close> by (simp add: evict_step_def)
      ultimately show ?thesis by blast
    qed
  qed
qed

section \<open>Steps on the zones and the device\<close>

lemma zones_step:
  assumes inv: "conc_inv ops content buf p ts c d" and t: "t < length ts" and loc: "local_ok buf c pc"
    and fp: "owner pc = owner (ts ! t)" "reading pc = reading (ts ! t)"
    and cfg: "zsm_cfg zs = zsm_cfg (zc_zone_state c)" and zs: "zone_inv ops zs (ts[t := pc])"
    and q: "queue_inv (unat (zc_nr_zones c)) (zc_max_zone_chunks c) (zview zs) p (ts[t := pc])"
    and data: "data_inv content buf (c\<lparr>zc_zone_state := zs\<rparr>) (ts[t := pc]) d'"
    and pl: "place_inv (unat (zc_nr_zones c)) (cm_slot (zc_cache_map c)) (ts[t := pc])"
  shows "conc_inv ops content buf p (ts[t := pc]) (c\<lparr>zc_zone_state := zs\<rparr>) d'"
proof -
  note I = conc_invD [OF inv]
  show ?thesis
  proof (rule conc_invI)
    show "sizes_ok (c\<lparr>zc_zone_state := zs\<rparr>)" using I(2) cfg by (simp add: sizes_ok_def)
    show "\<forall>pc' \<in> set (ts[t := pc]). local_ok buf (c\<lparr>zc_zone_state := zs\<rparr>) pc'"
      using locals_frame [OF I(7) t loc] by simp
  qed (use I(1,3-6) zs q pl data map_frame [OF I(8) t fp(1,2)] in simp_all)
qed

lemma zone_invD:
  assumes "zone_inv ops zs ts"
  shows "zsm_sound ops zs"
    "z < unat (zs_num_zones zs) \<Longrightarrow>
      cnt (\<lambda>pc. at_place z k (holding pc)) ts = (if zview zs z = Writing k then 1 else 0)"
  using assms by (simp_all add: zone_inv_def)

lemma data_invD:
  assumes "data_inv content buf c ts d"
    and "cm_slot (zc_cache_map c) i = Located q \<or> Some (i, q) \<in> relying ` set ts"
  shows "unat (zp_zone q) < unat (zc_nr_zones c)" "place_written (zc_zone_state c) q" "chunk_stored content buf c d i q"
  using assms unfolding data_inv_def by blast+

lemma data_inv_writtenD:
  assumes "data_inv content buf c ts d" "Some (i, q) \<in> written ` set ts"
  shows "chunk_stored content buf c d i q"
  using assms unfolding data_inv_def by blast

lemma data_invI:
  assumes "\<And>i q. cm_slot (zc_cache_map c) i = Located q \<or> Some (i, q) \<in> relying ` set ts \<Longrightarrow>
        unat (zp_zone q) < unat (zc_nr_zones c) \<and> place_written (zc_zone_state c) q \<and> chunk_stored content buf c d i q"
    "\<And>i q. Some (i, q) \<in> written ` set ts \<Longrightarrow> chunk_stored content buf c d i q"
  shows "data_inv content buf c ts d"
  using assms unfolding data_inv_def by blast

lemma data_enter:
  assumes data: "data_inv content buf c ts d" and t: "t < length ts"
    and rel: "\<And>i q. relying pc = Some (i, q) \<Longrightarrow>
      unat (zp_zone q) < unat (zc_nr_zones c) \<and> place_written (zc_zone_state c) q \<and> chunk_stored content buf c d i q"
    and wr: "\<And>i q. written pc = Some (i, q) \<Longrightarrow> chunk_stored content buf c d i q"
  shows "data_inv content buf c (ts[t := pc]) d"
proof (rule data_invI)
  fix i q assume iq: "cm_slot (zc_cache_map c) i = Located q \<or> Some (i, q) \<in> relying ` set (ts[t := pc])"
  then consider "relying pc = Some (i, q)" | "cm_slot (zc_cache_map c) i = Located q \<or> Some (i, q) \<in> relying ` set ts"
    using image_update [OF t, of "Some (i, q)" relying pc] by metis
  then show "unat (zp_zone q) < unat (zc_nr_zones c) \<and> place_written (zc_zone_state c) q \<and> chunk_stored content buf c d i q"
    using rel data_invD [OF data] by cases blast+
next
  fix i q assume "Some (i, q) \<in> written ` set (ts[t := pc])"
  then consider "written pc = Some (i, q)" | "Some (i, q) \<in> written ` set ts"
    using image_update [OF t, of "Some (i, q)" written pc] by metis
  then show "chunk_stored content buf c d i q" using wr data_inv_writtenD [OF data] by cases blast+
qed

text \<open>A thread with a place in its hands is the writer of the zone.\<close>

lemma holder:
  assumes inv: "conc_inv ops content buf p ts c d" and mem: "pc \<in> set ts" "holding pc = Some q"
  shows "unat (zp_zone q) < unat (zc_nr_zones c)" "unat (zp_chunk_offset q) < unat (zc_max_zone_chunks c)"
    "zview (zc_zone_state c) (unat (zp_zone q)) = Writing (unat (zp_chunk_offset q))" "held (zc_zone_state c) q"
proof -
  note I = conc_invD [OF inv]
  note Z = zone_invD [OF I(9)] and S = sizes_okD [OF I(2)]
  show z: "unat (zp_zone q) < unat (zc_nr_zones c)" "unat (zp_chunk_offset q) < unat (zc_max_zone_chunks c)"
    using I(7) mem by (auto simp: local_ok_def)
  let ?P = "\<lambda>pc. at_place (unat (zp_zone q)) (unat (zp_chunk_offset q)) (holding pc)"
  have "?P pc" using mem(2) by (simp add: at_place_def)
  then have "0 < cnt ?P ts" using mem(1) unfolding cnt_pos_iff by blast
  then show v: "zview (zc_zone_state c) (unat (zp_zone q)) = Writing (unat (zp_chunk_offset q))"
    using Z(2) [of "unat (zp_zone q)" "unat (zp_chunk_offset q)"] z(1) S(15) by (auto split: if_splits)
  show "held (zc_zone_state c) q" using v z(1) S(15) zsm_soundD(5) [OF Z(1)] by (simp add: held_def)
qed

text \<open>A written place is not the place in the hands of a thread.\<close>

lemma written_not_held:
  "zview zs (unat (zp_zone q)) = Writing (unat (zp_chunk_offset q)) \<Longrightarrow> place_written zs r \<Longrightarrow> \<not> same_place q r"
  by (auto simp: same_place_def place_written_def)

text \<open>The views a zone goes through while it is written.\<close>

definition view_grows :: "zone_view \<Rightarrow> zone_view \<Rightarrow> bool" where
  "view_grows v w \<longleftrightarrow> (\<exists>k. (v = Filling k \<or> v = Free \<and> k = 0) \<and> w = Writing k \<or>
     v = Writing k \<and> (w = Filling k \<or> w = Filling (k + 1) \<or> w = Full))"

lemma place_written_grows:
  assumes "place_written zs q" "zview zs' = (zview zs)(z := w)" "view_grows (zview zs z) w"
    "zs_max_zone_chunks zs' = zs_max_zone_chunks zs"
  shows "place_written zs' q"
  using assms by (auto simp: place_written_def view_grows_def)

lemma data_grows:
  assumes data: "data_inv content buf c ts d" and cont: "content d' = content d"
    and zs: "zview zs = (zview (zc_zone_state c))(z := w)" "zsm_cfg zs = zsm_cfg (zc_zone_state c)"
    and g: "view_grows (zview (zc_zone_state c) z) w"
  shows "data_inv content buf (c\<lparr>zc_zone_state := zs\<rparr>) ts d'"
proof -
  have "zs_max_zone_chunks zs = zs_max_zone_chunks (zc_zone_state c)" using zs(2) by (simp add: zsm_cfg_def)
  note grow = place_written_grows [OF _ zs(1) g this] and st = same_content_stored [of content d' d buf c, OF cont]
  show ?thesis
    by (rule data_invI) (use data_invD [OF data] data_inv_writtenD [OF data] grow st in simp_all)
qed

lemma get_zone_step:
  assumes dev: "device_ok ops content" and inv: "conc_inv ops content buf p ts c d"
    and t: "t < length ts" "ts ! t = Miss_Get i"
  shows "\<exists>pc c' d'. get_step cfg ops buf (Miss_Get i) c d = Inr (pc, c', d') \<and>
    conc_inv ops content buf p (ts[t := pc]) c' d'"
proof -
  note I = conc_invD [OF inv]
  note Z = zone_invD [OF I(9)] and S = sizes_okD [OF I(2)] and Q = queue_invD [OF I(10)]
  have L: "local_ok buf c (Miss_Get i)" using I(7) t by (metis nth_mem)
  have same: "c\<lparr>zc_zone_state := zc_zone_state c\<rparr> = c" by simp
  obtain e cell zs d' where g: "zsm_get_active_zone (NDEBUG cfg) ops Indet (zc_zone_state c) d = Inr (e, cell, zs, d')"
    "zsm_sound ops zs" "zsm_cfg zs = zsm_cfg (zc_zone_state c)"
    "d' = d \<or> (\<exists>off. d' = snd (zbd_open_zones ops (zs_fd (zc_zone_state c)) off 1 d))"
    and e: "e = ZSM_GET_ACTIVE_ZONE_SUCCESS \<and> (\<exists>z k. z < unat (zc_nr_zones c) \<and> k < unat (zc_max_zone_chunks c) \<and>
        cell = Init (chunk_at z k) \<and> (zview (zc_zone_state c) z = Filling k \<or> zview (zc_zone_state c) z = Free \<and> k = 0) \<and>
        zview zs = (zview (zc_zone_state c))(z := Writing k)) \<or>
      e = ZSM_GET_ACTIVE_ZONE_EVICT \<and> zs = zc_zone_state c \<and> d' = d \<or>
      e = ZSM_GET_ACTIVE_ZONE_RETRY \<and> zs = zc_zone_state c \<and> d' = d"
    using get_reliable [OF Z(1), of "NDEBUG cfg" Indet d] unfolding S(14,15) by blast
  from e consider z k where "e = ZSM_GET_ACTIVE_ZONE_SUCCESS" "z < unat (zc_nr_zones c)" "k < unat (zc_max_zone_chunks c)"
      "cell = Init (chunk_at z k)" "zview (zc_zone_state c) z = Filling k \<or> zview (zc_zone_state c) z = Free \<and> k = 0"
      "zview zs = (zview (zc_zone_state c))(z := Writing k)"
    | "e = ZSM_GET_ACTIVE_ZONE_EVICT" "zs = zc_zone_state c" "d' = d"
    | "e = ZSM_GET_ACTIVE_ZONE_RETRY" "zs = zc_zone_state c" "d' = d" by blast
  then show ?thesis
  proof cases
    case 1
    let ?pc = "Miss_Write i (chunk_at z k)"
    have cont: "content d' = content d" using g(4) zbd_same_content(1) [OF device_okD(3) [OF dev]] by auto
    have len: "z < length (zs_state zs)" using 1(2) zsm_soundD(5) [OF g(2)] S(15) g(3) by (simp add: zsm_cfg_def)
    have U: "unat (zp_zone (chunk_at z k)) = z" "unat (zp_chunk_offset (chunk_at z k)) = k"
      by (rule chunk_at_unat [OF zsm_soundD(1) [OF g(2)] len]; use 1(3) S(14) g(3) in \<open>simp add: zsm_cfg_def\<close>)+
    have "conc_inv ops content buf p (ts[t := ?pc]) (c\<lparr>zc_zone_state := zs\<rparr>) d'"
    proof (rule zones_step [OF inv t(1) _ _ _ g(3)])
      have "cnt (\<lambda>pc. at_place y j (holding pc)) (ts[t := ?pc]) = (if zview zs y = Writing j then 1 else 0)"
        if y: "y < unat (zs_num_zones (zc_zone_state c))" for y j
        using Z(2) [OF y, of j] 1(5) t U
        by (cases "y = z \<and> j = k") (auto simp: 1(6) at_place_def cnt_enter cnt_same)
      moreover have "zs_num_zones zs = zs_num_zones (zc_zone_state c)" using g(3) by (simp add: zsm_cfg_def)
      ultimately show "zone_inv ops zs (ts[t := ?pc])" using g(2) by (simp add: zone_inv_def)
      have "(zview zs (unat y) = Full) = (zview (zc_zone_state c) (unat y) = Full)" for y :: u32
        using 1(5) by (auto simp: 1(6))
      then show "queue_inv (unat (zc_nr_zones c)) (zc_max_zone_chunks c) (zview zs) p (ts[t := ?pc])"
        using queue_frame [OF I(10) t(1), of ?pc] t(2) by (simp add: queue_inv_def)
      have "view_grows (zview (zc_zone_state c) z) (Writing k)" using 1(5) by (auto simp: view_grows_def)
      then show "data_inv content buf (c\<lparr>zc_zone_state := zs\<rparr>) (ts[t := ?pc]) d'"
        using data_grows [OF data_frame [OF I(11) t(1), of ?pc] cont 1(6) g(3)] by simp
      show "place_inv (unat (zc_nr_zones c)) (cm_slot (zc_cache_map c)) (ts[t := ?pc])"
        using t by (intro place_frame [OF I(12)]) simp_all
    qed (use t L 1(2,3) U in \<open>simp_all add: local_ok_def\<close>)
    then show ?thesis using g(1) 1(1,4) by (simp add: get_step_def)
  next
    case 2
    have "conc_inv ops content buf p (ts[t := Evict_Start (Some i)]) (c\<lparr>zc_ratio := zc_ratio c, zc_reader := zc_reader c\<rparr>) d"
      by (rule silent_step [OF inv t(1) _ _ I(6) refl]) (use t L in \<open>simp_all add: same_footprint_def local_ok_def\<close>)
    then show ?thesis using g(1) 2 by (simp add: get_step_def)
  next
    case 3
    have "ts[t := Miss_Get i] = ts" using t(2) by (metis list_update_id)
    then show ?thesis using g(1) 3 inv by (simp add: get_step_def)
  qed
qed

text \<open>A transfer into the place in hand leaves the chunks of all others as they are.\<close>

lemma write_keeps:
  assumes inv: "conc_inv ops content buf p ts c d" and t: "t < length ts" "ts ! t = Miss_Write i q"
    and out: "same_outside content (unat (chunk_addr (zc_zone_size c) (zc_chunk_sz c) q)) (unat (zc_chunk_sz c)) d d'"
  shows "data_inv content buf c (ts[t := Undo_Zone i q]) d'"
proof -
  note I = conc_invD [OF inv]
  note S = sizes_okD [OF I(2)] and Z = zone_invD [OF I(9)]
  have mem: "Miss_Write i q \<in> set ts" using t by (metis nth_mem)
  note H = holder [OF inv mem, of q, simplified]
  have keep: "chunk_stored content buf c d' j r"
    if st: "chunk_stored content buf c d j r" and ne: "\<not> same_place q r"
      and r: "unat (zp_zone r) < unat (zc_nr_zones c)" "unat (zp_chunk_offset r) < unat (zc_max_zone_chunks c)" for j r
    by (rule chunk_stored_cong [OF st], rule other_chunk_bytes [OF I(2) ne H(1,2) r out])
  have data: "data_inv content buf c (ts[t := Undo_Zone i q]) d" by (rule data_frame [OF I(11) t(1)]) simp_all
  show ?thesis
  proof (rule data_invI)
    fix j r assume jr: "cm_slot (zc_cache_map c) j = Located r \<or> Some (j, r) \<in> relying ` set (ts[t := Undo_Zone i q])"
    note D = data_invD [OF data jr]
    have "unat (zp_chunk_offset r) < unat (zc_max_zone_chunks c)" using D(2) S(14) by (simp add: place_written_def)
    from keep [OF D(3) written_not_held [OF H(3) D(2)] D(1) this] D
    show "unat (zp_zone r) < unat (zc_nr_zones c) \<and> place_written (zc_zone_state c) r \<and> chunk_stored content buf c d' j r"
      by blast
  next
    fix j r assume jr: "Some (j, r) \<in> written ` set (ts[t := Undo_Zone i q])"
    then have "Some (j, r) \<in> written ` set ts" using some_image_frame [OF t(1), of written "Undo_Zone i q"] by simp
    then obtain u where u: "u < length ts" "written (ts ! u) = Some (j, r)" by (auto simp: in_set_conv_nth)
    then have hold: "holding (ts ! u) = Some r" by (cases "ts ! u") auto
    have "u \<noteq> t" using u(2) t(2) by auto
    let ?P = "\<lambda>pc. at_place (unat (zp_zone q)) (unat (zp_chunk_offset q)) (holding pc)"
    have "cnt ?P ts \<le> 1" using Z(2) [of "unat (zp_zone q)" "unat (zp_chunk_offset q)"] H(1) S(15) by (simp split: if_splits)
    then have "\<not> ?P (ts ! u)" using cnt_one_other [of ?P ts t u] t u(1) \<open>u \<noteq> t\<close> by (auto simp: at_place_def)
    then have "\<not> same_place q r" using hold by (auto simp: at_place_def same_place_def)
    with keep data_inv_writtenD [OF data jr] holder(1,2) [OF inv nth_mem [OF u(1)] hold]
    show "chunk_stored content buf c d' j r" by blast
  qed
qed

lemma write_step:
  assumes dev: "device_ok ops content" and inv: "conc_inv ops content buf p ts c d"
    and t: "t < length ts" "ts ! t = Miss_Write i q"
  shows "\<exists>pc d'. get_step cfg ops buf (Miss_Write i q) c d = Inr (pc, c, d') \<and>
    conc_inv ops content buf p (ts[t := pc]) c d'"
proof -
  note I = conc_invD [OF inv]
  note S = sizes_okD [OF I(2)]
  have mem: "Miss_Write i q \<in> set ts" using t by (metis nth_mem)
  note H = holder [OF inv mem, of q, simplified]
  have L: "local_ok buf c (Miss_Write i q)" using I(7) mem by blast
  let ?wp = "chunk_addr (zc_zone_size c) (zc_chunk_sz c) q"
  obtain data where data: "zn_gen_write_buffer (zc_chunk_sz c) i buf = Inr data" "length data = unat (zc_chunk_sz c)"
    using zn_gen_write_buffer_ok [OF S(3) I(3), of i] by blast
  obtain r d' where w: "zn_write_out (NDEBUG cfg) ops (zc_fd c) (zc_chunk_sz c) data (zc_io_size c) ?wp d = Inr (r, d')"
    "same_outside content (unat ?wp) (unat (zc_chunk_sz c)) d d'"
    "r = 0 \<longrightarrow> disk_bytes content d' (unat ?wp) (unat (zc_chunk_sz c)) = data"
    using zn_write_out_ok [OF device_okD(1) [OF dev] chunk_io_ok [OF I(2) H(1,2)], of data "NDEBUG cfg" "zc_fd c" d] data(2) by auto
  have undo: "data_inv content buf c (ts[t := Undo_Zone i q]) d'" by (rule write_keeps [OF inv t w(2)])
  define pc where "pc = (if r \<noteq> 0 then Undo_Zone i q else Miss_Count i q data)"
  have "data_inv content buf c (ts[t := pc]) d'"
  proof (cases "r = 0")
    case True
    then have st: "chunk_stored content buf c d' i q" using w(3) data(1) by (simp add: chunk_stored_def)
    have "data_inv content buf c ((ts[t := Undo_Zone i q])[t := pc]) d'"
      using data_enter [OF undo, of t pc] st t(1) True by (simp add: pc_def)
    then show ?thesis by simp
  qed (use undo in \<open>simp add: pc_def\<close>)
  then have data_pc: "data_inv content buf (c\<lparr>zc_zone_state := zc_zone_state c\<rparr>) (ts[t := pc]) d'" by simp
  have F: "owner pc = owner (ts ! t)" "reading pc = reading (ts ! t)" "holding pc = holding (ts ! t)"
    "publishing pc = publishing (ts ! t)" "evicting pc = None" "cleared pc = None" "resetting pc = None" "reading pc = None"
    "\<And>z. unqueued (zc_max_zone_chunks c) z pc = unqueued (zc_max_zone_chunks c) z (ts ! t)"
    using t(2) by (simp_all add: pc_def)
  have "local_ok buf c pc" using L data(1) by (simp add: local_ok_def pc_def)
  then have "conc_inv ops content buf p (ts[t := pc]) (c\<lparr>zc_zone_state := zc_zone_state c\<rparr>) d'"
    by (rule zones_step [OF inv t(1) _ F(1,2) refl zone_frame [OF I(9) t(1) F(3)] queue_frame [OF I(10) t(1) F(9)] data_pc])
      (intro place_frame [OF I(12) t(1) F(4)] disjI1 F)
  then show ?thesis using data(1) w(1) by (simp add: get_step_def Let_def chunk_addr_def pc_def)
qed

text \<open>The thread gives its zone back: the zone is no longer being written.\<close>

lemma give_back_zone:
  assumes inv: "conc_inv ops content buf p ts c d" and t: "t < length ts" "holding (ts ! t) = Some q" "holding pc = None"
    and zs: "zsm_sound ops zs" "zsm_cfg zs = zsm_cfg (zc_zone_state c)"
      "zview zs = (zview (zc_zone_state c))(unat (zp_zone q) := w)" "\<And>k. w \<noteq> Writing k"
  shows "zone_inv ops zs (ts[t := pc])"
proof -
  note I = conc_invD [OF inv]
  note Z = zone_invD [OF I(9)]
  note H = holder [OF inv nth_mem [OF t(1)] t(2)]
  have n: "zs_num_zones zs = zs_num_zones (zc_zone_state c)" using zs(2) by (simp add: zsm_cfg_def)
  have "cnt (\<lambda>pc. at_place y j (holding pc)) (ts[t := pc]) = (if zview zs y = Writing j then 1 else 0)"
    if y: "y < unat (zs_num_zones (zc_zone_state c))" for y j
  proof (cases "y = unat (zp_zone q) \<and> j = unat (zp_chunk_offset q)")
    case True
    then have "Suc (cnt (\<lambda>pc. at_place y j (holding pc)) (ts[t := pc])) = cnt (\<lambda>pc. at_place y j (holding pc)) ts"
      using t by (intro cnt_leave) (simp_all add: at_place_def)
    then show ?thesis using Z(2) [OF y, of j] zs(3,4) True by (auto split: if_splits)
  next
    case False
    then have "cnt (\<lambda>pc. at_place y j (holding pc)) (ts[t := pc]) = cnt (\<lambda>pc. at_place y j (holding pc)) ts"
      using t by (intro cnt_same) (auto simp: at_place_def)
    then show ?thesis using Z(2) [OF y, of j] zs(3,4) H(3) False by auto
  qed
  then show ?thesis using zs(1) n by (simp add: zone_inv_def)
qed

lemma undo_zone_step:
  assumes inv: "conc_inv ops content buf p ts c d" and t: "t < length ts" "ts ! t = Undo_Zone i q"
  shows "\<exists>c'. get_step cfg ops buf (Undo_Zone i q) c d = Inr (Undo_Map i, c', d) \<and>
    conc_inv ops content buf p (ts[t := Undo_Map i]) c' d"
proof -
  note I = conc_invD [OF inv]
  note Z = zone_invD [OF I(9)]
  have mem: "Undo_Zone i q \<in> set ts" using t by (metis nth_mem)
  note H = holder [OF inv mem, of q, simplified]
  have L: "local_ok buf c (Undo_Zone i q)" using I(7) mem by blast
  obtain zs where zs: "zsm_failed_to_write (NDEBUG cfg) q (zc_zone_state c) = Inr zs" "zsm_sound ops zs"
    "zsm_cfg zs = zsm_cfg (zc_zone_state c)"
    "zview zs = (zview (zc_zone_state c))(unat (zp_zone q) := Filling (unat (zp_chunk_offset q)))"
    using failed_reliable [OF Z(1) H(4)] by blast
  have "conc_inv ops content buf p (ts[t := Undo_Map i]) (c\<lparr>zc_zone_state := zs\<rparr>) d"
  proof (rule zones_step [OF inv t(1) _ _ _ zs(3)])
    show "zone_inv ops zs (ts[t := Undo_Map i])"
      by (rule give_back_zone [OF inv t(1) _ _ zs(2-4)]) (simp_all add: t(2))
    have "(zview zs (unat y) = Full) = (zview (zc_zone_state c) (unat y) = Full)" for y :: u32
      using H(3) by (auto simp: zs(4))
    then show "queue_inv (unat (zc_nr_zones c)) (zc_max_zone_chunks c) (zview zs) p (ts[t := Undo_Map i])"
      using queue_frame [OF I(10) t(1), of "Undo_Map i"] t(2) by (simp add: queue_inv_def)
    have "view_grows (zview (zc_zone_state c) (unat (zp_zone q))) (Filling (unat (zp_chunk_offset q)))"
      using H(3) by (auto simp: view_grows_def)
    then show "data_inv content buf (c\<lparr>zc_zone_state := zs\<rparr>) (ts[t := Undo_Map i]) d"
      using data_grows [OF data_frame [OF I(11) t(1), of "Undo_Map i"] refl zs(4,3)] by simp
    show "place_inv (unat (zc_nr_zones c)) (cm_slot (zc_cache_map c)) (ts[t := Undo_Map i])"
      using t by (intro place_frame [OF I(12)]) simp_all
  qed (use t L in \<open>simp_all add: local_ok_def\<close>)
  then show ?thesis using zs(1) by (simp add: get_step_def Let_def)
qed

text \<open>A zone in eviction is full.\<close>

lemma evicting_full:
  assumes inv: "conc_inv ops content buf p ts c d" and e: "pc \<in> set ts" "evicting pc = Some z"
  shows "0 \<le> z" "nat z < unat (zc_nr_zones c)" "zview (zc_zone_state c) (nat z) = Full"
    "unat (word_of_int z :: u32) = nat z" "cnt (unqueued (zc_max_zone_chunks c) (word_of_int z)) ts = 1"
    "word_of_int z \<notin> set (prom_order p)"
proof -
  note I = conc_invD [OF inv]
  note Q = queue_invD [OF I(10)]
  show z: "0 \<le> z" "nat z < unat (zc_nr_zones c)" using place_invD(2) [OF I(12) e] by simp_all
  show y: "unat (word_of_int z :: u32) = nat z" by (rule zone_word [OF z sizes_okD(2) [OF I(2)]])
  have "unqueued (zc_max_zone_chunks c) (word_of_int z) pc" using e(2) y z(1) by (simp add: unqueued_def)
  then have "0 < cnt (unqueued (zc_max_zone_chunks c) (word_of_int z)) ts" using e(1) unfolding cnt_pos_iff by blast
  with Q(3) [of "word_of_int z"] y show "zview (zc_zone_state c) (nat z) = Full"
    "cnt (unqueued (zc_max_zone_chunks c) (word_of_int z)) ts = 1" "word_of_int z \<notin> set (prom_order p)"
    by (auto split: if_splits)
qed

lemma return_place:
  assumes inv: "conc_inv ops content buf p ts c d" and t: "t < length ts" "ts ! t = Miss_Return i q x"
  shows "place_inv (unat (zc_nr_zones c)) (cm_slot (zc_cache_map c)) (ts[t := Miss_Update i q x])"
proof -
  note I = conc_invD [OF inv]
  note P = place_invD [OF I(12)] and t' = t(1)
  let ?pc = "Miss_Update i q x"
  have mem: "Miss_Return i q x \<in> set ts" using t by (metis nth_mem)
  note H = holder [OF inv mem, of q, simplified]
  have no: "\<not> same_place q r" if "cm_slot (zc_cache_map c) j = Located r \<or> Some (j, r) \<in> relying ` set ts" for j r
    by (rule written_not_held [OF H(3) data_invD(2) [OF I(11) that]])
  have nopub: "\<not> publishes_at r pc" if r: "same_place q r" and pc: "pc \<in> set ts" for pc r
  proof
    assume "publishes_at r pc"
    then obtain v where v: "publishing pc = Some v" "same_place v r" by (auto simp: publishes_at_def split: option.splits)
    then obtain j where "relying pc = Some (j, v)" by (cases pc) auto
    then have "\<not> same_place q v" using no [of j v] pc by (metis image_eqI)
    then show False using r v(2) by (auto simp: same_place_def)
  qed
  have "cnt (publishes_at r) (ts[t := ?pc]) + (if place_free (cm_slot (zc_cache_map c)) r then 0 else 1) \<le> 1" for r
  proof (cases "same_place q r")
    case True
    then have "cnt (publishes_at r) ts = 0" using nopub by (simp add: cnt_zero_iff)
    moreover have "place_free (cm_slot (zc_cache_map c)) r" using no True by (auto simp: place_free_def same_place_def)
    ultimately show ?thesis using t True by (simp add: cnt_enter publishes_at_def)
  next
    case False
    then have "cnt (publishes_at r) (ts[t := ?pc]) = cnt (publishes_at r) ts"
      using t by (intro cnt_same) (simp_all add: publishes_at_def)
    then show ?thesis using P(1) [of r] by simp
  qed
  moreover have "int (unat (zp_zone r)) \<noteq> z" if z: "Some z \<in> evicting ` set (ts[t := ?pc])"
    and r: "Some r \<in> publishing ` set (ts[t := ?pc])" for r z
  proof -
    obtain e where e: "e \<in> set ts" "evicting e = Some z" using some_image_frame [OF t', of evicting ?pc z] z by auto
    have "Some r = Some q \<or> Some r \<in> publishing ` set ts" using image_update [OF t' r] by simp
    then show ?thesis
    proof
      assume "Some r = Some q"
      then show ?thesis using evicting_full(1,3) [OF inv e] H(3) by auto
    next
      assume "Some r \<in> publishing ` set ts"
      then show ?thesis using P(3) [OF e] by (metis imageE)
    qed
  qed
  moreover note some_image_frame [OF t', of cleared ?pc] some_image_frame [OF t', of evicting ?pc]
    some_image_frame [OF t', of resetting ?pc] some_image_frame [OF t', of reading ?pc]
  ultimately show ?thesis using I(12) unfolding place_inv_def by simp
qed

lemma return_queue:
  assumes inv: "conc_inv ops content buf p ts c d" and t: "t < length ts" "ts ! t = Miss_Return i q x"
    and w: "w = (if unat (zp_chunk_offset q) + 1 < unat (zc_max_zone_chunks c) then Filling (unat (zp_chunk_offset q) + 1) else Full)"
  shows "queue_inv (unat (zc_nr_zones c)) (zc_max_zone_chunks c)
    ((zview (zc_zone_state c))(unat (zp_zone q) := w)) p (ts[t := Miss_Update i q x])"
proof -
  note I = conc_invD [OF inv]
  note Q = queue_invD [OF I(10)]
  let ?mx = "zc_max_zone_chunks c" and ?pc = "Miss_Update i q x"
  have mem: "Miss_Return i q x \<in> set ts" using t by (metis nth_mem)
  note H = holder [OF inv mem, of q, simplified]
  have "cnt (unqueued ?mx y) (ts[t := ?pc]) + (if y \<in> set (prom_order p) then 1 else 0) =
    (if unat y < unat (zc_nr_zones c) \<and> ((zview (zc_zone_state c))(unat (zp_zone q) := w)) (unat y) = Full then 1 else 0)" for y
  proof (cases "y = zp_zone q")
    case True
    have z: "cnt (unqueued ?mx y) ts = 0" "y \<notin> set (prom_order p)" using Q(3) [of y] True H(3) by (auto split: if_splits)
    show ?thesis
    proof (cases "unat (zp_chunk_offset q) + 1 = unat ?mx")
      case last: True
      then have "cnt (unqueued ?mx y) (ts[t := ?pc]) = Suc (cnt (unqueued ?mx y) ts)"
        using t True by (intro cnt_enter) simp_all
      then show ?thesis using z True last w H(1) by simp
    next
      case False
      then have "cnt (unqueued ?mx y) (ts[t := ?pc]) = cnt (unqueued ?mx y) ts" using t by (intro cnt_same) simp_all
      then show ?thesis using z True False w H(2) by simp
    qed
  next
    case False
    then have "cnt (unqueued ?mx y) (ts[t := ?pc]) = cnt (unqueued ?mx y) ts" using t by (intro cnt_same) auto
    then show ?thesis using Q(3) [of y] False by simp
  qed
  then show ?thesis using Q(1,2) by (simp add: queue_inv_def)
qed

lemma return_step:
  assumes dev: "device_ok ops content" and inv: "conc_inv ops content buf p ts c d"
    and t: "t < length ts" "ts ! t = Miss_Return i q x"
  shows "\<exists>c' d'. get_step cfg ops buf (Miss_Return i q x) c d = Inr (Miss_Update i q x, c', d') \<and>
    conc_inv ops content buf p (ts[t := Miss_Update i q x]) c' d'"
proof -
  note I = conc_invD [OF inv]
  note Z = zone_invD [OF I(9)] and S = sizes_okD [OF I(2)]
  have mem: "Miss_Return i q x \<in> set ts" using t by (metis nth_mem)
  note H = holder [OF inv mem, of q, simplified]
  have L: "local_ok buf c (Miss_Return i q x)" using I(7) mem by blast
  let ?pc = "Miss_Update i q x"
  define w where "w = (if unat (zp_chunk_offset q) + 1 < unat (zc_max_zone_chunks c)
      then Filling (unat (zp_chunk_offset q) + 1) else Full)"
  have aw: "after_write (zc_zone_state c) (unat (zp_chunk_offset q)) 0 = w" by (simp add: after_write_def w_def S(14))
  obtain zs d' where zs: "zsm_return_active_zone (NDEBUG cfg) ops q (zc_zone_state c) d = Inr (0, zs, d')"
    "zsm_sound ops zs" "zsm_cfg zs = zsm_cfg (zc_zone_state c)"
    "zview zs = (zview (zc_zone_state c))(unat (zp_zone q) := w)"
    "d' = d \<or> (\<exists>off. d' = snd (zbd_finish_zones ops (zs_fd (zc_zone_state c)) off (zs_zone_cap (zc_zone_state c)) d))"
    using ret_reliable [OF Z(1) H(4), of "NDEBUG cfg" d] unfolding aw by blast
  have cont: "content d' = content d" using zs(5) zbd_same_content(2) [OF device_okD(3) [OF dev]] by auto
  have "conc_inv ops content buf p (ts[t := ?pc]) (c\<lparr>zc_zone_state := zs\<rparr>) d'"
  proof (rule zones_step [OF inv t(1) _ _ _ zs(3)])
    show "zone_inv ops zs (ts[t := ?pc])"
      by (rule give_back_zone [OF inv t(1) _ _ zs(2-4)]) (simp_all add: t(2) w_def)
    show "queue_inv (unat (zc_nr_zones c)) (zc_max_zone_chunks c) (zview zs) p (ts[t := ?pc])"
      unfolding zs(4) by (rule return_queue [OF inv t w_def])
    have "view_grows (zview (zc_zone_state c) (unat (zp_zone q))) w" using H(3) by (auto simp: view_grows_def w_def)
    then have data: "data_inv content buf (c\<lparr>zc_zone_state := zs\<rparr>) ts d'"
      by (rule data_grows [OF I(11) cont zs(4,3)])
    have "Some (i, q) \<in> written ` set ts" using mem by (force intro: image_eqI)
    then have "chunk_stored content buf c d' i q"
      using data_inv_writtenD [OF data] by simp
    moreover have "zs_max_zone_chunks zs = zc_max_zone_chunks c" using zs(3) S(14) by (simp add: zsm_cfg_def)
    then have "place_written zs q" using H(2) by (simp add: place_written_def zs(4) w_def)
    ultimately show "data_inv content buf (c\<lparr>zc_zone_state := zs\<rparr>) (ts[t := ?pc]) d'"
      using H(1) by (intro data_enter [OF data t(1)]) simp_all
    show "place_inv (unat (zc_nr_zones c)) (cm_slot (zc_cache_map c)) (ts[t := ?pc])" by (rule return_place [OF inv t])
  qed (use t L in \<open>simp_all add: local_ok_def\<close>)
  then show ?thesis using zs(1) by (simp add: get_step_def Let_def)
qed

text \<open>The reset of an evicted zone: nobody relies on its chunks any more.\<close>

lemma reset_unused:
  assumes inv: "conc_inv ops content buf p ts c d" and mem: "Evict_Reset w n z \<in> set ts"
  shows "cm_slot (zc_cache_map c) j = Located r \<or> Some (j, r) \<in> relying ` set ts \<Longrightarrow> unat (zp_zone r) \<noteq> nat z"
    "Some (j, r) \<in> written ` set ts \<Longrightarrow> unat (zp_zone r) \<noteq> nat z \<and>
      unat (zp_zone r) < unat (zc_nr_zones c) \<and> unat (zp_chunk_offset r) < unat (zc_max_zone_chunks c)"
proof -
  note I = conc_invD [OF inv]
  note P = place_invD [OF I(12)] and E = evicting_full [OF inv mem, of z, simplified]
  assume "cm_slot (zc_cache_map c) j = Located r \<or> Some (j, r) \<in> relying ` set ts"
  then have "int (unat (zp_zone r)) \<noteq> z"
  proof
    assume "cm_slot (zc_cache_map c) j = Located r"
    then show ?thesis by (intro P(4) [OF mem]) simp_all
  next
    assume "Some (j, r) \<in> relying ` set ts"
    then obtain pc where pc: "pc \<in> set ts" "relying pc = Some (j, r)" by auto
    have "reading pc = Some (zp_zone r) \<or> publishing pc = Some r" using pc(2) by (cases pc) auto
    then show ?thesis using P(3) [OF mem, of z pc r] P(5) [OF mem, of z pc "zp_zone r"] pc(1) by auto
  qed
  then show "unat (zp_zone r) \<noteq> nat z" using E(1) by (metis int_nat_eq)
next
  note E = evicting_full [OF inv mem, of z, simplified]
  assume "Some (j, r) \<in> written ` set ts"
  then obtain pc where pc: "pc \<in> set ts" "written pc = Some (j, r)" by auto
  have "holding pc = Some r" using pc(2) by (cases pc) auto
  from holder [OF inv pc(1) this] E(3) show "unat (zp_zone r) \<noteq> nat z \<and>
      unat (zp_zone r) < unat (zc_nr_zones c) \<and> unat (zp_chunk_offset r) < unat (zc_max_zone_chunks c)" by auto
qed

lemma reset_step:
  assumes dev: "device_ok ops content" and inv: "conc_inv ops content buf p ts c d"
    and t: "t < length ts" "ts ! t = Evict_Reset w n z"
  shows "\<exists>c' d'. evict_step cfg ops lock (Evict_Reset w n z) c d = Inr (Evict_Choose w n, c', d') \<and>
    conc_inv ops content buf p (ts[t := Evict_Choose w n]) c' d'"
proof -
  note I = conc_invD [OF inv]
  note Z = zone_invD [OF I(9)] and S = sizes_okD [OF I(2)] and Q = queue_invD [OF I(10)]
  have mem: "Evict_Reset w n z \<in> set ts" using t by (metis nth_mem)
  note E = evicting_full [OF inv mem, of z, simplified]
  have L: "local_ok buf c (Evict_Reset w n z)" using I(7) mem by blast
  let ?pc = "Evict_Choose w n"
  define y :: u32 where "y = word_of_int z"
  have y: "unat y = nat z" "y = of_nat (nat z)" using E(1,4) by (simp_all add: y_def)
  obtain zs d' where zs: "zsm_evict (NDEBUG cfg) ops (int (nat z)) (zc_zone_state c) d = Inr (0, zs, d')"
    "zsm_sound ops zs" "zsm_cfg zs = zsm_cfg (zc_zone_state c)" "zview zs = (zview (zc_zone_state c))(nat z := Free)"
    "d' = d \<or> d' = snd (zbd_reset_zones ops (zc_fd c)
       (CHUNK_POINTER (zc_zone_size c) (zc_chunk_sz c) 0 y) (zc_zone_cap c) d)"
    using evict_reliable [OF Z(1), of "nat z" "NDEBUG cfg" d] E(2,3) S y(2) by auto
  have mx: "zs_max_zone_chunks zs = zs_max_zone_chunks (zc_zone_state c)" using zs(3) by (simp add: zsm_cfg_def)
  have keep: "chunk_stored content buf c d' j r"
    if "chunk_stored content buf c d j r" "unat (zp_zone r) \<noteq> nat z" "unat (zp_zone r) < unat (zc_nr_zones c)"
      "unat (zp_chunk_offset r) < unat (zc_max_zone_chunks c)" for j r
    by (rule chunk_stored_cong [OF that(1)], rule other_zone_bytes [OF I(2) that(2) E(2) that(3,4)])
      (use reset_content [OF dev I(2), of y d' d] E(2) zs(5) y in auto)
  have data: "data_inv content buf (c\<lparr>zc_zone_state := zs\<rparr>) ts d'"
  proof (rule data_invI)
    fix j r assume jr: "cm_slot (zc_cache_map (c\<lparr>zc_zone_state := zs\<rparr>)) j = Located r \<or> Some (j, r) \<in> relying ` set ts"
    then have jr': "cm_slot (zc_cache_map c) j = Located r \<or> Some (j, r) \<in> relying ` set ts" by simp
    note D = data_invD [OF I(11) jr'] and R = reset_unused(1) [OF inv mem jr']
    have "unat (zp_chunk_offset r) < unat (zc_max_zone_chunks c)" using D(2) S(14) by (simp add: place_written_def)
    moreover have "place_written zs r" using D(2) R by (simp add: place_written_def mx zs(4))
    ultimately show "unat (zp_zone r) < unat (zc_nr_zones (c\<lparr>zc_zone_state := zs\<rparr>)) \<and>
        place_written (zc_zone_state (c\<lparr>zc_zone_state := zs\<rparr>)) r \<and> chunk_stored content buf (c\<lparr>zc_zone_state := zs\<rparr>) d' j r"
      using keep [OF D(3) R D(1)] D(1) by simp
  next
    fix j r assume jr: "Some (j, r) \<in> written ` set ts"
    from keep [OF data_inv_writtenD [OF I(11) jr]] reset_unused(2) [OF inv mem jr]
    show "chunk_stored content buf (c\<lparr>zc_zone_state := zs\<rparr>) d' j r" by simp
  qed
  have "conc_inv ops content buf p (ts[t := ?pc]) (c\<lparr>zc_zone_state := zs\<rparr>) d'"
  proof (rule zones_step [OF inv t(1) _ _ _ zs(3)])
    have "zs_num_zones zs = zs_num_zones (zc_zone_state c)" using zs(3) by (simp add: zsm_cfg_def)
    moreover have "zview zs v = Writing j \<longleftrightarrow> zview (zc_zone_state c) v = Writing j" for v j
      using E(3) by (auto simp: zs(4))
    ultimately show "zone_inv ops zs (ts[t := ?pc])"
      using Z zs(2) t by (simp add: zone_inv_def cnt_same)
    have "cnt (unqueued (zc_max_zone_chunks c) v) (ts[t := ?pc]) + (if v \<in> set (prom_order p) then 1 else 0) =
        (if unat v < unat (zc_nr_zones c) \<and> zview zs (unat v) = Full then 1 else 0)" for v
    proof (cases "v = y")
      case True
      have "Suc (cnt (unqueued (zc_max_zone_chunks c) v) (ts[t := ?pc])) = cnt (unqueued (zc_max_zone_chunks c) v) ts"
        using t True y(1) E(1) by (intro cnt_leave) simp_all
      then show ?thesis using True E(5,6) y(1) by (simp add: y_def zs(4))
    next
      case False
      then have ne: "unat v \<noteq> nat z" using y(1) by (metis unat_inject)
      then have "cnt (unqueued (zc_max_zone_chunks c) v) (ts[t := ?pc]) = cnt (unqueued (zc_max_zone_chunks c) v) ts"
        using t E(1) by (intro cnt_same) auto
      then show ?thesis using Q(3) [of v] ne by (simp add: zs(4))
    qed
    then show "queue_inv (unat (zc_nr_zones c)) (zc_max_zone_chunks c) (zview zs) p (ts[t := ?pc])"
      using Q(1,2) by (simp add: queue_inv_def)
    show "data_inv content buf (c\<lparr>zc_zone_state := zs\<rparr>) (ts[t := ?pc]) d'" by (rule data_frame [OF data t(1)]) simp_all
    show "place_inv (unat (zc_nr_zones c)) (cm_slot (zc_cache_map c)) (ts[t := ?pc])"
      using t by (intro place_frame [OF I(12)]) simp_all
  qed (use t L in \<open>simp_all add: local_ok_def\<close>)
  then show ?thesis using zs(1) E(1) by (simp add: evict_step_def)
qed

end
