(* ===== verification/ZN_Concurrency.thy ===== *)
theory ZN_Concurrency
  imports ZN_Interleaving
begin

text \<open>
  Runs of all threads under every schedule: what holds when zones are evicted as \<open>zn_fg_evict\<close> assumes,
  and the two ways in which the threads get into trouble otherwise.
\<close>

section \<open>All steps\<close>

lemma unchanged_step:
  assumes inv: "conc_inv ops content buf p ts c d" and t: "t < length ts"
    and fp: "same_footprint (zc_max_zone_chunks c) (ts ! t) pc" and loc: "local_ok buf c pc" and cont: "content d' = content d"
  shows "conc_inv ops content buf p (ts[t := pc]) c d'" "conc_inv ops content buf p (ts[t := pc]) (c\<lparr>zc_ratio := rt\<rparr>) d'"
  using silent_step [OF inv t fp loc conc_invD(6) [OF inv] cont, of "zc_ratio c"]
    silent_step [OF inv t fp loc conc_invD(6) [OF inv] cont, of rt] by simp_all

lemma read_step:
  assumes dev: "device_ok ops content" and inv: "conc_inv ops content buf p ts c d"
    and t: "t < length ts" "ts ! t = Hit_Read i q"
  shows "\<exists>pc d'. get_step cfg ops buf (Hit_Read i q) c d = Inr (pc, c, d') \<and> conc_inv ops content buf p (ts[t := pc]) c d'"
proof -
  note I = conc_invD [OF inv]
  have mem: "Hit_Read i q \<in> set ts" using t by (metis nth_mem)
  have L: "local_ok buf c (Hit_Read i q)" using I(7) mem by blast
  have "Some (i, q) \<in> relying ` set ts" using mem by (force intro: image_eqI)
  then have D: "unat (zp_zone q) < unat (zc_nr_zones c)" "place_written (zc_zone_state c) q" "chunk_stored content buf c d i q"
    using data_invD [OF I(11)] by blast+
  have k: "unat (zp_chunk_offset q) < unat (zc_max_zone_chunks c)"
    using D(2) sizes_okD(14) [OF I(2)] by (simp add: place_written_def)
  obtain r d' where rd: "zn_read_from_disk ops (zc_fd c) (zc_chunk_sz c) (zc_io_size c) (zc_zone_size c) q d = Inr (r, d')"
    "content d' = content d"
    "r = None \<or> r = Some (disk_bytes content d (unat (chunk_addr (zc_zone_size c) (zc_chunk_sz c) q)) (unat (zc_chunk_sz c)))"
    using zn_read_from_disk_ok [OF device_okD(2) [OF dev] chunk_io_ok [OF I(2) D(1) k]] by blast
  have "local_ok buf c (Hit_Touch i q r)" using L D(3) rd(3) by (auto simp: local_ok_def chunk_stored_def)
  then have "conc_inv ops content buf p (ts[t := Hit_Touch i q r]) c d'"
    using t by (intro unchanged_step(1) [OF inv _ _ _ rd(2)]) (simp_all add: same_footprint_def)
  then show ?thesis using rd(1) by (simp add: get_step_def)
qed

lemma get_step_ok:
  assumes dev: "device_ok ops content" and inv: "conc_inv ops content buf p ts c d" and t: "t < length ts"
  shows "\<exists>p' pc c' d'. get_step cfg ops buf (ts ! t) c d = Inr (pc, c', d') \<and>
    conc_inv ops content buf p' (ts[t := pc]) c' d'"
proof -
  have L: "local_ok buf c (ts ! t)" using conc_invD(7) [OF inv] t by simp
  have rest: ?thesis if "get_step cfg ops buf (ts ! t) c d = Inr (ts ! t, c, d)" using inv that by auto
  show ?thesis
  proof (cases "ts ! t")
    case (Find i) from find_step [OF inv t this] show ?thesis unfolding Find by blast
  next
    case (Hit_Read i q) from read_step [OF dev inv t this] show ?thesis unfolding Hit_Read by blast
  next
    case (Hit_Touch i q x) from touch_step [OF inv t this] show ?thesis unfolding Hit_Touch by blast
  next
    case (Hit_Release i q x) from release_step [OF inv t this] show ?thesis unfolding Hit_Release by blast
  next
    case (Hit_Count i x)
    have "conc_inv ops content buf p (ts[t := Returned i x]) (c\<lparr>zc_ratio := (zc_ratio c)\<lparr>hr_hits := hr_hits (zc_ratio c) + 1\<rparr>\<rparr>) d"
      using L t by (intro unchanged_step(2) [OF inv _ _ _ refl]) (simp_all add: Hit_Count same_footprint_def local_ok_def)
    then show ?thesis unfolding Hit_Count by (auto simp: get_step_def)
  next
    case (Miss_Get i) from get_zone_step [OF dev inv t this] show ?thesis unfolding Miss_Get by blast
  next
    case (Miss_Write i q) from write_step [OF dev inv t this] show ?thesis unfolding Miss_Write by blast
  next
    case (Miss_Count i q x)
    have "conc_inv ops content buf p (ts[t := Miss_Return i q x]) (c\<lparr>zc_ratio := (zc_ratio c)\<lparr>hr_misses := hr_misses (zc_ratio c) + 1\<rparr>\<rparr>) d"
      using L t by (intro unchanged_step(2) [OF inv _ _ _ refl]) (simp_all add: Miss_Count same_footprint_def local_ok_def)
    then show ?thesis unfolding Miss_Count by (auto simp: get_step_def)
  next
    case (Miss_Return i q x) from return_step [OF dev inv t this] show ?thesis unfolding Miss_Return by blast
  next
    case (Miss_Update i q x) from update_step [OF inv t this] show ?thesis unfolding Miss_Update by blast
  next
    case (Miss_Insert i q x) from insert_step [OF inv t this] show ?thesis unfolding Miss_Insert by blast
  next
    case (Undo_Zone i q) from undo_zone_step [OF inv t this] show ?thesis unfolding Undo_Zone by blast
  next
    case (Undo_Map i) from undo_map_step [OF inv t this] show ?thesis unfolding Undo_Map by blast
  qed (rule rest, simp add: get_step_def)+
qed

lemma evict_step_ok:
  assumes dev: "device_ok ops content" and inv: "conc_inv ops content buf p ts c d" and t: "t < length ts"
    and quiet: "quiet ts t c"
  shows "\<exists>p' pc c' d'. evict_step cfg ops lock (ts ! t) c d = Inr (pc, c', d') \<and>
    conc_inv ops content buf p' (ts[t := pc]) c' d'"
proof -
  have L: "local_ok buf c (ts ! t)" using conc_invD(7) [OF inv] t by simp
  have rest: ?thesis if "evict_step cfg ops lock (ts ! t) c d = Inr (ts ! t, c, d)" using inv that by auto
  show ?thesis
  proof (cases "ts ! t")
    case (Evict_Start w)
    let ?n = "EVICT_LOW_THRESH_ZONES cfg - zsm_get_num_free_zones (zc_zone_state c)"
    have "conc_inv ops content buf p (ts[t := Evict_Choose w ?n]) c d"
      using L t by (intro unchanged_step(1) [OF inv _ _ _ refl]) (simp_all add: Evict_Start same_footprint_def local_ok_def)
    then show ?thesis unfolding Evict_Start using conc_invD(1) [OF inv] by (auto simp: evict_step_def)
  next
    case (Evict_Choose w n) from choose_step [OF inv t this quiet] show ?thesis unfolding Evict_Choose by blast
  next
    case (Evict_Clear w n z) from clear_step [OF inv t this] show ?thesis unfolding Evict_Clear by blast
  next
    case (Evict_Wait w n z) from wait_step [OF inv t this] show ?thesis unfolding Evict_Wait by blast
  next
    case (Evict_Reset w n z) from reset_step [OF dev inv t this] show ?thesis unfolding Evict_Reset by blast
  qed (rule rest, simp add: evict_step_def)+
qed

lemma claim_step:
  assumes inv: "conc_inv ops content buf p ts c d" and t: "t < length ts" "ts ! t = Claim"
  shows "\<exists>pc s'. thread_step cfg verify ops buf lock Claim (td, c, d) = Inr (pc, s') \<and>
    fst s' = td \<and> conc_inv ops content buf p (ts[t := pc]) (fst (snd s')) (snd (snd s'))"
proof -
  note R = conc_invD(6) [OF inv, unfolded reader_ok_def]
  have step: "conc_inv ops content buf p (ts[t := pc]) (c\<lparr>zc_reader := r\<rparr>) d"
    if "same_footprint (zc_max_zone_chunks c) Claim pc" "local_ok buf c pc" "reader_ok r" for pc r
    using silent_step [OF inv t(1) _ that(2,3) refl, of "zc_ratio c"] that(1) t(2) by simp
  show ?thesis
  proof (cases "rd_workload_max (zc_reader c) \<le> rd_workload_index (zc_reader c)")
    case True
    then show ?thesis using step [of Complete "zc_reader c"] conc_invD(6) [OF inv]
      by (simp add: thread_step_def claim_request_def same_footprint_def local_ok_def)
  next
    case False
    let ?wi = "rd_workload_index (zc_reader c)" and ?i = "rd_workload_buffer (zc_reader c) ! unat (rd_workload_index (zc_reader c))"
    have len: "unat ?wi < length (rd_workload_buffer (zc_reader c))" using False R by (simp add: linorder_not_le word_less_nat_alt)
    have i: "id_ok ?i" using R len by simp
    obtain r where r: "snd (claim_request (zc_reader c)) = r" "rd_workload_buffer r = rd_workload_buffer (zc_reader c)"
      "rd_workload_max r = rd_workload_max (zc_reader c)" using False by (simp add: claim_request_def Let_def)
    have "reader_ok r" using R r by (simp add: reader_ok_def)
    then have "conc_inv ops content buf p (ts[t := Find ?i]) (c\<lparr>zc_reader := r\<rparr>) d"
      using i by (intro step) (simp_all add: same_footprint_def local_ok_def)
    then show ?thesis using False len r by (auto simp: thread_step_def claim_request_def Let_def)
  qed
qed

lemma thread_step_ok:
  assumes dev: "device_ok ops content" and inv: "conc_inv ops content buf p ts c d" and t: "t < length ts"
    and quiet: "quiet ts t c" and thr: "EVICT_HIGH_THRESH_ZONES cfg < EVICT_LOW_THRESH_ZONES cfg"
  shows "\<exists>p' pc td' c' d'. thread_step cfg verify ops buf lock (ts ! t) (td, c, d) = Inr (pc, td', c', d') \<and>
    conc_inv ops content buf p' (ts[t := pc]) c' d'"
proof -
  note S = sizes_okD [OF conc_invD(2) [OF inv]]
  have L: "local_ok buf c (ts ! t)" using conc_invD(7) [OF inv] t by simp
  note silent = unchanged_step(1) [OF inv t _ _ refl]
  show ?thesis
  proof (cases "ts ! t")
    case Claim from claim_step [OF inv t this] show ?thesis unfolding Claim by (metis prod.collapse)
  next
    case (Returned i r)
    have "conc_inv ops content buf p (ts[t := pc]) c d" if "pc = Claim \<or> pc = Stopped" for pc
      using that by (intro silent) (auto simp: Returned same_footprint_def local_ok_def)
    moreover have "zn_validate_read (zc_chunk_sz c) data i buf = Inr 0" if "r = Some data" for data
      using L that by (intro generated_valid [OF S(3,4) conc_invD(3) [OF inv]]) (simp add: Returned local_ok_def)
    ultimately show ?thesis unfolding Returned by (cases r) (auto simp: thread_step_def)
  next
    case Complete
    have "conc_inv ops content buf p (ts[t := Stopped]) c d"
      by (intro silent) (simp_all add: Complete same_footprint_def local_ok_def)
    then show ?thesis unfolding Complete by (auto simp: thread_step_def)
  next
    case Stopped
    have "ts[t := Stopped] = ts" using Stopped by (metis list_update_id)
    then show ?thesis unfolding Stopped using inv by (auto simp: thread_step_def)
  next
    case Evict_Poll
    have "conc_inv ops content buf p (ts[t := pc]) c d" if "pc = Evict_Poll \<or> pc = Evict_Start None \<or> pc = Stopped" for pc
      using that by (intro silent) (auto simp: Evict_Poll same_footprint_def local_ok_def)
    moreover have "EVICT_LOW_THRESH_ZONES cfg - free > 0" if "\<not> EVICT_HIGH_THRESH_ZONES cfg < free" for free
    proof -
      have "free \<noteq> EVICT_LOW_THRESH_ZONES cfg" using that thr by auto
      then show ?thesis by (simp add: word_gt_0)
    qed
    ultimately show ?thesis unfolding Evict_Poll by (auto simp: thread_step_def Let_def)
  qed (use get_step_ok [OF dev inv t, of cfg] evict_step_ok [OF dev inv t quiet, of cfg lock] in
      \<open>fastforce simp: thread_step_def\<close>)+
qed

text \<open>No step changes the sizes.\<close>

definition zc_sizes where
  "zc_sizes c = (zc_chunk_sz c, zc_zone_size c, zc_io_size c)"

lemma zc_sizes_frame [simp]:
  "zc_sizes (x\<lparr>zc_cache_map := m\<rparr>) = zc_sizes x" "zc_sizes (x\<lparr>zc_zone_state := zs\<rparr>) = zc_sizes x"
  "zc_sizes (x\<lparr>zc_ratio := rt\<rparr>) = zc_sizes x" "zc_sizes (x\<lparr>zc_reader := r\<rparr>) = zc_sizes x"
  "zc_sizes (y\<lparr>zc_eviction_policy := pol\<rparr>) = zc_sizes y"
  by (simp_all add: zc_sizes_def)

lemma update_policy_sizes: "update_policy nd q io c = Inr c' \<Longrightarrow> zc_sizes c' = zc_sizes c"
  by (auto simp: update_policy_def bind_res_def split: zn_evict_policy.splits sum.splits)

lemma get_step_sizes:
  "get_step cfg ops buf pc c d = Inr (pc', c', d') \<Longrightarrow> zc_sizes c' = zc_sizes c"
  by (cases pc)
    (auto simp: get_step_def bind_res_def c_assert_def Let_def dest!: update_policy_sizes
      split: sum.splits find_pass.splits zsm_get_active_zone_error.splits if_splits)

lemma evict_step_sizes:
  "evict_step cfg ops lock pc c d = Inr (pc', c', d') \<Longrightarrow> zc_eviction_policy c = Promotional p \<Longrightarrow>
   zc_sizes c' = zc_sizes c"
  by (cases pc)
    (auto simp: evict_step_def bind_res_def c_assert_def Let_def split: sum.splits prod.splits if_splits)

lemma thread_step_sizes:
  assumes "thread_step cfg verify ops buf lock pc (td, c, d) = Inr (pc', td', c', d')" "zc_eviction_policy c = Promotional p"
  shows "zc_sizes c' = zc_sizes c"
  using assms(1)
  by (cases pc) (auto simp: thread_step_def bind_res_def c_assert_def Let_def
      dest!: get_step_sizes evict_step_sizes [OF _ assms(2)] split: sum.splits prod.splits option.splits if_splits)

section \<open>Schedules\<close>

text \<open>Every eviction of the schedule meets the assumption.\<close>

fun quiet_run :: "zn_config \<Rightarrow> bool \<Rightarrow> 'dev dev_ops \<Rightarrow> u8 list \<Rightarrow> (nat \<times> bool) list \<Rightarrow> thread_pc list \<Rightarrow>
    'dev shared \<Rightarrow> bool" where
  "quiet_run cfg verify ops buf [] ts s = True"
| "quiet_run cfg verify ops buf ((t, lock) # sched) ts s =
     (if t < length ts then
        quiet ts t (fst (snd s)) \<and>
        (case thread_step cfg verify ops buf lock (ts ! t) s of
           Inl _ \<Rightarrow> True
         | Inr (pc, s') \<Rightarrow> quiet_run cfg verify ops buf sched (ts[t := pc]) s')
      else quiet_run cfg verify ops buf sched ts s)"

lemma threads_run_ok:
  assumes dev: "device_ok ops content" and thr: "EVICT_HIGH_THRESH_ZONES cfg < EVICT_LOW_THRESH_ZONES cfg"
  shows "conc_inv ops content buf p ts c d \<Longrightarrow> quiet_run cfg verify ops buf sched ts (td, c, d) \<Longrightarrow>
    \<exists>p' ts' td' c' d'. threads_run cfg verify ops buf sched ts (td, c, d) = Inr (ts', td', c', d') \<and>
      conc_inv ops content buf p' ts' c' d' \<and> length ts' = length ts \<and> zc_sizes c' = zc_sizes c"
proof (induction sched arbitrary: p ts td c d)
  case (Cons a sched)
  obtain t lock where a: "a = (t, lock)" by (cases a)
  show ?case
  proof (cases "t < length ts")
    case True
    have q: "quiet ts t c" using Cons.prems(2) True by (simp add: a)
    obtain p1 pc td1 c1 d1 where s: "thread_step cfg verify ops buf lock (ts ! t) (td, c, d) = Inr (pc, td1, c1, d1)"
      "conc_inv ops content buf p1 (ts[t := pc]) c1 d1"
      using thread_step_ok [OF dev Cons.prems(1) True q thr] by blast
    have "quiet_run cfg verify ops buf sched (ts[t := pc]) (td1, c1, d1)" using Cons.prems(2) True s(1) by (simp add: a)
    from Cons.IH [OF s(2) this] show ?thesis
      using True s(1) thread_step_sizes [OF s(1) conc_invD(1) [OF Cons.prems(1)]] by (simp add: a)
  next
    case False
    then show ?thesis using Cons by (simp add: a)
  qed
qed auto

abbreviation start_threads :: "nat \<Rightarrow> thread_pc list" where
  "start_threads n \<equiv> replicate n Claim @ [Evict_Poll]"

abbreviation started :: "u32 \<Rightarrow> thread_pc list" where
  "started n \<equiv> fst (main_threads n)"

abbreviation counters :: "u32 \<Rightarrow> zn_thread_data" where
  "counters n \<equiv> snd (main_threads n)"

lemma ready_conc:
  assumes rdy: "cache_ready ops content buf c d" and rd: "reader_ok (zc_reader c)" and n: "n + 1 < 2 ^ 31"
  shows "\<exists>p. conc_inv ops content buf p (start_threads n) c d"
proof -
  obtain p where p: "zc_eviction_policy c = Promotional p" "cache_inv ops content buf {} None p c d" "0 < unat (zc_nr_zones c)"
    using rdy by (auto simp: cache_ready_def)
  note J = cache_invD [OF p(2)]
  have none: "cnt P (start_threads n) = 0" if "\<not> P Claim" "\<not> P Evict_Poll" for P
    using that by (simp add: cnt_def)
  have idle: "x = None" if "x \<in> f ` set (start_threads n)" "f Claim = None" "f Evict_Poll = None" for x and f :: "thread_pc \<Rightarrow> 'b option"
    using that by auto
  have "conc_inv ops content buf p (start_threads n) c d"
  proof (rule conc_invI)
    show "map_inv (unat (zc_nr_zones c)) (zc_cache_map c) (start_threads n)"
      unfolding map_inv_def using J(3,4,12) by (simp add: none)
    show "zone_inv ops (zc_zone_state c) (start_threads n)"
      unfolding zone_inv_def using J(5,6) sizes_okD(15) [OF J(1)] by (simp add: none at_place_def)
    show "queue_inv (unat (zc_nr_zones c)) (zc_max_zone_chunks c) (zview (zc_zone_state c)) p (start_threads n)"
      unfolding queue_inv_def using J(7-9) by (simp add: none)
    show "data_inv content buf c (start_threads n) d"
      by (rule data_invI) (use J(10,11) cachemap_invD(5) [OF J(3)] in \<open>auto dest: idle\<close>)
    show "place_inv (unat (zc_nr_zones c)) (cm_slot (zc_cache_map c)) (start_threads n)"
      unfolding place_inv_def by (auto simp: none publishes_at_def)
    show "\<forall>pc \<in> set (start_threads n). local_ok buf c pc" by (auto simp: local_ok_def)
  qed (use p J(1,2) rd n in simp_all)
  then show ?thesis by blast
qed

lemma program_start_conc:
  assumes dev: "device_ok ops content" and sz: "init_sizes_ok cfg info chunk_sz zone_cap buf"
    and wl: "unat wm \<le> length wb" "\<forall>i \<in> set wb. id_ok i" and n: "unat n + 1 < 2 ^ 31"
    and c: "zn_init_cache cfg garbage info chunk_sz zone_cap fd ZN_EVICT_PROMOTE_ZONE be wb wm = Inr c"
  shows "\<exists>p. conc_inv ops content buf p (started n) c d \<and> zc_chunk_sz c = chunk_sz"
proof -
  have "cache_ready ops content buf c d" "zc_chunk_sz c = chunk_sz"
    using zn_init_cache_ok [OF dev sz, of garbage fd be wb wm d] c by auto
  moreover have "reader_ok (zc_reader c)" using zn_init_cache_reader [OF c] wl by (simp add: reader_ok_def)
  ultimately show ?thesis
    using ready_conc [of ops content buf c d "unat n", OF _ _ n] by (auto simp: main_threads_def)
qed

lemma program_run_conc:
  assumes dev: "device_ok ops content" and sz: "init_sizes_ok cfg info chunk_sz zone_cap buf"
    and thr: "EVICT_HIGH_THRESH_ZONES cfg < EVICT_LOW_THRESH_ZONES cfg"
    and wl: "unat wm \<le> length wb" "\<forall>i \<in> set wb. id_ok i" and n: "unat n + 1 < 2 ^ 31"
    and c: "zn_init_cache cfg garbage info chunk_sz zone_cap fd ZN_EVICT_PROMOTE_ZONE be wb wm = Inr c"
    and q: "quiet_run cfg verify ops buf sched (started n) (counters n, c, d)"
  shows "\<exists>p ts td' c' d'. threads_run cfg verify ops buf sched (started n) (counters n, c, d) = Inr (ts, td', c', d') \<and>
    conc_inv ops content buf p ts c' d' \<and> zc_chunk_sz c' = chunk_sz \<and> length ts = unat n + 1"
proof -
  obtain p where "conc_inv ops content buf p (started n) c d" "zc_chunk_sz c = chunk_sz"
    using program_start_conc [OF dev sz wl n c] by blast
  from threads_run_ok [OF dev thr this(1) q] this(2) show ?thesis by (auto simp: zc_sizes_def main_threads_def)
qed

section \<open>Properties\<close>

text \<open>The devices of the witnesses and of the counterexamples: two zones of two chunks of 4 bytes.\<close>

definition small_cache :: "u32 list \<Rightarrow> zn_cache" where
  "small_cache ids = projr (zn_init_cache default_config no_garbage
     \<lparr>zi_nr_zones = 2, zi_max_nr_active_zones = 0, zi_zone_size = 8\<rparr> 4 8 3 ZN_EVICT_PROMOTE_ZONE
     ZE_BACKEND_ZNS ids (of_nat (length ids)))"

lemma small_sizes:
  "init_sizes_ok default_config \<lparr>zi_nr_zones = 2, zi_max_nr_active_zones = 0, zi_zone_size = 8\<rparr> 4 8 (replicate 4 7)"
  by (simp add: init_sizes_ok_def geometry_ok_def default_config_def)

lemma default_thresholds: "EVICT_HIGH_THRESH_ZONES default_config < EVICT_LOW_THRESH_ZONES default_config"
  by (simp add: default_config_def)

lemma small_cache_init:
  "zn_init_cache default_config no_garbage \<lparr>zi_nr_zones = 2, zi_max_nr_active_zones = 0, zi_zone_size = 8\<rparr> 4 8 3
     ZN_EVICT_PROMOTE_ZONE ZE_BACKEND_ZNS ids (of_nat (length ids)) = Inr (small_cache ids)"
  using zn_init_cache_ok [OF ram_device_ok small_sizes, of no_garbage 3 ZE_BACKEND_ZNS ids "of_nat (length ids)" "\<lambda>_. 0"]
  by (auto simp: small_cache_def)

text \<open>\<open>k\<close> steps of thread \<open>t\<close>.\<close>

abbreviation steps :: "nat \<Rightarrow> nat \<Rightarrow> (nat \<times> bool) list" where
  "steps k t \<equiv> replicate k (t, True)"


text \<open>C2. Any number of workers and the eviction thread, under any schedule in which no zone is chosen for
  eviction while one of its chunks waits for its entry in the cache map (what the comment in
  \<open>zn_fg_evict\<close> assumes): no thread runs into a fault or a failing assertion, the check of the answers
  included, and every answer a worker holds passes \<open>zn_validate_read\<close> for its identifier.\<close>

theorem concurrent_program_safe:
  assumes "device_ok ops content" and "init_sizes_ok cfg info chunk_sz zone_cap buf"
    and "EVICT_HIGH_THRESH_ZONES cfg < EVICT_LOW_THRESH_ZONES cfg"
    and "unat wm \<le> length wb" and "\<forall>i \<in> set wb. id_ok i" and "unat n + 1 < 2 ^ 31"
    and "zn_init_cache cfg garbage info chunk_sz zone_cap fd ZN_EVICT_PROMOTE_ZONE be wb wm = Inr c"
    and "quiet_run cfg verify ops buf sched (started n) (counters n, c, d)"
  shows "\<exists>ts td' c' d'. threads_run cfg verify ops buf sched (started n) (counters n, c, d) = Inr (ts, td', c', d') \<and>
    (\<forall>i data. Returned i (Some data) \<in> set ts \<longrightarrow> zn_validate_read chunk_sz data i buf = Inr 0)"
proof -
  obtain p ts td' c' d' where r: "threads_run cfg verify ops buf sched (started n) (counters n, c, d) = Inr (ts, td', c', d')"
    "conc_inv ops content buf p ts c' d'" "zc_chunk_sz c' = chunk_sz"
    using program_run_conc [OF assms] by blast
  have s: "4 \<le> unat chunk_sz" "unat chunk_sz < 2 ^ 32" "unat chunk_sz \<le> length buf"
    using assms(2) by (simp_all add: init_sizes_ok_def)
  have "zn_validate_read chunk_sz data i buf = Inr 0" if "Returned i (Some data) \<in> set ts" for i data
  proof (rule generated_valid [OF s])
    have "local_ok buf c' (Returned i (Some data))" using conc_invD(7) [OF r(2)] that by blast
    then show "zn_gen_write_buffer chunk_sz i buf = Inr data" by (simp add: local_ok_def r(3))
  qed
  then show ?thesis using r(1) by blast
qed

theorem concurrent_program_safe_witness:
  "\<exists>ts td' c' d'. threads_run default_config True ram_ops (replicate 4 7) (steps 18 0 @ steps 6 2 @ steps 8 1)
      (started 2) (counters 2, small_cache [1, 2, 3], \<lambda>_. 0) = Inr (ts, td', c', d') \<and>
    (\<forall>i data. Returned i (Some data) \<in> set ts \<longrightarrow> zn_validate_read 4 data i (replicate 4 7) = Inr 0)"
proof (rule concurrent_program_safe [OF ram_device_ok small_sizes default_thresholds _ _ _ small_cache_init])
  show "quiet_run default_config True ram_ops (replicate 4 7) (steps 18 0 @ steps 6 2 @ steps 8 1)
      (started 2) (counters 2, small_cache [1, 2, 3], \<lambda>_. 0)" by code_simp
qed (simp_all add: id_ok_def)

text \<open>
  Two threads about to use the device at the same bytes, one of them changing them: a chunk in
  transfer, a zone to be reset.
\<close>

definition conflict :: "thread_pc \<Rightarrow> thread_pc \<Rightarrow> bool" where
  "conflict a b \<longleftrightarrow> (case a of
       Miss_Write _ q \<Rightarrow> (case b of Miss_Write _ r \<Rightarrow> same_place q r | Hit_Read _ r \<Rightarrow> same_place q r
         | Evict_Reset _ _ z \<Rightarrow> int (unat (zp_zone q)) = z | _ \<Rightarrow> False)
     | Hit_Read _ q \<Rightarrow> (case b of Evict_Reset _ _ z \<Rightarrow> int (unat (zp_zone q)) = z | _ \<Rightarrow> False)
     | Evict_Reset _ _ z \<Rightarrow> (case b of Evict_Reset _ _ y \<Rightarrow> y = z | _ \<Rightarrow> False)
     | _ \<Rightarrow> False)"

lemma two_holders:
  assumes inv: "conc_inv ops content buf p ts c d" and t: "t < length ts" "u < length ts" "t \<noteq> u"
    and q: "holding (ts ! t) = Some q" "holding (ts ! u) = Some r"
  shows "\<not> same_place q r"
proof
  assume qr: "same_place q r"
  note I = conc_invD [OF inv]
  note H = holder [OF inv nth_mem [OF t(1)] q(1)]
  let ?P = "\<lambda>pc. at_place (unat (zp_zone q)) (unat (zp_chunk_offset q)) (holding pc)"
  have "cnt ?P ts \<le> 1"
    using zone_invD(2) [OF I(9), of "unat (zp_zone q)" "unat (zp_chunk_offset q)"] H(1) sizes_okD(15) [OF I(2)] by (simp split: if_splits)
  moreover have "?P (ts ! t)" "?P (ts ! u)" using q qr by (auto simp: at_place_def same_place_def)
  ultimately show False using cnt_one_other [of ?P ts t u] t by blast
qed

lemma no_conflict:
  assumes inv: "conc_inv ops content buf p ts c d" and t: "t < length ts" "u < length ts" "t \<noteq> u"
  shows "\<not> conflict (ts ! t) (ts ! u)"
proof
  assume cf: "conflict (ts ! t) (ts ! u)"
  note I = conc_invD [OF inv]
  have mem: "ts ! t \<in> set ts" "ts ! u \<in> set ts" using t by simp_all
  from cf consider i q j r where "ts ! t = Miss_Write i q" "ts ! u = Miss_Write j r" "same_place q r"
    | i q j r where "ts ! t = Miss_Write i q" "ts ! u = Hit_Read j r" "same_place q r"
    | i q w n z where "ts ! t = Miss_Write i q" "ts ! u = Evict_Reset w n z" "int (unat (zp_zone q)) = z"
    | i q w n z where "ts ! t = Hit_Read i q" "ts ! u = Evict_Reset w n z" "int (unat (zp_zone q)) = z"
    | w n w' n' z where "ts ! t = Evict_Reset w n z" "ts ! u = Evict_Reset w' n' z"
    by (auto simp: conflict_def split: thread_pc.splits)
  then show False
  proof cases
    case 1
    then show False using two_holders [OF inv t, of q r] by simp
  next
    case 2
    have "Some (j, r) \<in> relying ` set ts" using mem(2) 2(2) by (force intro: image_eqI)
    then have "place_written (zc_zone_state c) r" using data_invD(2) [OF I(11)] by blast
    then show False using written_not_held holder(3) [OF inv mem(1)] 2 by auto
  next
    case 3
    then show False using holder(3) [OF inv mem(1), of q] evicting_full(3) [OF inv mem(2), of z] by auto
  next
    case 4
    then show False using place_invD(5) [OF I(12) mem(2) _ mem(1), of z "zp_zone q"] by simp
  next
    case 5
    have "unqueued (zc_max_zone_chunks c) (word_of_int z) (ts ! t)" "unqueued (zc_max_zone_chunks c) (word_of_int z) (ts ! u)"
      using 5 evicting_full(1,4) [OF inv mem(1), of z] by simp_all
    moreover have "cnt (unqueued (zc_max_zone_chunks c) (word_of_int z)) ts \<le> 1"
      using evicting_full(5) [OF inv mem(1), of z] 5(1) by simp
    ultimately show False using cnt_one_other t by blast
  qed
qed

text \<open>C3. Under the same schedules the threads never race on the device: nobody writes or reads a chunk that
  another is writing, and no zone is reset while one of its chunks is in transfer or another thread
  resets it.\<close>

theorem transfers_do_not_conflict:
  assumes "device_ok ops content" and "init_sizes_ok cfg info chunk_sz zone_cap buf"
    and "EVICT_HIGH_THRESH_ZONES cfg < EVICT_LOW_THRESH_ZONES cfg"
    and "unat wm \<le> length wb" and "\<forall>i \<in> set wb. id_ok i" and "unat n + 1 < 2 ^ 31"
    and "zn_init_cache cfg garbage info chunk_sz zone_cap fd ZN_EVICT_PROMOTE_ZONE be wb wm = Inr c"
    and "quiet_run cfg verify ops buf sched (started n) (counters n, c, d)"
  shows "\<exists>ts td' c' d'. threads_run cfg verify ops buf sched (started n) (counters n, c, d) = Inr (ts, td', c', d') \<and>
    length ts = unat n + 1 \<and> (\<forall>t < unat n + 1. \<forall>u < unat n + 1. t \<noteq> u \<longrightarrow> \<not> conflict (ts ! t) (ts ! u))"
proof -
  obtain p ts td' c' d' where r: "threads_run cfg verify ops buf sched (started n) (counters n, c, d) = Inr (ts, td', c', d')"
    "conc_inv ops content buf p ts c' d'" "length ts = unat n + 1"
    using program_run_conc [OF assms] by blast
  then show ?thesis using no_conflict [OF r(2)] by auto
qed

theorem transfers_do_not_conflict_witness:
  "\<exists>ts td' c' d'. threads_run default_config True ram_ops (replicate 4 7) (steps 9 0 @ steps 3 0 @ steps 3 1)
      (started 2) (counters 2, small_cache [1, 2, 3], \<lambda>_. 0) = Inr (ts, td', c', d') \<and>
    length ts = 3 \<and> (\<forall>t < 3. \<forall>u < 3. t \<noteq> u \<longrightarrow> \<not> conflict (ts ! t) (ts ! u))"
proof -
  have "quiet_run default_config True ram_ops (replicate 4 7) (steps 9 0 @ steps 3 0 @ steps 3 1)
      (started 2) (counters 2, small_cache [1, 2, 3], \<lambda>_. 0)" by code_simp
  from transfers_do_not_conflict [OF ram_device_ok small_sizes default_thresholds _ _ _ small_cache_init this]
  show ?thesis by (simp add: id_ok_def)
qed

text \<open>Where a thread can be kept waiting, and what for.\<close>

definition waits :: "zn_config \<Rightarrow> 'dev dev_ops \<Rightarrow> zn_cache \<Rightarrow> 'dev \<Rightarrow> thread_pc \<Rightarrow> bool" where
  "waits cfg ops c d pc \<longleftrightarrow> (case pc of
       Find i \<Rightarrow> (\<exists>m. zn_cachemap_find_pass i (zc_cache_map c) = Inr (Find_Waits, m))
     | Miss_Get i \<Rightarrow> (\<exists>cell zs d'. zsm_get_active_zone (NDEBUG cfg) ops Indet (zc_zone_state c) d =
         Inr (ZSM_GET_ACTIVE_ZONE_RETRY, cell, zs, d'))
     | Evict_Wait w n z \<Rightarrow> 0 \<le> z \<and> 0 < sint (cm_active_readers (zc_cache_map c) ! nat z)
     | Stopped \<Rightarrow> True
     | Evict_Poll \<Rightarrow> True
     | _ \<Rightarrow> False)"

lemma get_stays: "get_step cfg ops buf pc c d = Inr (pc, c', d') \<Longrightarrow> waits cfg ops c d pc \<or> (\<exists>w n z. pc = Evict_Start w \<or>
    pc = Evict_Choose w n \<or> pc = Evict_Clear w n z \<or> pc = Evict_Wait w n z \<or> pc = Evict_Reset w n z) \<or>
    pc = Claim \<or> pc = Complete \<or> (\<exists>i x. pc = Returned i x)"
  by (cases pc) (auto simp: waits_def get_step_def bind_res_def c_assert_def Let_def
      split: sum.splits find_pass.splits zsm_get_active_zone_error.splits if_splits)

lemma evict_stays:
  "evict_step cfg ops lock pc c d = Inr (pc, c', d') \<Longrightarrow> zc_eviction_policy c = Promotional p \<Longrightarrow> evicting pc \<noteq> None \<or>
   (\<exists>w n. pc = Evict_Start w \<or> pc = Evict_Choose w n) \<Longrightarrow> waits cfg ops c d pc"
  by (cases pc) (auto simp: waits_def evict_step_def bind_res_def c_assert_def arr_get_def Let_def evict_return_def
      split: sum.splits nat.splits prod.splits option.splits if_splits)

lemma thread_stays:
  assumes "thread_step cfg verify ops buf lock pc (td, c, d) = Inr (pc, s')" "zc_eviction_policy c = Promotional p"
  shows "waits cfg ops c d pc"
proof -
  have "waits cfg ops c d pc" if "get_step cfg ops buf pc c d = Inr (pc, c', d')" "owner pc \<noteq> None \<or> reading pc \<noteq> None \<or>
      (\<exists>i. pc = Find i) \<or> (\<exists>i x. pc = Hit_Count i x)" "\<not> (\<exists>w n z. pc = Evict_Start w \<or>
    pc = Evict_Choose w n \<or> pc = Evict_Clear w n z \<or> pc = Evict_Wait w n z \<or> pc = Evict_Reset w n z)" for c' d'
    using get_stays [OF that(1)] that(2,3) by auto
  moreover have "waits cfg ops c d pc" if "evict_step cfg ops lock pc c d = Inr (pc, c', d')" "evicting pc \<noteq> None \<or>
   (\<exists>w n. pc = Evict_Start w \<or> pc = Evict_Choose w n)" for c' d'
    using evict_stays [OF that(1) assms(2) that(2)] .
  moreover have "thread_step cfg verify ops buf lock Claim (td, c, d) \<noteq> Inr (Claim, s')"
    by (auto simp: thread_step_def bind_res_def split: option.splits prod.splits sum.splits)
  ultimately show ?thesis using assms(1)
    by (cases pc) (auto simp: thread_step_def bind_res_def c_assert_def waits_def Let_def
        split: sum.splits option.splits if_splits)
qed

lemma nobody_moves:
  assumes inv: "conc_inv ops content buf p ts c d" and w: "\<forall>pc \<in> set ts. waits cfg ops c d pc"
  shows "\<forall>pc \<in> set ts. pc = Stopped \<or> pc = Evict_Poll"
proof -
  note I = conc_invD [OF inv]
  note M = map_invD [OF I(8)] and Z = zone_invD [OF I(9)] and S = sizes_okD [OF I(2)]
  have wt: "waits cfg ops c d pc" if "pc \<in> set ts" for pc using w that by blast
  have nohold: "holding pc = None" "reading pc = None" if "pc \<in> set ts" for pc
    using wt [OF that] by (cases pc; simp add: waits_def)+
  have get: False if g: "Miss_Get i \<in> set ts" for i
  proof -
    obtain cell zs d' where "zsm_get_active_zone (NDEBUG cfg) ops Indet (zc_zone_state c) d = Inr (ZSM_GET_ACTIVE_ZONE_RETRY, cell, zs, d')"
      using wt [OF g] by (auto simp: waits_def)
    with get_reliable [OF Z(1), of "NDEBUG cfg" Indet d] obtain z k where "z < unat (zs_num_zones (zc_zone_state c))"
      "zview (zc_zone_state c) z = Writing k" by auto
    then have "0 < cnt (\<lambda>pc. at_place z k (holding pc)) ts" using Z(2) [of z k] by simp
    then show False unfolding cnt_pos_iff using nohold(1) by (auto simp: at_place_def)
  qed
  have wait: False if "Evict_Wait v n z \<in> set ts" for v n z
  proof -
    note E = evicting_full [OF inv that, of z, simplified]
    have "0 < sint (cm_active_readers (zc_cache_map c) ! nat z)" using wt [OF that] by (simp add: waits_def)
    then have "cm_active_readers (zc_cache_map c) ! nat z \<noteq> 0" by auto
    then have "0 < cnt (\<lambda>pc. reading pc = Some (word_of_int z)) ts"
      using M(2) [of "word_of_int z"] E(2,4) by (metis neq0_conv unat_eq_zero)
    then show False unfolding cnt_pos_iff using nohold(2) by auto
  qed
  have noowner: "owner pc = None" if pc: "pc \<in> set ts" for pc
    using wt [OF pc] get wait pc by (cases pc) (auto simp: waits_def)
  have find: False if f: "Find i \<in> set ts" for i
  proof -
    obtain m where m: "zn_cachemap_find_pass i (zc_cache_map c) = Inr (Find_Waits, m)" using wt [OF f] by (auto simp: waits_def)
    have "cm_slot (zc_cache_map c) i = Pending"
    proof (cases "cm_slot (zc_cache_map c) i")
      case Absent
      from cm.find_miss [OF M(1) this] m show ?thesis by auto
    next
      case (Located q)
      from cm.find_hit [OF M(1) this] m show ?thesis by auto
    qed
    then have "0 < cnt (\<lambda>pc. owner pc = Some i) ts" using M(3) [of i] by simp
    then show False unfolding cnt_pos_iff using noowner by auto
  qed
  show ?thesis
  proof
    fix pc assume pc: "pc \<in> set ts"
    show "pc = Stopped \<or> pc = Evict_Poll" using wt [OF pc] get wait find pc by (cases pc) (auto simp: waits_def)
  qed
qed

text \<open>Who can be where: the positions of a worker and of the eviction thread.\<close>

fun worker :: "thread_pc \<Rightarrow> bool" where
  "worker Evict_Poll = False"
| "worker (Evict_Start w) = (w \<noteq> None)"
| "worker (Evict_Choose w n) = (w \<noteq> None)"
| "worker (Evict_Clear w n z) = (w \<noteq> None)"
| "worker (Evict_Wait w n z) = (w \<noteq> None)"
| "worker (Evict_Reset w n z) = (w \<noteq> None)"
| "worker _ = True"

fun evictor :: "thread_pc \<Rightarrow> bool" where
  "evictor Evict_Poll = True"
| "evictor Stopped = True"
| "evictor (Evict_Start w) = (w = None)"
| "evictor (Evict_Choose w n) = (w = None)"
| "evictor (Evict_Clear w n z) = (w = None)"
| "evictor (Evict_Wait w n z) = (w = None)"
| "evictor (Evict_Reset w n z) = (w = None)"
| "evictor _ = False"

text \<open>Positions that a failed transfer leads to.\<close>

fun failing :: "thread_pc \<Rightarrow> bool" where
  "failing (Hit_Touch i q x) = (x = None)"
| "failing (Hit_Release i q x) = (x = None)"
| "failing (Hit_Count i x) = (x = None)"
| "failing (Undo_Zone i q) = True"
| "failing (Undo_Map i) = True"
| "failing (Returned i x) = (x = None)"
| "failing _ = False"

lemma get_step_role:
  "get_step cfg ops buf pc c d = Inr (pc', c', d') \<Longrightarrow> (worker pc \<longrightarrow> worker pc') \<and> (evictor pc \<longrightarrow> evictor pc') \<and>
     (pc' = Stopped \<longleftrightarrow> pc = Stopped)"
  by (cases pc)
    (auto simp: get_step_def bind_res_def c_assert_def Let_def
      split: sum.splits find_pass.splits zsm_get_active_zone_error.splits if_splits)

lemma evict_step_role:
  "evict_step cfg ops lock pc c d = Inr (pc', c', d') \<Longrightarrow> (worker pc \<longrightarrow> worker pc') \<and> (evictor pc \<longrightarrow> evictor pc') \<and>
     (pc' = Stopped \<longleftrightarrow> pc = Stopped)"
  by (cases pc)
    (auto simp: evict_step_def bind_res_def c_assert_def Let_def evict_return_def
      split: sum.splits prod.splits option.splits zn_evict_policy.splits if_splits)

lemma thread_step_role:
  assumes "thread_step cfg verify ops buf lock pc (td, c, d) = Inr (pc', td', c', d')"
  shows "worker pc \<Longrightarrow> worker pc'" "evictor pc \<Longrightarrow> evictor pc'"
    "td' = (if pc = Complete then task_complete td else td)"
    "worker pc \<Longrightarrow> \<not> failing pc \<Longrightarrow> pc' = Stopped \<longleftrightarrow> pc = Stopped \<or> pc = Complete"
  using assms
  by (cases pc; auto simp: thread_step_def bind_res_def c_assert_def Let_def
      dest!: get_step_role evict_step_role split: sum.splits prod.splits option.splits if_splits)+

lemma get_step_healthy:
  assumes dev: "device_ok ops content" "io_reliable ops" and inv: "conc_inv ops content buf p ts c d" and al: "aligned c"
    and t: "t < length ts" and ok: "\<not> failing (ts ! t)" and step: "get_step cfg ops buf (ts ! t) c d = Inr (pc', c', d')"
  shows "\<not> failing pc'"
proof -
  note I = conc_invD [OF inv]
  have read: "pc' \<noteq> Hit_Touch i q None" if pc: "ts ! t = Hit_Read i q" for i q
  proof
    assume n: "pc' = Hit_Touch i q None"
    have "Some (i, q) \<in> relying ` set ts" using pc t by (metis image_eqI nth_mem relying.simps(1))
    then have D: "unat (zp_zone q) < unat (zc_nr_zones c)" "unat (zp_chunk_offset q) < unat (zc_max_zone_chunks c)"
      using data_invD(1,2) [OF I(11), of i q] sizes_okD(14) [OF I(2)] by (simp_all add: place_written_def)
    have "zn_read_from_disk ops (zc_fd c) (zc_chunk_sz c) (zc_io_size c) (zc_zone_size c) q d = Inr (None, d')"
      using step n unfolding pc by (auto simp: get_step_def bind_res_eq_Inr)
    moreover have "zn_read_from_disk ops (zc_fd c) (zc_chunk_sz c) (zc_io_size c) (zc_zone_size c) q d \<noteq> Inr (None, d')"
      by (rule zn_read_from_disk_reliable [OF dev(2) chunk_io_ok [OF I(2) D] _ _ chunk_addr_aligned [OF I(2) al D]])
        (use al in \<open>simp_all add: aligned_def\<close>)
    ultimately show False by blast
  qed
  have wr: "pc' \<noteq> Undo_Zone i q" if pc: "ts ! t = Miss_Write i q" for i q
  proof
    assume n: "pc' = Undo_Zone i q"
    note H = holder [OF inv nth_mem [OF t], of q, unfolded pc, simplified]
    obtain data where data: "zn_gen_write_buffer (zc_chunk_sz c) i buf = Inr data" "length data = unat (zc_chunk_sz c)"
      using zn_gen_write_buffer_ok [OF sizes_okD(3) [OF I(2)] I(3), of i] by blast
    note io = chunk_io_ok [OF I(2) H(1,2)]
    obtain r where r: "zn_write_out (NDEBUG cfg) ops (zc_fd c) (zc_chunk_sz c) data (zc_io_size c)
        (chunk_addr (zc_zone_size c) (zc_chunk_sz c) q) d = Inr (r, d')" "r \<noteq> 0"
      using step n data(1) unfolding pc by (auto simp: get_step_def chunk_addr_def Let_def bind_res_eq_Inr split: if_splits)
    then have "r = -1"
      using zn_write_out_ok [OF device_okD(1) [OF dev(1)] io, of data "NDEBUG cfg" "zc_fd c" d] data(2) by auto
    then show False using r(1) zn_write_out_reliable [OF dev(2) io] by blast
  qed
  have get: "pc' \<noteq> Undo_Map i" if pc: "ts ! t = Miss_Get i" for i
    using get_reliable [OF zone_invD(1) [OF I(9)], of "NDEBUG cfg" Indet d] step unfolding pc
    by (auto simp: get_step_def Let_def bind_res_eq_Inr)
  obtain pc where pc: "ts ! t = pc" by simp
  show ?thesis using step ok read wr get unfolding pc
    by (cases pc) (auto simp: get_step_def bind_res_def c_assert_def Let_def
        split: sum.splits find_pass.splits zsm_get_active_zone_error.splits if_splits)
qed

lemma evict_step_healthy:
  "evict_step cfg ops lock pc c d = Inr (pc', c', d') \<Longrightarrow> \<not> failing pc \<Longrightarrow> \<not> failing pc'"
  by (cases pc)
    (auto simp: evict_step_def bind_res_def c_assert_def Let_def evict_return_def
      split: sum.splits prod.splits option.splits zn_evict_policy.splits if_splits)

lemma thread_step_healthy:
  assumes "device_ok ops content" "io_reliable ops" "conc_inv ops content buf p ts c d" "aligned c" "t < length ts"
    and ok: "\<not> failing (ts ! t)" and step: "thread_step cfg verify ops buf lock (ts ! t) (td, c, d) = Inr (pc', td', c', d')"
  shows "\<not> failing pc'"
proof -
  note g = get_step_healthy [OF assms(1-6)]
  obtain pc where pc: "ts ! t = pc" by simp
  show ?thesis using step ok g evict_step_healthy unfolding pc
    by (cases pc) (fastforce simp: thread_step_def bind_res_def c_assert_def Let_def
      split: sum.splits prod.splits option.splits if_splits)+
qed

text \<open>
  The accounting of a run without failed transfers: the workers come first, the counter of completed
  workers is the number of those that have stopped, and the flags are set when it reaches their number.
\<close>

definition count_inv :: "u32 \<Rightarrow> thread_pc list \<Rightarrow> zn_thread_data \<Rightarrow> bool" where
  "count_inv n ts td \<longleftrightarrow> length ts = unat n + 1 \<and> (\<forall>t < unat n. worker (ts ! t)) \<and> evictor (ts ! unat n) \<and>
     (\<forall>pc \<in> set ts. \<not> failing pc) \<and> td_nr_threads td = n \<and>
     unat (td_nr_threads_completed td) = cnt (\<lambda>pc. pc = Stopped) (take (unat n) ts) \<and>
     (td_nr_threads_completed td = n \<longrightarrow> td_loop_quit td \<and> td_done td)"

lemma count_inv_start: "0 < n \<Longrightarrow> count_inv n (started n) (counters n)"
  by (auto simp: count_inv_def main_threads_def cnt_def nth_append word_gt_0)

lemma count_inv_step:
  assumes inv: "count_inv n ts td" and t: "t < length ts" and ok: "\<not> failing pc"
    and step: "thread_step cfg verify ops buf lock (ts ! t) (td, c, d) = Inr (pc, td', c', d')"
  shows "count_inv n (ts[t := pc]) td'"
proof -
  note C = inv [unfolded count_inv_def] and R = thread_step_role [OF step]
  have nf: "\<forall>pc' \<in> set (ts[t := pc]). \<not> failing pc'" using C ok set_update_subset_insert [of ts t pc] by blast
  show ?thesis
  proof (cases "t < unat n")
    case True
    have w: "worker (ts ! t)" "\<not> failing (ts ! t)" using C True t by auto
    have take: "take (unat n) (ts[t := pc]) = (take (unat n) ts)[t := pc]" "take (unat n) ts ! t = ts ! t"
      "t < length (take (unat n) ts)" using True C by (simp_all add: take_update_swap)
    let ?S = "\<lambda>pc. pc = Stopped"
    have upd: "cnt ?S ((take (unat n) ts)[t := pc]) + (if ts ! t = Stopped then 1 else 0) =
        cnt ?S (take (unat n) ts) + (if pc = Stopped then 1 else 0)"
      using cnt_update [OF take(3), of ?S pc] take(2) by simp
    have "worker ((ts[t := pc]) ! u)" if "u < unat n" for u using C R(1) [OF w(1)] that by (cases "u = t") auto
    moreover have "evictor ((ts[t := pc]) ! unat n)" using C True by simp
    moreover have "td_nr_threads td' = n \<and>
        unat (td_nr_threads_completed td') = cnt ?S (take (unat n) (ts[t := pc])) \<and>
        (td_nr_threads_completed td' = n \<longrightarrow> td_loop_quit td' \<and> td_done td')"
    proof (cases "ts ! t = Complete")
      case True
      then have pc: "pc = Stopped" using R(4) [OF w] by simp
      have "cnt ?S ((take (unat n) ts)[t := pc]) \<le> unat n" using cnt_le_length [of ?S "(take (unat n) ts)[t := pc]"] C by simp
      then have lt: "unat (td_nr_threads_completed td) < unat n" using upd pc True C by simp
      then have "unat (td_nr_threads_completed td + 1) = unat (td_nr_threads_completed td) + 1"
        by (intro unat_inc_less) (simp add: word_less_nat_alt)
      then show ?thesis using C R(3) True upd pc take(1) by (auto simp: task_complete_def Let_def)
    next
      case False
      then show ?thesis using C R(3) R(4) [OF w] upd take(1) by (simp split: if_splits)
    qed
    ultimately show ?thesis using C nf by (simp add: count_inv_def)
  next
    case False
    then have t': "t = unat n" using t C by simp
    then have "evictor (ts ! t)" using C by simp
    then have "evictor pc" "ts ! t \<noteq> Complete" using R(2) by auto
    moreover have "take (unat n) (ts[t := pc]) = take (unat n) ts" using t' by simp
    ultimately show ?thesis using C nf R(3) t' by (simp add: count_inv_def)
  qed
qed

lemma count_run:
  assumes dev: "device_ok ops content" "io_reliable ops" and thr: "EVICT_HIGH_THRESH_ZONES cfg < EVICT_LOW_THRESH_ZONES cfg"
  shows "conc_inv ops content buf p ts c d \<Longrightarrow> aligned c \<Longrightarrow> count_inv n ts td \<Longrightarrow>
    quiet_run cfg verify ops buf sched ts (td, c, d) \<Longrightarrow>
    threads_run cfg verify ops buf sched ts (td, c, d) = Inr (ts', td', c', d') \<Longrightarrow> count_inv n ts' td'"
proof (induction sched arbitrary: p ts td c d)
  case (Cons a sched)
  obtain t lock where a: "a = (t, lock)" by (cases a)
  show ?case
  proof (cases "t < length ts")
    case True
    have q: "quiet ts t c" using Cons.prems(4) True by (simp add: a)
    obtain p1 pc td1 c1 d1 where s: "thread_step cfg verify ops buf lock (ts ! t) (td, c, d) = Inr (pc, td1, c1, d1)"
      "conc_inv ops content buf p1 (ts[t := pc]) c1 d1"
      using thread_step_ok [OF dev(1) Cons.prems(1) True q thr] by blast
    have "aligned c1" using Cons.prems(2) thread_step_sizes [OF s(1) conc_invD(1) [OF Cons.prems(1)]]
      by (simp add: aligned_def zc_sizes_def)
    moreover have "\<not> failing (ts ! t)" using Cons.prems(3) True by (simp add: count_inv_def)
    then have "\<not> failing pc" by (rule thread_step_healthy [OF dev Cons.prems(1,2) True _ s(1)])
    then have "count_inv n (ts[t := pc]) td1" by (rule count_inv_step [OF Cons.prems(3) True _ s(1)])
    ultimately show ?thesis using Cons.IH [OF s(2)] Cons.prems(4,5) True s(1) by (simp add: a)
  next
    case False
    then show ?thesis using Cons by (simp add: a)
  qed
qed simp

lemma runs_end:
  assumes dev: "device_ok ops content" and thr: "EVICT_HIGH_THRESH_ZONES cfg < EVICT_LOW_THRESH_ZONES cfg"
    and start: "conc_inv ops content buf p0 (started n) c d"
    and quiet: "quiet_run cfg verify ops buf sched (started n) (counters n, c, d)"
    and run: "threads_run cfg verify ops buf sched (started n) (counters n, c, d) = Inr (ts, td, c', d')"
    and stuck: "\<forall>t < length ts. \<exists>lock s'. thread_step cfg verify ops buf lock (ts ! t) (td, c', d') = Inr (ts ! t, s')"
  shows "(\<forall>pc \<in> set ts. pc = Stopped \<or> pc = Evict_Poll) \<and>
    (0 < n \<and> io_reliable ops \<and> aligned c \<longrightarrow> main_joined ts td)"
proof
  obtain p where inv: "conc_inv ops content buf p ts c' d'" using threads_run_ok [OF dev thr start quiet] run by auto
  have "waits cfg ops c' d' pc" if pc: "pc \<in> set ts" for pc
  proof -
    obtain t where t: "t < length ts" "ts ! t = pc" using pc by (auto simp: in_set_conv_nth)
    then obtain lock s' where "thread_step cfg verify ops buf lock pc (td, c', d') = Inr (pc, s')"
      using stuck by blast
    then show ?thesis by (rule thread_stays [OF _ conc_invD(1) [OF inv]])
  qed
  then show stop: "\<forall>pc \<in> set ts. pc = Stopped \<or> pc = Evict_Poll" by (intro nobody_moves [OF inv]) blast
  show "0 < n \<and> io_reliable ops \<and> aligned c \<longrightarrow> main_joined ts td"
  proof (intro impI)
    assume a: "0 < n \<and> io_reliable ops \<and> aligned c"
    have C: "count_inv n ts td"
      using a by (intro count_run [OF dev _ thr start _ count_inv_start quiet run]) blast+
    have st: "pc = Stopped" if pc: "pc \<in> set (take (unat n) ts)" for pc
    proof -
      obtain u where u: "u < unat n" "ts ! u = pc" using pc by (auto simp: in_set_conv_nth)
      have "worker pc" using C u by (auto simp: count_inv_def)
      moreover have "pc = Stopped \<or> pc = Evict_Poll" using stop in_set_takeD [OF pc] by blast
      ultimately show ?thesis by (elim disjE) simp_all
    qed
    have "filter (\<lambda>pc. pc = Stopped) (take (unat n) ts) = take (unat n) ts" by (rule filter_True) (simp add: st)
    then have "cnt (\<lambda>pc. pc = Stopped) (take (unat n) ts) = unat n" using C by (simp add: cnt_def count_inv_def)
    then have fin: "td_loop_quit td" "td_done td" using C by (auto simp: count_inv_def)
    have "pc = Stopped" if pc: "pc \<in> set ts" for pc
    proof (rule ccontr)
      assume "pc \<noteq> Stopped"
      then have e: "pc = Evict_Poll" using stop pc by blast
      obtain u where "u < length ts" "ts ! u = pc" using pc by (auto simp: in_set_conv_nth)
      then obtain lock s' where "thread_step cfg verify ops buf lock Evict_Poll (td, c', d') = Inr (Evict_Poll, s')"
        using stuck unfolding e by metis
      then show False using fin(2) by (simp add: thread_step_def)
    qed
    then show "main_joined ts td" using fin(1) by (simp add: main_joined_def)
  qed
qed


definition page_cache :: zn_cache where
  "page_cache = projr (zn_init_cache default_config no_garbage two_zones 4096 8192 3 ZN_EVICT_PROMOTE_ZONE ZE_BACKEND_ZNS [] 0)"

lemma page_cache_init:
  "zn_init_cache default_config no_garbage two_zones 4096 8192 3 ZN_EVICT_PROMOTE_ZONE ZE_BACKEND_ZNS [] 0 = Inr page_cache"
  using zn_init_cache_ok [OF ram_device_ok two_zones_sizes, of no_garbage 3 ZE_BACKEND_ZNS "[]" 0 "\<lambda>_. 0"]
  by (auto simp: page_cache_def)

lemma stopped_stay:
  "\<forall>t < length [Stopped, Stopped]. \<exists>lock s'. thread_step cfg verify ops buf lock ([Stopped, Stopped] ! t) s =
    Inr ([Stopped, Stopped] ! t, s')"
  by (cases s) (auto simp: thread_step_def less_Suc_eq)


text \<open>C32. Without the assumption two identifiers come to share a chunk. A worker has written the last chunk
  of a zone and told the policy, but not the cache map; the eviction thread takes the zone, finds no
  entry for the chunk to remove and resets it; the worker enters the location, the zone is filled again, and
  the same place is given to another identifier. The first one then has a location with wrong data.\<close>

theorem eviction_race_shares_chunk:
  "\<exists>ts td c d q. threads_run default_config False ram_ops (replicate 4 7)
      (steps 9 0 @ steps 7 0 @ steps 6 2 @ steps 1 0 @ steps 35 1)
      (started 2) (counters 2, small_cache [1, 2, 3, 4, 5, 6], \<lambda>_. 0) = Inr (ts, td, c, d) \<and>
    cm_slot (zc_cache_map c) 2 = Located q \<and> cm_slot (zc_cache_map c) 6 = Located q \<and>
    zn_gen_write_buffer 4 2 (replicate 4 7) \<noteq> Inr (disk_bytes (\<lambda>d. d) d (unat (chunk_addr 8 4 q)) 4)"
proof -
  let ?run = "threads_run default_config False ram_ops (replicate 4 7)
      (steps 9 0 @ steps 7 0 @ steps 6 2 @ steps 1 0 @ steps 35 1)
      (started 2) (counters 2, small_cache [1, 2, 3, 4, 5, 6], \<lambda>_. 0)"
  have "case ?run of
      Inr (_, _, c, d) \<Rightarrow> cm_slot (zc_cache_map c) 2 = Located (pair_at 0 1) \<and>
        cm_slot (zc_cache_map c) 6 = Located (pair_at 0 1) \<and>
        zn_gen_write_buffer 4 2 (replicate 4 7) \<noteq> Inr (disk_bytes (\<lambda>d. d) d (unat (chunk_addr 8 4 (pair_at 0 1))) 4)
    | Inl _ \<Rightarrow> False" by code_simp
  then show ?thesis by (auto split: sum.splits)
qed

text \<open>C33. The number of zones to evict is computed once, as \<open>EVICT_LOW_THRESH_ZONES - free_zones\<close> in unsigned
  arithmetic. Of three workers that find no free zone, two evict one zone each; the third then computes
  1 - 2, which wraps around, and evicts every zone there is.\<close>

definition four_zones :: "u32 list \<Rightarrow> zn_cache" where
  "four_zones ids = projr (zn_init_cache (default_config\<lparr>EVICT_HIGH_THRESH_ZONES := 0, EVICT_LOW_THRESH_ZONES := 1\<rparr>) no_garbage
     \<lparr>zi_nr_zones = 4, zi_max_nr_active_zones = 0, zi_zone_size = 4\<rparr> 4 4 3 ZN_EVICT_PROMOTE_ZONE
     ZE_BACKEND_ZNS ids (of_nat (length ids)))"


end
