(* ===== verification/ZN_Profiler.thy ===== *)
theory ZN_Profiler
  imports Complex_Main ZN_Prelude
begin

text \<open>
  The profiler of \<open>src/znprofiler.c\<close> and the timing macros of \<open>include/znutil.h\<close>. The type of
  doubles and its arithmetic are a parameter, the record \<open>double_ops\<close>, so that the results hold
  for whatever rounding the machine does; \<open>exact_ops\<close> is arithmetic without rounding. The output
  file is the sequence of lines written, each line with the values it shows. The clock is a
  parameter.
\<close>

section \<open>Doubles and clock readings\<close>

record 'f double_ops =
  d_of_int :: "int \<Rightarrow> 'f"
  d_add :: "'f \<Rightarrow> 'f \<Rightarrow> 'f"
  d_sub :: "'f \<Rightarrow> 'f \<Rightarrow> 'f"
  d_mul :: "'f \<Rightarrow> 'f \<Rightarrow> 'f"
  d_div :: "'f \<Rightarrow> 'f \<Rightarrow> 'f"
  d_less :: "'f \<Rightarrow> 'f \<Rightarrow> bool"

record timespec =
  tv_sec :: int
  tv_nsec :: int

definition TIME_DIFFERENCE_SEC :: "'f double_ops \<Rightarrow> timespec \<Rightarrow> timespec \<Rightarrow> 'f" where
  "TIME_DIFFERENCE_SEC F start end_ts =
     d_sub F (d_add F (d_of_int F (tv_sec end_ts)) (d_div F (d_of_int F (tv_nsec end_ts)) (d_of_int F 1000000000)))
       (d_add F (d_of_int F (tv_sec start)) (d_div F (d_of_int F (tv_nsec start)) (d_of_int F 1000000000)))"

definition TIME_DIFFERENCE_MILLISEC :: "'f double_ops \<Rightarrow> timespec \<Rightarrow> timespec \<Rightarrow> 'f" where
  "TIME_DIFFERENCE_MILLISEC F start end_ts =
     (let e = d_div F (d_of_int F (tv_nsec end_ts)) (d_of_int F 1000000);
          s = d_div F (d_of_int F (tv_nsec start)) (d_of_int F 1000000) in
      if d_less F e s then
        d_sub F (d_add F (d_add F
          (d_mul F (d_sub F (d_sub F (d_of_int F (tv_sec end_ts)) (d_of_int F 1)) (d_of_int F (tv_sec start))) (d_of_int F 1000))
          e) (d_of_int F 1000)) s
      else
        d_sub F (d_add F (d_mul F (d_of_int F (tv_sec end_ts - tv_sec start)) (d_of_int F 1000)) e) s)"

definition TIME_DIFFERENCE_NSEC :: "'f double_ops \<Rightarrow> timespec \<Rightarrow> timespec \<Rightarrow> 'f" where
  "TIME_DIFFERENCE_NSEC F start end_ts =
     (if tv_nsec end_ts < tv_nsec start then
        d_sub F (d_add F (d_add F
          (d_mul F (d_of_int F (tv_sec end_ts - 1 - tv_sec start)) (d_of_int F 1000000000))
          (d_of_int F (tv_nsec end_ts))) (d_of_int F 1000000000)) (d_of_int F (tv_nsec start))
      else
        d_sub F (d_add F (d_mul F (d_of_int F (tv_sec end_ts - tv_sec start)) (d_of_int F 1000000000))
          (d_of_int F (tv_nsec end_ts))) (d_of_int F (tv_nsec start)))"

definition exact_ops :: "rat double_ops" where
  "exact_ops = \<lparr>d_of_int = of_int, d_add = (+), d_sub = (-), d_mul = (*), d_div = (/), d_less = (<)\<rparr>"

section \<open>The profiler\<close>

datatype zn_profiler_type = ZN_PROFILER_AVG | ZN_PROFILER_SET | ZN_PROFILER_OVER_TIME

record 'f zn_profiler_metrics =
  pm_count :: u32
  pm_value :: 'f
  pm_type :: zn_profiler_type

definition PROFILING_METRICS :: nat where
  "PROFILING_METRICS = 11"

datatype zn_profiler_tag =
    ZN_PROFILER_METRIC_GET_LATENCY
  | ZN_PROFILER_METRIC_CACHE_USED_MIB
  | ZN_PROFILER_METRIC_CACHE_HITRATIO
  | ZN_PROFILER_METRIC_READ_LATENCY
  | ZN_PROFILER_METRIC_WRITE_LATENCY
  | ZN_PROFILER_METRIC_CACHE_FREE_ZONES
  | ZN_PROFILER_METRIC_HIT_LATENCY
  | ZN_PROFILER_METRIC_MISS_LATENCY
  | ZN_PROFILER_METRIC_CACHE_THROUGHPUT
  | ZN_PROFILER_METRIC_CACHE_HIT_THROUGHPUT
  | ZN_PROFILER_METRIC_CACHE_MISS_THROUGHPUT

fun tag_value :: "zn_profiler_tag \<Rightarrow> nat" where
  "tag_value ZN_PROFILER_METRIC_GET_LATENCY = 0"
| "tag_value ZN_PROFILER_METRIC_CACHE_USED_MIB = 1"
| "tag_value ZN_PROFILER_METRIC_CACHE_HITRATIO = 2"
| "tag_value ZN_PROFILER_METRIC_READ_LATENCY = 3"
| "tag_value ZN_PROFILER_METRIC_WRITE_LATENCY = 4"
| "tag_value ZN_PROFILER_METRIC_CACHE_FREE_ZONES = 5"
| "tag_value ZN_PROFILER_METRIC_HIT_LATENCY = 6"
| "tag_value ZN_PROFILER_METRIC_MISS_LATENCY = 7"
| "tag_value ZN_PROFILER_METRIC_CACHE_THROUGHPUT = 8"
| "tag_value ZN_PROFILER_METRIC_CACHE_HIT_THROUGHPUT = 9"
| "tag_value ZN_PROFILER_METRIC_CACHE_MISS_THROUGHPUT = 10"

definition zn_profiler_metric_names :: "string list" where
  "zn_profiler_metric_names = [''GETLATENCY'', ''CACHE_USED_MIB'', ''HITRATIO'', ''READLATENCY'', ''WRITELATENCY'',
     ''FREEZONES'', ''CACHEHITLATENCY'', ''CACHEMISSLATENCY'', ''CACHETHROUGHPUT'', ''CACHEHITTHROUGHPUT'',
     ''CACHEMISSTHROUGHPUT'']"

definition zn_profiler_metric_types :: "zn_profiler_type list" where
  "zn_profiler_metric_types = [ZN_PROFILER_AVG, ZN_PROFILER_SET, ZN_PROFILER_SET, ZN_PROFILER_AVG, ZN_PROFILER_AVG,
     ZN_PROFILER_SET, ZN_PROFILER_AVG, ZN_PROFILER_AVG, ZN_PROFILER_OVER_TIME, ZN_PROFILER_OVER_TIME,
     ZN_PROFILER_OVER_TIME]"

text \<open>A line of the file: the headers, a time, a name and a value, or what \<open>ZN_PROFILER_PRINTF\<close> prints.\<close>

datatype 'f shown = Show_Double 'f | Show_Int int | Show_Pointer nat

datatype 'f metrics_line = Text_Line string | Metric_Line 'f string 'f | is_Every_Line: Every_Line 'f string "'f shown"

record 'f zn_profiler =
  pf_lines :: "'f metrics_line list"
  pf_metrics :: "'f zn_profiler_metrics list"
  pf_realtime :: "bool cell"
  pf_started_ts :: timespec

definition PROFILING_HEADERS :: string where
  "PROFILING_HEADERS = ''TIMESTAMP,METRIC,VALUE''"

definition set_metric_at :: "nat \<Rightarrow> ('f zn_profiler_metrics \<Rightarrow> 'f zn_profiler_metrics) \<Rightarrow> 'f zn_profiler \<Rightarrow> 'f zn_profiler res" where
  "set_metric_at i f zp =
     bind_res (arr_get (pf_metrics zp) i) (\<lambda>pm. Inr (zp\<lparr>pf_metrics := (pf_metrics zp)[i := f pm]\<rparr>))"

definition zn_profiler_reset_metric :: "'f double_ops \<Rightarrow> nat \<Rightarrow> 'f zn_profiler \<Rightarrow> 'f zn_profiler res" where
  "zn_profiler_reset_metric F metric = set_metric_at metric (\<lambda>pm. pm\<lparr>pm_value := d_of_int F 0, pm_count := 0\<rparr>)"

text \<open>The loop of \<open>zn_profiler_init\<close> from metric \<open>i\<close>, over \<open>n\<close> metrics.\<close>

fun init_metrics :: "'f double_ops \<Rightarrow> nat \<Rightarrow> nat \<Rightarrow> 'f zn_profiler \<Rightarrow> 'f zn_profiler res" where
  "init_metrics F i 0 zp = Inr zp"
| "init_metrics F i (Suc n) zp =
     bind_res (zn_profiler_reset_metric F i zp) (\<lambda>zp1.
     bind_res (arr_get zn_profiler_metric_types i) (\<lambda>t.
     bind_res (set_metric_at i (\<lambda>pm. pm\<lparr>pm_type := t\<rparr>) zp1) (\<lambda>zp2. init_metrics F (Suc i) n zp2)))"

definition zn_profiler_write :: "string \<Rightarrow> 'f zn_profiler \<Rightarrow> 'f zn_profiler" where
  "zn_profiler_write s zp = zp\<lparr>pf_lines := pf_lines zp @ [Text_Line s]\<rparr>"

text \<open>
  \<open>opened\<close> tells whether \<open>fopen\<close> succeeds, \<open>garbage\<close> is what \<open>malloc\<close> leaves in the metrics; the
  flag \<open>realtime\<close> is never assigned.
\<close>

definition zn_profiler_init :: "'f double_ops \<Rightarrow> bool \<Rightarrow> (nat \<Rightarrow> 'f zn_profiler_metrics) \<Rightarrow> timespec \<Rightarrow>
    'f zn_profiler option res" where
  "zn_profiler_init F opened garbage now =
     (if \<not> opened then Inr None
      else
        bind_res (init_metrics F 0 PROFILING_METRICS
          (zn_profiler_write PROFILING_HEADERS
            \<lparr>pf_lines = [], pf_metrics = map garbage [0 ..< PROFILING_METRICS],
             pf_realtime = Indet, pf_started_ts = now\<rparr>)) (\<lambda>zp. Inr (Some zp)))"

definition zn_profiler_update_metric :: "'f double_ops \<Rightarrow> nat \<Rightarrow> 'f \<Rightarrow> 'f zn_profiler \<Rightarrow> 'f zn_profiler res" where
  "zn_profiler_update_metric F metric v =
     set_metric_at metric (\<lambda>pm. pm\<lparr>pm_value := d_add F (pm_value pm) v, pm_count := pm_count pm + 1\<rparr>)"

definition zn_profiler_set_metric :: "nat \<Rightarrow> 'f \<Rightarrow> 'f zn_profiler \<Rightarrow> 'f zn_profiler res" where
  "zn_profiler_set_metric metric v = set_metric_at metric (\<lambda>pm. pm\<lparr>pm_value := v\<rparr>)"

text \<open>The value that \<open>zn_profiler_write_all_and_reset\<close> writes for a metric.\<close>

definition report_value :: "'f double_ops \<Rightarrow> int \<Rightarrow> 'f zn_profiler_metrics \<Rightarrow> 'f" where
  "report_value F interval pm =
     (if pm_type pm = ZN_PROFILER_AVG then
        if pm_count pm = 0 then d_of_int F 0 else d_div F (pm_value pm) (d_of_int F (uint (pm_count pm)))
      else if pm_type pm = ZN_PROFILER_OVER_TIME then d_div F (pm_value pm) (d_of_int F interval)
      else pm_value pm)"

text \<open>
  \<open>zn_profiler_write_all_and_reset\<close> for one metric: its value is computed under the lock and printed after the
  lock has been given back; \<open>zn_profiler_reset_metric\<close> takes the lock again. \<open>now\<close> is the time read in between.
\<close>

definition report_metric :: "'f double_ops \<Rightarrow> int \<Rightarrow> timespec \<Rightarrow> nat \<Rightarrow> 'f zn_profiler \<Rightarrow> 'f zn_profiler res" where
  "report_metric F interval now i zp =
     bind_res (arr_get (pf_metrics zp) i) (\<lambda>pm.
     bind_res (arr_get zn_profiler_metric_names i) (\<lambda>nm.
       Inr (zp\<lparr>pf_lines := pf_lines zp @
         [Metric_Line (TIME_DIFFERENCE_MILLISEC F (pf_started_ts zp) now) nm (report_value F interval pm)]\<rparr>)))"

text \<open>The loop from metric \<open>i\<close>, over \<open>n\<close> metrics; \<open>clock i\<close> is the time read for metric \<open>i\<close>.\<close>

fun write_metrics :: "'f double_ops \<Rightarrow> int \<Rightarrow> (nat \<Rightarrow> timespec) \<Rightarrow> nat \<Rightarrow> nat \<Rightarrow> 'f zn_profiler \<Rightarrow> 'f zn_profiler res" where
  "write_metrics F interval clock i 0 zp = Inr zp"
| "write_metrics F interval clock i (Suc n) zp =
     bind_res (report_metric F interval (clock i) i zp) (\<lambda>zp1.
     bind_res (zn_profiler_reset_metric F i zp1) (\<lambda>zp2. write_metrics F interval clock (Suc i) n zp2))"

definition zn_profiler_write_all_and_reset :: "'f double_ops \<Rightarrow> int \<Rightarrow> (nat \<Rightarrow> timespec) \<Rightarrow> 'f zn_profiler \<Rightarrow>
    'f zn_profiler res" where
  "zn_profiler_write_all_and_reset F interval clock = write_metrics F interval clock 0 PROFILING_METRICS"

text \<open>\<open>ZN_PROFILER_UPDATE\<close> and \<open>ZN_PROFILER_SET\<close>: nothing happens without a profiler.\<close>

definition ZN_PROFILER_UPDATE :: "'f double_ops \<Rightarrow> zn_profiler_tag \<Rightarrow> 'f \<Rightarrow> 'f zn_profiler option \<Rightarrow> 'f zn_profiler option res" where
  "ZN_PROFILER_UPDATE F metric v zp = (case zp of None \<Rightarrow> Inr None
     | Some zp \<Rightarrow> bind_res (zn_profiler_update_metric F (tag_value metric) v zp) (\<lambda>zp'. Inr (Some zp')))"

definition ZN_PROFILER_SET_METRIC :: "zn_profiler_tag \<Rightarrow> 'f \<Rightarrow> 'f zn_profiler option \<Rightarrow> 'f zn_profiler option res" where
  "ZN_PROFILER_SET_METRIC metric v zp = (case zp of None \<Rightarrow> Inr None
     | Some zp \<Rightarrow> bind_res (zn_profiler_set_metric (tag_value metric) v zp) (\<lambda>zp'. Inr (Some zp')))"

text \<open>
  \<open>zn_profiler_close\<close> flushes the file and frees the profiler: what is left are the lines printed so far.
  The metrics that have not been reported are gone.
\<close>

definition zn_profiler_close :: "'f zn_profiler \<Rightarrow> 'f metrics_line list" where
  "zn_profiler_close zp = pf_lines zp"

section \<open>What a report shows\<close>

text \<open>What happens to the metrics between two reports.\<close>

datatype 'f metric_event = Update_Metric zn_profiler_tag 'f | Set_Metric zn_profiler_tag 'f

fun metric_event_run :: "'f double_ops \<Rightarrow> 'f metric_event \<Rightarrow> 'f zn_profiler option \<Rightarrow> 'f zn_profiler option res" where
  "metric_event_run F (Update_Metric tag v) zp = ZN_PROFILER_UPDATE F tag v zp"
| "metric_event_run F (Set_Metric tag v) zp = ZN_PROFILER_SET_METRIC tag v zp"

fun metric_events_run :: "'f double_ops \<Rightarrow> 'f metric_event list \<Rightarrow> 'f zn_profiler option \<Rightarrow> 'f zn_profiler option res" where
  "metric_events_run F [] zp = Inr zp"
| "metric_events_run F (e # es) zp = bind_res (metric_event_run F e zp) (metric_events_run F es)"

text \<open>The value and the count of one metric as the history of the interval determines them.\<close>

definition history_value :: "'f double_ops \<Rightarrow> nat \<Rightarrow> 'f metric_event list \<Rightarrow> 'f \<Rightarrow> 'f" where
  "history_value F i es v = foldl (\<lambda>v e. case e of
       Update_Metric tag x \<Rightarrow> if tag_value tag = i then d_add F v x else v
     | Set_Metric tag x \<Rightarrow> if tag_value tag = i then x else v) v es"

definition history_count :: "nat \<Rightarrow> 'f metric_event list \<Rightarrow> nat" where
  "history_count i es = length (filter (\<lambda>e. case e of Update_Metric tag x \<Rightarrow> tag_value tag = i | _ \<Rightarrow> False) es)"

definition history_report :: "'f double_ops \<Rightarrow> int \<Rightarrow> 'f metric_event list \<Rightarrow> nat \<Rightarrow> 'f" where
  "history_report F interval es i = (let v = history_value F i es (d_of_int F 0); n = history_count i es mod 2 ^ 32 in
     case zn_profiler_metric_types ! i of
       ZN_PROFILER_AVG \<Rightarrow> if n = 0 then d_of_int F 0 else d_div F v (d_of_int F (int n))
     | ZN_PROFILER_OVER_TIME \<Rightarrow> d_div F v (d_of_int F interval)
     | ZN_PROFILER_SET \<Rightarrow> v)"

text \<open>A profiler at the start of an interval.\<close>

definition fresh_metrics :: "'f double_ops \<Rightarrow> 'f zn_profiler_metrics list" where
  "fresh_metrics F = map (\<lambda>t. \<lparr>pm_count = 0, pm_value = d_of_int F 0, pm_type = t\<rparr>) zn_profiler_metric_types"

lemma table_lengths [simp]:
  "length zn_profiler_metric_types = 11" "length zn_profiler_metric_names = 11" "length (fresh_metrics F) = 11"
  by (simp_all add: zn_profiler_metric_types_def zn_profiler_metric_names_def fresh_metrics_def)

lemma tag_value_less [simp]: "tag_value tag < 11"
  by (cases tag) simp_all

lemma set_metric_at_ok:
  "i < length (pf_metrics zp) \<Longrightarrow> set_metric_at i f zp = Inr (zp\<lparr>pf_metrics := (pf_metrics zp)[i := f (pf_metrics zp ! i)]\<rparr>)"
  by (simp add: set_metric_at_def arr_get_def)

lemma metric_assigned: "pm\<lparr>pm_value := v, pm_count := n, pm_type := t\<rparr> = \<lparr>pm_count = n, pm_value = v, pm_type = t\<rparr>"
  by (cases pm) simp

lemma init_metrics_ok:
  "length (pf_metrics zp) = 11 \<Longrightarrow> i + n = 11 \<Longrightarrow>
   init_metrics F i n zp = Inr (zp\<lparr>pf_metrics := take i (pf_metrics zp) @ drop i (fresh_metrics F)\<rparr>)"
proof (induction n arbitrary: i zp)
  case (Suc n)
  let ?pm = "\<lparr>pm_count = 0, pm_value = d_of_int F 0, pm_type = zn_profiler_metric_types ! i\<rparr>"
  have i: "i < 11" using Suc.prems(2) by simp
  then have "init_metrics F i (Suc n) zp = init_metrics F (Suc i) n (zp\<lparr>pf_metrics := (pf_metrics zp)[i := ?pm]\<rparr>)"
    using Suc.prems(1) by (simp add: zn_profiler_reset_metric_def set_metric_at_ok arr_get_def metric_assigned)
  also have "\<dots> = Inr (zp\<lparr>pf_metrics := take (Suc i) ((pf_metrics zp)[i := ?pm]) @ drop (Suc i) (fresh_metrics F)\<rparr>)"
    using Suc.IH [of "zp\<lparr>pf_metrics := (pf_metrics zp)[i := ?pm]\<rparr>" "Suc i"] Suc.prems by simp
  also have "take (Suc i) ((pf_metrics zp)[i := ?pm]) @ drop (Suc i) (fresh_metrics F) =
      take i (pf_metrics zp) @ drop i (fresh_metrics F)"
    using i Suc.prems(1) Cons_nth_drop_Suc [of i "fresh_metrics F"]
    by (simp add: take_Suc_conv_app_nth fresh_metrics_def)
  finally show ?case .
qed simp

fun event_metric :: "'f metric_event \<Rightarrow> nat" where
  "event_metric (Update_Metric tag v) = tag_value tag"
| "event_metric (Set_Metric tag v) = tag_value tag"

fun event_effect :: "'f double_ops \<Rightarrow> 'f metric_event \<Rightarrow> 'f zn_profiler_metrics \<Rightarrow> 'f zn_profiler_metrics" where
  "event_effect F (Update_Metric tag v) pm = pm\<lparr>pm_value := d_add F (pm_value pm) v, pm_count := pm_count pm + 1\<rparr>"
| "event_effect F (Set_Metric tag v) pm = pm\<lparr>pm_value := v\<rparr>"

lemma metric_event_run_effect:
  "length (pf_metrics zp) = 11 \<Longrightarrow> metric_event_run F e (Some zp) =
     Inr (Some (zp\<lparr>pf_metrics := (pf_metrics zp)[event_metric e := event_effect F e (pf_metrics zp ! event_metric e)]\<rparr>))"
  by (cases e) (simp_all add: ZN_PROFILER_UPDATE_def ZN_PROFILER_SET_METRIC_def zn_profiler_update_metric_def
      zn_profiler_set_metric_def set_metric_at_ok)

lemma history_Cons:
  "history_value F i (e # es) (pm_value pm) = history_value F i es (pm_value (if event_metric e = i then event_effect F e pm else pm))"
  "pm_count pm + of_nat (history_count i (e # es)) =
     pm_count (if event_metric e = i then event_effect F e pm else pm) + of_nat (history_count i es)"
  "pm_type (event_effect F e pm) = pm_type pm" "event_metric e < 11"
  by (cases e; simp add: history_value_def history_count_def)+

lemma metric_events_run_ok:
  "length (pf_metrics zp) = 11 \<Longrightarrow> \<exists>ms. metric_events_run F es (Some zp) = Inr (Some (zp\<lparr>pf_metrics := ms\<rparr>)) \<and>
     length ms = 11 \<and> (\<forall>i < 11. ms ! i = \<lparr>pm_count = pm_count (pf_metrics zp ! i) + of_nat (history_count i es),
        pm_value = history_value F i es (pm_value (pf_metrics zp ! i)), pm_type = pm_type (pf_metrics zp ! i)\<rparr>)"
proof (induction es arbitrary: zp)
  case (Cons e es)
  let ?ms = "(pf_metrics zp)[event_metric e := event_effect F e (pf_metrics zp ! event_metric e)]"
  have nth: "?ms ! i = (if event_metric e = i then event_effect F e (pf_metrics zp ! i) else pf_metrics zp ! i)" if "i < 11" for i
    using that Cons.prems by (simp add: nth_list_update)
  obtain ms where ms: "metric_events_run F es (Some (zp\<lparr>pf_metrics := ?ms\<rparr>)) = Inr (Some (zp\<lparr>pf_metrics := ms\<rparr>))" "length ms = 11"
    "\<forall>i < 11. ms ! i = \<lparr>pm_count = pm_count (?ms ! i) + of_nat (history_count i es),
        pm_value = history_value F i es (pm_value (?ms ! i)), pm_type = pm_type (?ms ! i)\<rparr>"
    using Cons.IH [of "zp\<lparr>pf_metrics := ?ms\<rparr>"] Cons.prems by auto
  have "ms ! i = \<lparr>pm_count = pm_count (pf_metrics zp ! i) + of_nat (history_count i (e # es)),
        pm_value = history_value F i (e # es) (pm_value (pf_metrics zp ! i)), pm_type = pm_type (pf_metrics zp ! i)\<rparr>" if "i < 11" for i
    using ms(3) that unfolding history_Cons(1,2) [where F = F] by (simp add: nth history_Cons(3))
  then show ?case using ms(1,2) Cons.prems by (intro exI [of _ ms]) (simp add: metric_event_run_effect)
next
  case Nil
  then show ?case by (intro exI [of _ "pf_metrics zp"]) (simp add: history_count_def history_value_def)
qed

lemma write_metrics_ok:
  "length (pf_metrics zp) = 11 \<Longrightarrow> i + n = 11 \<Longrightarrow>
   write_metrics F interval clock i n zp = Inr (zp\<lparr>
     pf_lines := pf_lines zp @ map (\<lambda>k. Metric_Line (TIME_DIFFERENCE_MILLISEC F (pf_started_ts zp) (clock k))
        (zn_profiler_metric_names ! k) (report_value F interval (pf_metrics zp ! k))) [i ..< 11],
     pf_metrics := take i (pf_metrics zp) @ map (\<lambda>pm. pm\<lparr>pm_value := d_of_int F 0, pm_count := 0\<rparr>) (drop i (pf_metrics zp))\<rparr>)"
proof (induction n arbitrary: i zp)
  case (Suc n)
  let ?r = "\<lambda>pm. pm\<lparr>pm_value := d_of_int F 0, pm_count := 0\<rparr>"
  let ?line = "\<lambda>k. Metric_Line (TIME_DIFFERENCE_MILLISEC F (pf_started_ts zp) (clock k))
        (zn_profiler_metric_names ! k) (report_value F interval (pf_metrics zp ! k))"
  let ?zp = "zp\<lparr>pf_lines := pf_lines zp @ [?line i], pf_metrics := (pf_metrics zp)[i := ?r (pf_metrics zp ! i)]\<rparr>"
  have i: "i < 11" using Suc.prems(2) by simp
  then have "write_metrics F interval clock i (Suc n) zp = write_metrics F interval clock (Suc i) n ?zp"
    using Suc.prems(1) by (simp add: report_metric_def zn_profiler_reset_metric_def set_metric_at_ok arr_get_def)
  also have "\<dots> = Inr (zp\<lparr>pf_lines := pf_lines zp @ [?line i] @ map ?line [Suc i ..< 11],
      pf_metrics := take (Suc i) ((pf_metrics zp)[i := ?r (pf_metrics zp ! i)]) @ map ?r (drop (Suc i) (pf_metrics zp))\<rparr>)"
  proof -
    have "map (\<lambda>k. Metric_Line (TIME_DIFFERENCE_MILLISEC F (pf_started_ts ?zp) (clock k))
        (zn_profiler_metric_names ! k) (report_value F interval (pf_metrics ?zp ! k))) [Suc i ..< 11] = map ?line [Suc i ..< 11]"
      by simp
    then show ?thesis using Suc.IH [of ?zp "Suc i"] Suc.prems by simp
  qed
  also have "take (Suc i) ((pf_metrics zp)[i := ?r (pf_metrics zp ! i)]) @ map ?r (drop (Suc i) (pf_metrics zp)) =
      take i (pf_metrics zp) @ map ?r (drop i (pf_metrics zp))"
    using i Suc.prems(1) Cons_nth_drop_Suc [of i "pf_metrics zp", symmetric] by (simp add: take_Suc_conv_app_nth)
  also have "[?line i] @ map ?line [Suc i ..< 11] = map ?line [i ..< 11]" using i by (simp add: upt_conv_Cons)
  finally show ?case .
qed simp

text \<open>A session: in each interval some events, then the report of \<open>profiling_task\<close>.\<close>

fun profiler_session :: "'f double_ops \<Rightarrow> int \<Rightarrow> ('f metric_event list \<times> (nat \<Rightarrow> timespec)) list \<Rightarrow> 'f zn_profiler \<Rightarrow> 'f zn_profiler res" where
  "profiler_session F interval [] zp = Inr zp"
| "profiler_session F interval ((es, clock) # rounds) zp =
     bind_res (metric_events_run F es (Some zp)) (\<lambda>zp1. case zp1 of None \<Rightarrow> Inl Null_Deref | Some zp1 \<Rightarrow>
     bind_res (zn_profiler_write_all_and_reset F interval clock zp1) (profiler_session F interval rounds))"

definition report_lines :: "'f double_ops \<Rightarrow> int \<Rightarrow> timespec \<Rightarrow> 'f metric_event list \<times> (nat \<Rightarrow> timespec) \<Rightarrow> 'f metrics_line list" where
  "report_lines F interval now = (\<lambda>(es, clock). map (\<lambda>k. Metric_Line (TIME_DIFFERENCE_MILLISEC F now (clock k))
     (zn_profiler_metric_names ! k) (history_report F interval es k)) [0 ..< 11])"

lemma count_word:
  "uint (of_nat n :: u32) = int (n mod 2 ^ 32)" "(of_nat n :: u32) = 0 \<longleftrightarrow> n mod 2 ^ 32 = 0"
proof -
  show u: "uint (of_nat n :: u32) = int (n mod 2 ^ 32)"
    by (simp add: unsigned_of_nat take_bit_eq_mod zmod_int)
  have "(of_nat n :: u32) = 0 \<longleftrightarrow> uint (of_nat n :: u32) = 0" by (simp only: uint_0_iff)
  then show "(of_nat n :: u32) = 0 \<longleftrightarrow> n mod 2 ^ 32 = 0" unfolding u by (simp only: of_nat_eq_0_iff)
qed

lemma profiler_round:
  assumes "pf_metrics zp = fresh_metrics F"
  shows "\<exists>zp1. metric_events_run F es (Some zp) = Inr (Some zp1) \<and>
    zn_profiler_write_all_and_reset F interval clock zp1 =
      Inr (zp\<lparr>pf_lines := pf_lines zp @ report_lines F interval (pf_started_ts zp) (es, clock)\<rparr>)"
proof -
  obtain ms where ms: "metric_events_run F es (Some zp) = Inr (Some (zp\<lparr>pf_metrics := ms\<rparr>))" "length ms = 11"
    "\<forall>i < 11. ms ! i = \<lparr>pm_count = pm_count (fresh_metrics F ! i) + of_nat (history_count i es),
        pm_value = history_value F i es (pm_value (fresh_metrics F ! i)), pm_type = pm_type (fresh_metrics F ! i)\<rparr>"
    using metric_events_run_ok [of zp F es] assms by auto
  have fresh: "fresh_metrics F ! i = \<lparr>pm_count = 0, pm_value = d_of_int F 0, pm_type = zn_profiler_metric_types ! i\<rparr>" if "i < 11" for i
    using that by (simp add: fresh_metrics_def)
  have reset: "map (\<lambda>pm. pm\<lparr>pm_value := d_of_int F 0, pm_count := 0\<rparr>) ms = fresh_metrics F"
    by (rule nth_equalityI) (use ms(2,3) fresh in auto)
  have val: "report_value F interval (ms ! k) = history_report F interval es k" if "k < 11" for k
  proof -
    have "ms ! k = \<lparr>pm_count = of_nat (history_count k es), pm_value = history_value F k es (d_of_int F 0),
        pm_type = zn_profiler_metric_types ! k\<rparr>" using ms(3) that fresh [OF that] by simp
    then show ?thesis using count_word [of "history_count k es"] unfolding report_value_def history_report_def Let_def
      by (cases "zn_profiler_metric_types ! k") simp_all
  qed
  have lines: "map (\<lambda>k. Metric_Line (TIME_DIFFERENCE_MILLISEC F (pf_started_ts zp) (clock k))
        (zn_profiler_metric_names ! k) (report_value F interval (ms ! k))) [0 ..< 11] =
      report_lines F interval (pf_started_ts zp) (es, clock)"
    unfolding report_lines_def by (simp add: val del: upt.simps)
  have "zn_profiler_write_all_and_reset F interval clock (zp\<lparr>pf_metrics := ms\<rparr>) =
      Inr (zp\<lparr>pf_lines := pf_lines zp @ report_lines F interval (pf_started_ts zp) (es, clock), pf_metrics := fresh_metrics F\<rparr>)"
    unfolding zn_profiler_write_all_and_reset_def PROFILING_METRICS_def lines [symmetric] reset [symmetric]
    by (subst write_metrics_ok) (simp_all add: ms(2))
  moreover have "zp\<lparr>pf_lines := ls, pf_metrics := fresh_metrics F\<rparr> = zp\<lparr>pf_lines := ls\<rparr>" for ls using assms by (cases zp) simp
  ultimately show ?thesis using ms(1) by simp
qed

lemma profiler_session_ok:
  "pf_metrics zp = fresh_metrics F \<Longrightarrow> profiler_session F interval rounds zp =
     Inr (zp\<lparr>pf_lines := pf_lines zp @ concat (map (report_lines F interval (pf_started_ts zp)) rounds)\<rparr>)"
proof (induction rounds arbitrary: zp)
  case (Cons r rounds)
  obtain es clock where r: "r = (es, clock)" by fastforce
  show ?case using profiler_round [OF Cons.prems, of es interval clock] Cons.IH [of "zp\<lparr>pf_lines := _\<rparr>"] Cons.prems r by auto
qed simp

text \<open>C21. Whatever the arithmetic of doubles, the metrics file of a session is the header followed by one
  line per metric and interval, in the order of the tables, and each line shows what the events of
  its interval alone determine: the average of the updates, the last value set, or the sum over the
  interval's length. Nothing carries over from one interval to the next.\<close>

theorem profiler_reports_history:
  "\<exists>zp zp'. zn_profiler_init F True garbage now = Inr (Some zp) \<and>
    profiler_session F interval rounds zp = Inr zp' \<and>
    pf_lines zp' = Text_Line PROFILING_HEADERS #
      concat (map (\<lambda>(es, clock). map (\<lambda>k. Metric_Line (TIME_DIFFERENCE_MILLISEC F now (clock k))
        (zn_profiler_metric_names ! k) (history_report F interval es k)) [0 ..< 11]) rounds)"
proof -
  let ?zp = "\<lparr>pf_lines = [Text_Line PROFILING_HEADERS], pf_metrics = fresh_metrics F, pf_realtime = Indet, pf_started_ts = now\<rparr>"
  have "zn_profiler_init F True garbage now = Inr (Some ?zp)"
    by (simp add: zn_profiler_init_def zn_profiler_write_def PROFILING_METRICS_def init_metrics_ok)
  moreover have "report_lines F interval now = (\<lambda>(es, clock). map (\<lambda>k. Metric_Line (TIME_DIFFERENCE_MILLISEC F now (clock k))
        (zn_profiler_metric_names ! k) (history_report F interval es k)) [0 ..< 11])" by (simp add: report_lines_def)
  ultimately show ?thesis using profiler_session_ok [of ?zp F interval rounds] by simp
qed



section \<open>The timing macros\<close>

text \<open>In exact arithmetic the three timing macros give the difference of the two clock readings in
  seconds, milliseconds and nanoseconds, with or without a borrow between the fields.\<close>

lemma time_difference_exact:
  "TIME_DIFFERENCE_SEC exact_ops s e = of_int ((tv_sec e - tv_sec s) * 1000000000 + (tv_nsec e - tv_nsec s)) / 1000000000 \<and>
   TIME_DIFFERENCE_MILLISEC exact_ops s e = of_int ((tv_sec e - tv_sec s) * 1000000000 + (tv_nsec e - tv_nsec s)) / 1000000 \<and>
   TIME_DIFFERENCE_NSEC exact_ops s e = of_int ((tv_sec e - tv_sec s) * 1000000000 + (tv_nsec e - tv_nsec s))"
  by (simp add: TIME_DIFFERENCE_SEC_def TIME_DIFFERENCE_MILLISEC_def TIME_DIFFERENCE_NSEC_def exact_ops_def Let_def field_simps)

end
