(* ===== verification/ZN_Metrics.thy ===== *)
theory ZN_Metrics
  imports ZN_Workload ZN_Profiler
begin

text \<open>
  The cache and its workers with the calls of the profiler: the clock readings, \<open>ZN_PROFILER_UPDATE\<close>,
  \<open>ZN_PROFILER_SET\<close> and \<open>ZN_PROFILER_PRINTF\<close> at their places in \<open>src/cache.c\<close> and \<open>src/zncache.c\<close>. Measuring
  does not change what the cache does, and the reports say what it did.
\<close>

section \<open>The calls of the profiler\<close>

text \<open>
  The arithmetic of doubles, whether \<open>ZN_PROFILER_PRINT_EVERY\<close> is defined, and the clock: the time that the
  \<open>n\<close>th reading gives. A meter is \<open>cache->profiler\<close> with the number of readings made so far.
\<close>

record 'f profile_env =
  pe_ops :: "'f double_ops"
  pe_every :: bool
  pe_clock :: "nat \<Rightarrow> timespec"

type_synonym 'f meter = "'f zn_profiler option \<times> nat"

definition TIME_NOW :: "'f profile_env \<Rightarrow> 'f meter \<Rightarrow> timespec \<times> 'f meter" where
  "TIME_NOW E m = (pe_clock E (snd m), fst m, Suc (snd m))"

definition meter_update :: "'f profile_env \<Rightarrow> zn_profiler_tag \<Rightarrow> 'f \<Rightarrow> 'f meter \<Rightarrow> 'f meter res" where
  "meter_update E metric v m = bind_res (ZN_PROFILER_UPDATE (pe_ops E) metric v (fst m)) (\<lambda>zp. Inr (zp, snd m))"

definition meter_set :: "'f profile_env \<Rightarrow> zn_profiler_tag \<Rightarrow> 'f \<Rightarrow> 'f meter \<Rightarrow> 'f meter res" where
  "meter_set E metric v m = bind_res (ZN_PROFILER_SET_METRIC metric v (fst m)) (\<lambda>zp. Inr (zp, snd m))"

definition ZN_PROFILER_PRINTF :: "'f profile_env \<Rightarrow> string \<Rightarrow> 'f shown \<Rightarrow> 'f meter \<Rightarrow> 'f meter" where
  "ZN_PROFILER_PRINTF E label v m =
     (if \<not> pe_every E then m
      else case fst m of
          None \<Rightarrow> m
        | Some zp \<Rightarrow>
            (let (ts, m') = TIME_NOW E m in
             (Some (zp\<lparr>pf_lines := pf_lines zp @
                [Every_Line (TIME_DIFFERENCE_MILLISEC (pe_ops E) (pf_started_ts zp) ts) label v]\<rparr>), snd m')))"

definition BYTES_TO_MIB :: "'f double_ops \<Rightarrow> u64 \<Rightarrow> 'f" where
  "BYTES_TO_MIB F bytes = d_div F (d_of_int F (uint bytes)) (d_mul F (d_of_int F 1024) (d_of_int F 1024))"

text \<open>\<open>zn_cache_get_hit_ratio\<close> with its division of doubles.\<close>

definition hit_ratio_double :: "'f double_ops \<Rightarrow> zn_cache \<Rightarrow> 'f" where
  "hit_ratio_double F cache =
     (let num = hr_hits (zc_ratio cache); den = hr_misses (zc_ratio cache) + hr_hits (zc_ratio cache) in
      if den = 0 then d_of_int F 0 else d_div F (d_of_int F (uint num)) (d_of_int F (uint den)))"

section \<open>The cache with its measurements\<close>

text \<open>\<open>self\<close> is the result of \<open>g_thread_self\<close>.\<close>

definition zn_fg_evict_profiled :: "'f profile_env \<Rightarrow> nat \<Rightarrow> zn_config \<Rightarrow> 'dev dev_ops \<Rightarrow> zn_cache \<Rightarrow> 'dev \<Rightarrow> 'f meter \<Rightarrow>
    (zn_cache \<times> 'dev \<times> 'f meter) res" where
  "zn_fg_evict_profiled E self cfg ops cache d m =
     (let m1 = ZN_PROFILER_PRINTF E ''EVICTIONBEGIN_EVERY'' (Show_Pointer self) m in
      bind_res (zn_fg_evict cfg ops cache d) (\<lambda>(cache', d').
        Inr (cache', d', ZN_PROFILER_PRINTF E ''EVICTIONEND_EVERY'' (Show_Pointer self) m1)))"

fun get_location_profiled :: "'f profile_env \<Rightarrow> nat \<Rightarrow> zn_config \<Rightarrow> 'dev dev_ops \<Rightarrow> nat \<Rightarrow> zn_cache \<Rightarrow> 'dev \<Rightarrow> 'f meter \<Rightarrow>
    (zn_pair option \<times> zn_cache \<times> 'dev \<times> 'f meter) res" where
  "get_location_profiled E self cfg ops 0 cache d m = Inl Out_Of_Fuel"
| "get_location_profiled E self cfg ops (Suc fuel) cache d m =
     bind_res (zsm_get_active_zone (NDEBUG cfg) ops Indet (zc_zone_state cache) d) (\<lambda>(ret, cell, zs, d1).
       let cache1 = cache\<lparr>zc_zone_state := zs\<rparr> in
       case ret of
         ZSM_GET_ACTIVE_ZONE_RETRY \<Rightarrow> Inl Blocked
       | ZSM_GET_ACTIVE_ZONE_ERROR \<Rightarrow> Inr (None, cache1, d1, m)
       | ZSM_GET_ACTIVE_ZONE_EVICT \<Rightarrow>
           bind_res (zn_fg_evict_profiled E self cfg ops cache1 d1 m) (\<lambda>(cache2, d2, m2).
             get_location_profiled E self cfg ops fuel cache2 d2 m2)
       | ZSM_GET_ACTIVE_ZONE_SUCCESS \<Rightarrow>
           bind_res (read_cell cell) (\<lambda>location. Inr (Some location, cache1, d1, m)))"

definition cache_get_hit_profiled :: "'f profile_env \<Rightarrow> bool \<Rightarrow> 'dev dev_ops \<Rightarrow> timespec \<Rightarrow> zn_pair \<Rightarrow> zn_cache \<Rightarrow> 'dev \<Rightarrow>
    'f meter \<Rightarrow> (u8 list option \<times> zn_cache \<times> 'dev \<times> 'f meter) res" where
  "cache_get_hit_profiled E nd ops total_start_time location cache d m =
     (let (start_time, m1) = TIME_NOW E m in
      bind_res (zn_read_from_disk ops (zc_fd cache) (zc_chunk_sz cache) (zc_io_size cache)
                  (zc_zone_size cache) location d) (\<lambda>(data, d1).
      let (end_time, m2) = TIME_NOW E m1; t = TIME_DIFFERENCE_NSEC (pe_ops E) start_time end_time in
      bind_res (meter_update E ZN_PROFILER_METRIC_READ_LATENCY t m2) (\<lambda>m3.
      let m4 = ZN_PROFILER_PRINTF E ''READLATENCY_EVERY'' (Show_Double t) m3 in
      bind_res (update_policy nd location ZN_READ cache) (\<lambda>cache1.
      let cm = zc_cache_map cache1; z = unat (zp_zone location) in
      bind_res (arr_get (cm_active_readers cm) z) (\<lambda>n.
      let cache2 = cache1\<lparr>zc_cache_map := cm\<lparr>cm_active_readers := (cm_active_readers cm)[z := n - 1]\<rparr>,
                     zc_ratio := (zc_ratio cache1)\<lparr>hr_hits := hr_hits (zc_ratio cache1) + 1\<rparr>\<rparr>;
          (total_end_time, m5) = TIME_NOW E m4;
          t = TIME_DIFFERENCE_NSEC (pe_ops E) total_start_time total_end_time;
          m6 = ZN_PROFILER_PRINTF E ''CACHEHITLATENCY_EVERY'' (Show_Double t) m5 in
      bind_res (meter_update E ZN_PROFILER_METRIC_HIT_LATENCY t m6) (\<lambda>m7.
      bind_res (meter_update E ZN_PROFILER_METRIC_CACHE_HIT_THROUGHPUT (d_of_int (pe_ops E) (uint (zc_chunk_sz cache2))) m7) (\<lambda>m8.
        Inr (data, cache2, d1, m8))))))))"

definition cache_get_miss_profiled :: "'f profile_env \<Rightarrow> nat \<Rightarrow> zn_config \<Rightarrow> 'dev dev_ops \<Rightarrow> nat \<Rightarrow> timespec \<Rightarrow> u32 \<Rightarrow>
    u8 list \<Rightarrow> zn_cache \<Rightarrow> 'dev \<Rightarrow> 'f meter \<Rightarrow> (u8 list option \<times> zn_cache \<times> 'dev \<times> 'f meter) res" where
  "cache_get_miss_profiled E self cfg ops fuel total_start_time data_id random_buffer cache d m =
     (let nd = NDEBUG cfg in
      bind_res (get_location_profiled E self cfg ops fuel cache d m) (\<lambda>(loc, cache1, d1, m1).
        case loc of
          None \<Rightarrow>
            bind_res (zn_cachemap_fail nd data_id (zc_cache_map cache1)) (\<lambda>cm.
              Inr (None, cache1\<lparr>zc_cache_map := cm\<rparr>, d1, m1))
        | Some location \<Rightarrow>
            bind_res (zn_gen_write_buffer (zc_chunk_sz cache1) data_id random_buffer) (\<lambda>data.
            let wp = CHUNK_POINTER (zc_zone_size cache1) (zc_chunk_sz cache1)
                       (zp_chunk_offset location) (zp_zone location);
                (start_time, m2) = TIME_NOW E m1 in
            bind_res (zn_write_out nd ops (zc_fd cache1) (zc_chunk_sz cache1) data (zc_io_size cache1) wp d1) (\<lambda>(ret, d2).
            let (end_time, m3) = TIME_NOW E m2; t = TIME_DIFFERENCE_NSEC (pe_ops E) start_time end_time in
            bind_res (meter_update E ZN_PROFILER_METRIC_WRITE_LATENCY t m3) (\<lambda>m4.
            let m5 = ZN_PROFILER_PRINTF E ''WRITELATENCY_EVERY'' (Show_Double t) m4 in
            if ret \<noteq> 0 then
              bind_res (zsm_failed_to_write nd location (zc_zone_state cache1)) (\<lambda>zs.
              bind_res (zn_cachemap_fail nd data_id (zc_cache_map cache1)) (\<lambda>cm.
                Inr (None, cache1\<lparr>zc_zone_state := zs, zc_cache_map := cm\<rparr>, d2, m5)))
            else
              let cache2 = cache1\<lparr>zc_ratio := (zc_ratio cache1)\<lparr>hr_misses := hr_misses (zc_ratio cache1) + 1\<rparr>\<rparr> in
              bind_res (zsm_return_active_zone nd ops location (zc_zone_state cache2) d2) (\<lambda>(_, zs, d3).
              bind_res (update_policy nd location ZN_WRITE (cache2\<lparr>zc_zone_state := zs\<rparr>)) (\<lambda>cache3.
              bind_res (zn_cachemap_insert nd data_id location (zc_cache_map cache3)) (\<lambda>cm.
              let cache4 = cache3\<lparr>zc_cache_map := cm\<rparr>;
                  (total_end_time, m6) = TIME_NOW E m5;
                  t = TIME_DIFFERENCE_NSEC (pe_ops E) total_start_time total_end_time;
                  m7 = ZN_PROFILER_PRINTF E ''CACHEMISSLATENCY_EVERY'' (Show_Double t) m6 in
              bind_res (meter_update E ZN_PROFILER_METRIC_MISS_LATENCY t m7) (\<lambda>m8.
              bind_res (meter_update E ZN_PROFILER_METRIC_CACHE_MISS_THROUGHPUT (d_of_int (pe_ops E) (uint (zc_chunk_sz cache4))) m8)
                (\<lambda>m9. Inr (Some data, cache4, d3, m9)))))))))))"

definition zn_cache_get_profiled :: "'f profile_env \<Rightarrow> nat \<Rightarrow> zn_config \<Rightarrow> 'dev dev_ops \<Rightarrow> nat \<Rightarrow> u32 \<Rightarrow> u8 list \<Rightarrow>
    zn_cache \<Rightarrow> 'dev \<Rightarrow> 'f meter \<Rightarrow> (u8 list option \<times> zn_cache \<times> 'dev \<times> 'f meter) res" where
  "zn_cache_get_profiled E self cfg ops fuel data_id random_buffer cache d m =
     (let (total_start_time, m1) = TIME_NOW E m in
      bind_res (zn_cachemap_find data_id (zc_cache_map cache)) (\<lambda>(result, cm).
      c_assert (NDEBUG cfg) (zr_type result \<noteq> RESULT_EMPTY)
        (if zr_type result = RESULT_LOC
         then cache_get_hit_profiled E (NDEBUG cfg) ops total_start_time (zr_location result) (cache\<lparr>zc_cache_map := cm\<rparr>) d m1
         else cache_get_miss_profiled E self cfg ops fuel total_start_time data_id random_buffer (cache\<lparr>zc_cache_map := cm\<rparr>) d m1)))"

section \<open>The worker with its measurements\<close>

text \<open>The measurements of \<open>task_function\<close> after the data has been checked.\<close>

definition task_metrics :: "'f profile_env \<Rightarrow> int \<Rightarrow> zn_cache \<Rightarrow> 'f meter \<Rightarrow> 'f meter res" where
  "task_metrics E tid cache m =
     (let F = pe_ops E in
      bind_res (meter_update E ZN_PROFILER_METRIC_CACHE_THROUGHPUT (d_of_int F (uint (zc_chunk_sz cache))) m) (\<lambda>m1.
      bind_res (meter_set E ZN_PROFILER_METRIC_CACHE_USED_MIB (BYTES_TO_MIB F (zn_evict_policy_get_cache_size cache)) m1) (\<lambda>m2.
      bind_res (meter_set E ZN_PROFILER_METRIC_CACHE_FREE_ZONES
                  (d_of_int F (uint (zsm_get_num_free_zones (zc_zone_state cache)))) m2) (\<lambda>m3.
      bind_res (meter_set E ZN_PROFILER_METRIC_CACHE_HITRATIO (hit_ratio_double F cache) m3) (\<lambda>m4.
        Inr (ZN_PROFILER_PRINTF E ''THREADID_EVERY'' (Show_Int tid) m4))))))"

definition task_step_profiled :: "'f profile_env \<Rightarrow> nat \<Rightarrow> int \<Rightarrow> zn_config \<Rightarrow> bool \<Rightarrow> 'dev dev_ops \<Rightarrow> nat \<Rightarrow> u8 list \<Rightarrow>
    zn_cache \<Rightarrow> 'dev \<Rightarrow> 'f meter \<Rightarrow> (task_outcome \<times> zn_cache \<times> 'dev \<times> 'f meter) res" where
  "task_step_profiled E self tid cfg verify ops fuel RANDOM_DATA cache d m =
     (case claim_request (zc_reader cache) of
        (None, r) \<Rightarrow> Inr (Task_Finished, cache\<lparr>zc_reader := r\<rparr>, d, m)
      | (Some (wi, percent, print), r) \<Rightarrow>
          bind_res (arr_get (rd_workload_buffer r) (unat wi)) (\<lambda>data_id.
          let (start_time, m1) = TIME_NOW E m in
          bind_res (zn_cache_get_profiled E self cfg ops fuel data_id RANDOM_DATA (cache\<lparr>zc_reader := r\<rparr>) d m1)
            (\<lambda>(data, cache', d', m2).
            case data of
              None \<Rightarrow> Inr (Task_Failed, cache', d', m2)
            | Some bytes \<Rightarrow>
                let (end_time, m3) = TIME_NOW E m2; t = TIME_DIFFERENCE_NSEC (pe_ops E) start_time end_time in
                bind_res (meter_update E ZN_PROFILER_METRIC_GET_LATENCY t m3) (\<lambda>m4.
                let m5 = ZN_PROFILER_PRINTF E ''GETLATENCY_EVERY'' (Show_Double t) m4 in
                if verify \<and> \<not> NDEBUG cfg then
                  bind_res (zn_validate_read (zc_chunk_sz cache') bytes data_id RANDOM_DATA) (\<lambda>ret.
                    c_assert False (ret = 0)
                      (bind_res (task_metrics E tid cache' m5) (\<lambda>m6. Inr (Task_Served, cache', d', m6))))
                else bind_res (task_metrics E tid cache' m5) (\<lambda>m6. Inr (Task_Served, cache', d', m6))))))"

fun task_loop_profiled :: "'f profile_env \<Rightarrow> nat \<Rightarrow> int \<Rightarrow> zn_config \<Rightarrow> bool \<Rightarrow> 'dev dev_ops \<Rightarrow> nat \<Rightarrow> u8 list \<Rightarrow> nat \<Rightarrow>
    zn_cache \<Rightarrow> 'dev \<Rightarrow> 'f meter \<Rightarrow> (bool \<times> zn_cache \<times> 'dev \<times> 'f meter) res" where
  "task_loop_profiled E self tid cfg verify ops fuel RANDOM_DATA 0 cache d m = Inl Out_Of_Fuel"
| "task_loop_profiled E self tid cfg verify ops fuel RANDOM_DATA (Suc n) cache d m =
     bind_res (task_step_profiled E self tid cfg verify ops fuel RANDOM_DATA cache d m) (\<lambda>(outcome, cache', d', m').
       case outcome of
         Task_Finished \<Rightarrow> Inr (True, cache', d', m')
       | Task_Failed \<Rightarrow> Inr (False, cache', d', m')
       | Task_Served \<Rightarrow> task_loop_profiled E self tid cfg verify ops fuel RANDOM_DATA n cache' d' m')"

definition task_function_profiled :: "'f profile_env \<Rightarrow> nat \<Rightarrow> int \<Rightarrow> zn_config \<Rightarrow> bool \<Rightarrow> 'dev dev_ops \<Rightarrow> nat \<Rightarrow> u8 list \<Rightarrow>
    nat \<Rightarrow> zn_thread_data \<Rightarrow> zn_cache \<Rightarrow> 'dev \<Rightarrow> 'f meter \<Rightarrow> (zn_thread_data \<times> zn_cache \<times> 'dev \<times> 'f meter) res" where
  "task_function_profiled E self tid cfg verify ops fuel RANDOM_DATA n td cache d m =
     bind_res (task_loop_profiled E self tid cfg verify ops fuel RANDOM_DATA n cache d m) (\<lambda>(finished, cache', d', m').
       Inr (if finished then task_complete td else td, cache', d', m'))"

section \<open>Start, reports and the end\<close>

text \<open>The profiler in \<open>zn_init_cache\<close>; \<open>metrics\<close> tells whether a metrics file is given.\<close>

definition init_cache_profiler :: "bool \<Rightarrow> 'f double_ops \<Rightarrow> bool \<Rightarrow> bool \<Rightarrow> (nat \<Rightarrow> 'f zn_profiler_metrics) \<Rightarrow> timespec \<Rightarrow>
    'f zn_profiler option res" where
  "init_cache_profiler nd F metrics opened garbage now =
     (if metrics
      then bind_res (zn_profiler_init F opened garbage now) (\<lambda>zp. c_assert nd (zp \<noteq> None) (Inr zp))
      else Inr None)"

definition profiling_task :: "'f double_ops \<Rightarrow> int \<Rightarrow> (nat \<Rightarrow> timespec) \<Rightarrow> 'f zn_profiler \<Rightarrow> (bool \<times> 'f zn_profiler) res" where
  "profiling_task F interval clock zp = bind_res (zn_profiler_write_all_and_reset F interval clock zp) (\<lambda>zp'. Inr (True, zp'))"

text \<open>What is in the metrics file, if there is one, when the cache has been destroyed.\<close>

definition zn_destroy_cache :: "'f zn_profiler option \<Rightarrow> 'f metrics_line list option" where
  "zn_destroy_cache zp = map_option zn_profiler_close zp"

section \<open>What a call leaves in the meter\<close>

definition meter_ok :: "'f meter \<Rightarrow> bool" where
  "meter_ok m \<longleftrightarrow> (\<forall>zp. fst m = Some zp \<longrightarrow> length (pf_metrics zp) = 11)"

definition note_event :: "'f double_ops \<Rightarrow> 'f metric_event \<Rightarrow> 'f zn_profiler_metrics list \<Rightarrow> 'f zn_profiler_metrics list" where
  "note_event F e ms = ms[event_metric e := event_effect F e (ms ! event_metric e)]"

text \<open>\<open>m'\<close> is \<open>m\<close> after the events \<open>es\<close>; lines may have been printed and the clock read.\<close>

definition follows :: "'f double_ops \<Rightarrow> 'f metric_event list \<Rightarrow> 'f meter \<Rightarrow> 'f meter \<Rightarrow> bool" where
  "follows F es m m' \<longleftrightarrow> meter_ok m \<and> meter_ok m' \<and>
     map_option (\<lambda>zp. (pf_started_ts zp, filter (\<lambda>l. \<not> is_Every_Line l) (pf_lines zp), pf_metrics zp)) (fst m') =
       map_option (\<lambda>zp. (pf_started_ts zp, filter (\<lambda>l. \<not> is_Every_Line l) (pf_lines zp), fold (note_event F) es (pf_metrics zp))) (fst m)"

lemma follows_refl: "meter_ok m \<Longrightarrow> follows F [] m m"
  by (simp add: follows_def)

lemma follows_trans: "follows F es m m1 \<Longrightarrow> follows F es' m1 m2 \<Longrightarrow> follows F (es @ es') m m2"
  by (cases "fst m"; cases "fst m1"; cases "fst m2") (auto simp: follows_def)

lemma follows_time: "follows F es m m1 \<Longrightarrow> follows F es m (snd (TIME_NOW E m1))"
  by (simp add: follows_def TIME_NOW_def meter_ok_def)

lemma follows_printf: "follows F es m m1 \<Longrightarrow> follows F es m (ZN_PROFILER_PRINTF E label v m1)"
  by (cases "fst m1") (auto simp: follows_def ZN_PROFILER_PRINTF_def TIME_NOW_def meter_ok_def)

lemma event_follows:
  assumes "follows F es m m1" and "bind_res (metric_event_run F e (fst m1)) (\<lambda>zp. Inr (zp, snd m1)) = r"
  shows "\<exists>m2. r = Inr m2 \<and> follows F (es @ [e]) m m2"
proof (cases "fst m1")
  case None
  then have "r = Inr m1" using assms(2) by (cases e; cases m1) (auto simp: ZN_PROFILER_UPDATE_def ZN_PROFILER_SET_METRIC_def)
  then show ?thesis using assms(1) None by (auto simp: follows_def)
next
  case (Some zp)
  then have len: "length (pf_metrics zp) = 11" using assms(1) by (simp add: follows_def meter_ok_def)
  then have "r = Inr (Some (zp\<lparr>pf_metrics := note_event F e (pf_metrics zp)\<rparr>), snd m1)"
    using assms(2) Some by (auto simp: metric_event_run_effect note_event_def)
  then show ?thesis using assms(1) Some len by (cases "fst m") (auto simp: follows_def meter_ok_def note_event_def)
qed

lemma meter_update_follows:
  "follows (pe_ops E) es m m1 \<Longrightarrow>
   \<exists>m2. meter_update E tag v m1 = Inr m2 \<and> follows (pe_ops E) (es @ [Update_Metric tag v]) m m2"
  by (erule event_follows) (simp add: meter_update_def)

lemma meter_set_follows:
  "follows (pe_ops E) es m m1 \<Longrightarrow>
   \<exists>m2. meter_set E tag v m1 = Inr m2 \<and> follows (pe_ops E) (es @ [Set_Metric tag v]) m m2"
  by (erule event_follows) (simp add: meter_set_def)

text \<open>
  \<open>rp\<close> is the result \<open>r\<close> with a meter that follows \<open>m\<close>; \<open>Q\<close> says which events a result comes with. The
  rules go through a function and its measured version at the same time.
\<close>

definition tracks :: "'f double_ops \<Rightarrow> 'f meter \<Rightarrow> ('f metric_event list \<Rightarrow> 'a \<Rightarrow> 'b \<Rightarrow> 'c \<Rightarrow> bool) \<Rightarrow> ('a \<times> 'b \<times> 'c) res \<Rightarrow>
    ('a \<times> 'b \<times> 'c \<times> 'f meter) res \<Rightarrow> bool" where
  "tracks F m Q r rp \<longleftrightarrow> (case r of Inl e \<Rightarrow> rp = Inl e
     | Inr (a, b, c) \<Rightarrow> \<exists>es m'. rp = Inr (a, b, c, m') \<and> follows F es m m' \<and> Q es a b c)"

lemma tracks_error: "tracks F m Q (Inl e) (Inl e)"
  by (simp add: tracks_def)

lemma tracks_return: "follows F es m m' \<Longrightarrow> Q es a b c \<Longrightarrow> tracks F m Q (Inr (a, b, c)) (Inr (a, b, c, m'))"
  by (auto simp: tracks_def)

lemma tracks_bind:
  "(\<And>x. g = Inr x \<Longrightarrow> tracks F m Q (f x) (fp x)) \<Longrightarrow> tracks F m Q (bind_res g f) (bind_res g fp)"
  by (cases g) (auto simp: tracks_def)

lemma tracks_update:
  assumes "follows (pe_ops E) es m m1"
    and "\<And>m2. follows (pe_ops E) (es @ [Update_Metric tag v]) m m2 \<Longrightarrow> tracks (pe_ops E) m Q r (fp m2)"
  shows "tracks (pe_ops E) m Q r (bind_res (meter_update E tag v m1) fp)"
  using meter_update_follows [OF assms(1), of tag v] assms(2) by auto

lemma tracks_set:
  assumes "follows (pe_ops E) es m m1"
    and "\<And>m2. follows (pe_ops E) (es @ [Set_Metric tag v]) m m2 \<Longrightarrow> tracks (pe_ops E) m Q r (fp m2)"
  shows "tracks (pe_ops E) m Q r (bind_res (meter_set E tag v m1) fp)"
  using meter_set_follows [OF assms(1), of tag v] assms(2) by auto

lemma tracks_call:
  assumes "follows F es m m1" and "tracks F m1 Q' g gp"
    and "\<And>a b c es' m2. follows F (es @ es') m m2 \<Longrightarrow> Q' es' a b c \<Longrightarrow> g = Inr (a, b, c) \<Longrightarrow> tracks F m Q (f a b c) (fp a b c m2)"
  shows "tracks F m Q (bind_res g (\<lambda>(a, b, c). f a b c)) (bind_res gp (\<lambda>(a, b, c, m2). fp a b c m2))"
proof (cases g)
  case (Inl e)
  then show ?thesis using assms(2) by (simp add: tracks_def)
next
  case (Inr x)
  then obtain a b c es' m2 where x: "x = (a, b, c)" "gp = Inr (a, b, c, m2)" "follows F es' m1 m2" "Q' es' a b c"
    using assms(2) by (auto simp: tracks_def)
  then show ?thesis using assms(3) [OF follows_trans [OF assms(1) x(3)] x(4)] Inr by simp
qed

lemma tracks_then:
  assumes "follows F es m m1" and "tracks F m1 Q' r rp" and "\<And>es' a b c. Q' es' a b c \<Longrightarrow> Q (es @ es') a b c"
  shows "tracks F m Q r rp"
  using assms(2,3) follows_trans [OF assms(1)] by (cases r) (fastforce simp: tracks_def)+

lemma tracks_option:
  "(x = None \<Longrightarrow> tracks F m Q r rp) \<Longrightarrow> (\<And>y. x = Some y \<Longrightarrow> tracks F m Q (f y) (fp y)) \<Longrightarrow>
   tracks F m Q (case x of None \<Rightarrow> r | Some y \<Rightarrow> f y) (case x of None \<Rightarrow> rp | Some y \<Rightarrow> fp y)"
  by (cases x) auto

lemma tracks_if:
  "(P \<Longrightarrow> tracks F m Q r rp) \<Longrightarrow> (\<not> P \<Longrightarrow> tracks F m Q r' rp') \<Longrightarrow> tracks F m Q (if P then r else r') (if P then rp else rp')"
  by simp

lemma tracks_assert: "tracks F m Q r rp \<Longrightarrow> tracks F m Q (c_assert nd P r) (c_assert nd P rp)"
  by (auto simp: c_assert_def tracks_error)

lemma tracks_transparent: "tracks F m Q r rp \<Longrightarrow> bind_res rp (\<lambda>(a, b, c, m'). Inr (a, b, c)) = r"
  by (cases r) (auto simp: tracks_def)

section \<open>Measuring changes nothing\<close>

lemmas follows_intros = follows_refl follows_time follows_printf

definition read_events :: "'f double_ops \<Rightarrow> zn_cache \<Rightarrow> 'f metric_event list \<Rightarrow> bool" where
  "read_events F c es \<longleftrightarrow> (\<exists>t t'. es = [Update_Metric ZN_PROFILER_METRIC_READ_LATENCY t, Update_Metric ZN_PROFILER_METRIC_HIT_LATENCY t',
     Update_Metric ZN_PROFILER_METRIC_CACHE_HIT_THROUGHPUT (d_of_int F (uint (zc_chunk_sz c)))])"

definition write_events :: "'f double_ops \<Rightarrow> zn_cache \<Rightarrow> 'f metric_event list \<Rightarrow> bool" where
  "write_events F c es \<longleftrightarrow> (\<exists>t t'. es = [Update_Metric ZN_PROFILER_METRIC_WRITE_LATENCY t, Update_Metric ZN_PROFILER_METRIC_MISS_LATENCY t',
     Update_Metric ZN_PROFILER_METRIC_CACHE_MISS_THROUGHPUT (d_of_int F (uint (zc_chunk_sz c)))])"

lemma get_location_tracks:
  "meter_ok m \<Longrightarrow> tracks F m (\<lambda>es _ _ _. es = []) (get_location cfg ops fuel c d) (get_location_profiled E self cfg ops fuel c d m)"
proof (induction fuel arbitrary: c d m)
  case (Suc fuel)
  show ?case
    unfolding get_location.simps get_location_profiled.simps Let_def
  proof (intro tracks_bind, clarify)
    fix ret cell zs d1
    let ?c = "c\<lparr>zc_zone_state := zs\<rparr>"
    have "tracks F m (\<lambda>es _ _ _. es = []) (bind_res (zn_fg_evict cfg ops ?c d1) (\<lambda>(c2, d2). get_location cfg ops fuel c2 d2))
       (bind_res (zn_fg_evict_profiled E self cfg ops ?c d1 m) (\<lambda>(c2, d2, m2). get_location_profiled E self cfg ops fuel c2 d2 m2))"
      unfolding zn_fg_evict_profiled_def bind_res_assoc Let_def
    proof (intro tracks_bind, clarify)
      fix c2 d2
      let ?m = "ZN_PROFILER_PRINTF E ''EVICTIONEND_EVERY'' (Show_Pointer self)
        (ZN_PROFILER_PRINTF E ''EVICTIONBEGIN_EVERY'' (Show_Pointer self) m)"
      have f: "follows F [] m ?m" by (intro follows_intros Suc.prems)
      then have "tracks F ?m (\<lambda>es _ _ _. es = []) (get_location cfg ops fuel c2 d2) (get_location_profiled E self cfg ops fuel c2 d2 ?m)"
        by (intro Suc.IH) (simp add: follows_def)
      from tracks_then [OF f this] show "tracks F m (\<lambda>es _ _ _. es = []) (get_location cfg ops fuel c2 d2)
        (bind_res (Inr (c2, d2, ?m)) (\<lambda>(c2, d2, m2). get_location_profiled E self cfg ops fuel c2 d2 m2))" by simp
    qed
    then show "tracks F m (\<lambda>es _ _ _. es = [])
        (case ret of ZSM_GET_ACTIVE_ZONE_RETRY \<Rightarrow> Inl Blocked | ZSM_GET_ACTIVE_ZONE_ERROR \<Rightarrow> Inr (None, ?c, d1)
         | ZSM_GET_ACTIVE_ZONE_EVICT \<Rightarrow> bind_res (zn_fg_evict cfg ops ?c d1) (\<lambda>(c2, d2). get_location cfg ops fuel c2 d2)
         | ZSM_GET_ACTIVE_ZONE_SUCCESS \<Rightarrow> bind_res (read_cell cell) (\<lambda>q. Inr (Some q, ?c, d1)))
        (case ret of ZSM_GET_ACTIVE_ZONE_RETRY \<Rightarrow> Inl Blocked | ZSM_GET_ACTIVE_ZONE_ERROR \<Rightarrow> Inr (None, ?c, d1, m)
         | ZSM_GET_ACTIVE_ZONE_EVICT \<Rightarrow> bind_res (zn_fg_evict_profiled E self cfg ops ?c d1 m)
             (\<lambda>(c2, d2, m2). get_location_profiled E self cfg ops fuel c2 d2 m2)
         | ZSM_GET_ACTIVE_ZONE_SUCCESS \<Rightarrow> bind_res (read_cell cell) (\<lambda>q. Inr (Some q, ?c, d1, m)))"
      using follows_refl [OF Suc.prems]
      by (cases ret) (auto intro: tracks_bind tracks_error tracks_return)
  qed
qed (simp add: tracks_error)

lemma cache_get_hit_tracks:
  assumes "meter_ok m"
  shows "tracks (pe_ops E) m (\<lambda>es _ c' _. read_events (pe_ops E) c' es) (cache_get_hit nd ops q c d)
    (cache_get_hit_profiled E nd ops ts q c d m)"
  unfolding cache_get_hit_def cache_get_hit_profiled_def Let_def case_prod_unfold
  by (assumption | rule tracks_bind tracks_update tracks_return follows_intros assms | (auto simp: read_events_def; fail))+

text \<open>A miss that gives no data has measured the write at most.\<close>

lemma cache_get_miss_tracks:
  assumes "meter_ok m"
  shows "tracks (pe_ops E) m (\<lambda>es r c' _. (r \<noteq> None \<longrightarrow> write_events (pe_ops E) c' es) \<and>
      (r = None \<longrightarrow> es = [] \<or> (\<exists>t. es = [Update_Metric ZN_PROFILER_METRIC_WRITE_LATENCY t])))
    (cache_get_miss cfg ops fuel i buf c d) (cache_get_miss_profiled E self cfg ops fuel ts i buf c d m)"
  unfolding cache_get_miss_def cache_get_miss_profiled_def Let_def
  by (rule tracks_call [OF follows_refl [OF assms] get_location_tracks [OF assms]], unfold case_prod_unfold,
    (assumption | rule tracks_option tracks_if tracks_bind tracks_update tracks_return follows_intros | (auto simp: write_events_def; fail))+)

definition get_events :: "'f double_ops \<Rightarrow> u32 \<Rightarrow> zn_cache \<Rightarrow> u8 list option \<Rightarrow> zn_cache \<Rightarrow> 'f metric_event list \<Rightarrow> bool" where
  "get_events F i c r c' es \<longleftrightarrow>
     (case zn_cachemap_find i (zc_cache_map c) of
        Inr (x, _) \<Rightarrow>
          if zr_type x = RESULT_LOC then read_events F c' es
          else (r \<noteq> None \<longrightarrow> write_events F c' es) \<and>
            (r = None \<longrightarrow> es = [] \<or> (\<exists>t. es = [Update_Metric ZN_PROFILER_METRIC_WRITE_LATENCY t]))
      | Inl _ \<Rightarrow> False)"

lemma zn_cache_get_tracks:
  assumes "meter_ok m"
  shows "tracks (pe_ops E) m (\<lambda>es r c' _. get_events (pe_ops E) i c r c' es) (zn_cache_get cfg ops fuel i buf c d)
    (zn_cache_get_profiled E self cfg ops fuel i buf c d m)"
proof -
  let ?m = "snd (TIME_NOW E m)"
  have f: "follows (pe_ops E) [] m ?m" and ok: "meter_ok ?m" using follows_time [OF follows_refl [OF assms]] by (auto simp: follows_def)
  show ?thesis
    unfolding zn_cache_get_def zn_cache_get_profiled_def Let_def case_prod_unfold
    by (intro tracks_bind tracks_assert tracks_if)
      (rule tracks_then [OF f cache_get_hit_tracks [OF ok]], simp add: get_events_def case_prod_unfold,
       rule tracks_then [OF f cache_get_miss_tracks [OF ok]], simp add: get_events_def case_prod_unfold)
qed

definition served_events :: "'f double_ops \<Rightarrow> zn_cache \<Rightarrow> 'f metric_event list \<Rightarrow> bool" where
  "served_events F c es \<longleftrightarrow> (\<exists>t. es = [Update_Metric ZN_PROFILER_METRIC_GET_LATENCY t,
     Update_Metric ZN_PROFILER_METRIC_CACHE_THROUGHPUT (d_of_int F (uint (zc_chunk_sz c))),
     Set_Metric ZN_PROFILER_METRIC_CACHE_USED_MIB (BYTES_TO_MIB F (zn_evict_policy_get_cache_size c)),
     Set_Metric ZN_PROFILER_METRIC_CACHE_FREE_ZONES (d_of_int F (uint (zsm_get_num_free_zones (zc_zone_state c)))),
     Set_Metric ZN_PROFILER_METRIC_CACHE_HITRATIO (hit_ratio_double F c)])"

definition step_events :: "'f double_ops \<Rightarrow> zn_cache \<Rightarrow> task_outcome \<Rightarrow> zn_cache \<Rightarrow> 'f metric_event list \<Rightarrow> bool" where
  "step_events F c out c' es \<longleftrightarrow>
     (case claim_request (zc_reader c) of
        (None, r) \<Rightarrow> out = Task_Finished \<and> es = []
      | (Some (wi, _), r) \<Rightarrow>
          out \<noteq> Task_Finished \<and>
          (\<exists>es1 es2 x. get_events F (rd_workload_buffer r ! unat wi) (c\<lparr>zc_reader := r\<rparr>) x c' es1 \<and> es = es1 @ es2 \<and>
             (if out = Task_Served then x \<noteq> None \<and> served_events F c' es2 else x = None \<and> es2 = [])))"

lemma task_step_tracks:
  assumes "meter_ok m"
  shows "tracks (pe_ops E) m (\<lambda>es out c' _. step_events (pe_ops E) c out c' es) (task_step cfg verify ops fuel buf c d)
    (task_step_profiled E self tid cfg verify ops fuel buf c d m)"
proof (cases "claim_request (zc_reader c)")
  case (Pair x r)
  have f: "follows (pe_ops E) [] m (snd (TIME_NOW E m))" by (rule follows_time [OF follows_refl [OF assms]])
  then have ok: "meter_ok (snd (TIME_NOW E m))" by (simp add: follows_def)
  show ?thesis
  proof (cases x)
    case None
    then show ?thesis using follows_refl [OF assms]
      by (auto simp: task_step_def task_step_profiled_def Pair step_events_def intro!: tracks_return)
  next
    case (Some w)
    obtain wi pc pr where w: "w = (wi, pc, pr)" by (cases w)
    have idx: "arr_get (rd_workload_buffer r) (unat wi) = Inr i \<Longrightarrow> rd_workload_buffer r ! unat wi = i" for i
      by (simp add: arr_get_eq_Inr)
    show ?thesis
      unfolding task_step_def task_step_profiled_def Pair Some w prod.case option.case Let_def case_prod_beta [of _ "TIME_NOW E m"]
      by (rule tracks_bind, rule tracks_call [OF f zn_cache_get_tracks [OF ok]], unfold case_prod_unfold task_metrics_def Let_def bind_res_assoc bind_res_Inr,
        (assumption | rule tracks_option tracks_if tracks_bind tracks_assert tracks_update tracks_set tracks_return follows_intros
          | (use Pair Some w idx in \<open>auto simp: step_events_def served_events_def\<close>; fail))+)
  qed
qed

lemma task_loop_tracks:
  "meter_ok m \<Longrightarrow> tracks (pe_ops E) m (\<lambda>_ _ _ _. True) (task_loop cfg verify ops fuel buf n c d)
    (task_loop_profiled E self tid cfg verify ops fuel buf n c d m)"
proof (induction n arbitrary: c d m)
  case (Suc n)
  show ?case
    unfolding task_loop.simps task_loop_profiled.simps
  proof (rule tracks_call [OF follows_refl [OF Suc.prems] task_step_tracks [OF Suc.prems]])
    fix out c1 d1 es m1
    assume f: "follows (pe_ops E) ([] @ es) m m1"
    then have "tracks (pe_ops E) m (\<lambda>_ _ _ _. True) (task_loop cfg verify ops fuel buf n c1 d1)
      (task_loop_profiled E self tid cfg verify ops fuel buf n c1 d1 m1)"
      by (intro tracks_then [OF f Suc.IH]) (simp_all add: follows_def)
    then show "tracks (pe_ops E) m (\<lambda>_ _ _ _. True)
        (case out of Task_Finished \<Rightarrow> Inr (True, c1, d1) | Task_Failed \<Rightarrow> Inr (False, c1, d1)
         | Task_Served \<Rightarrow> task_loop cfg verify ops fuel buf n c1 d1)
        (case out of Task_Finished \<Rightarrow> Inr (True, c1, d1, m1) | Task_Failed \<Rightarrow> Inr (False, c1, d1, m1)
         | Task_Served \<Rightarrow> task_loop_profiled E self tid cfg verify ops fuel buf n c1 d1 m1)"
      using f by (cases out) (auto intro: tracks_return)
  qed
qed (simp add: tracks_error)

text \<open>C12. Measuring does not change what the program does: without its meter, a worker's run with a
  profiler of the right size, or with none, is its run without the profiler, errors included.\<close>

theorem measuring_is_transparent:
  assumes "\<forall>zp. fst m = Some zp \<longrightarrow> length (pf_metrics zp) = PROFILING_METRICS"
  shows "bind_res (task_function_profiled E self tid cfg verify ops fuel buf n td c d m) (\<lambda>(td', c', d', m'). Inr (td', c', d')) =
    task_function cfg verify ops fuel buf n td c d"
proof -
  have "meter_ok m" using assms by (simp add: meter_ok_def PROFILING_METRICS_def)
  from tracks_transparent [OF task_loop_tracks [OF this, of E cfg verify ops fuel buf n c d self tid], symmetric]
  show ?thesis unfolding task_function_def task_function_profiled_def bind_res_assoc
    by (cases "task_loop_profiled E self tid cfg verify ops fuel buf n c d m") (simp_all add: case_prod_unfold)
qed

section \<open>What the metrics of a run say\<close>

lemma get_events_cached:
  assumes "cache_ready ops content buf c d" and "get_events F i c r c' es"
  shows "if cached c i then read_events F c' es else r \<noteq> None \<longrightarrow> write_events F c' es"
proof -
  obtain p where "cache_inv ops content buf {} None p c d" using assms(1) by (auto simp: cache_ready_def)
  note I = cache_invD [OF this]
  show ?thesis
  proof (cases "cached c i")
    case True
    then show ?thesis using assms(2) find_located_run [OF I(3)] by (fastforce simp: cached_def get_events_def)
  next
    case False
    have "cm_slot (zc_cache_map c) i = Absent" using False I(4) [of i] by (cases "cm_slot (zc_cache_map c) i") (auto simp: cached_def)
    then show ?thesis using assms(2) find_absent_run [OF I(3)] False by (fastforce simp: get_events_def)
  qed
qed

lemma served_step:
  assumes dev: "device_ok ops content" and rdy: "cache_ready ops content buf c d"
    and low: "0 < EVICT_LOW_THRESH_ZONES cfg" and wl: "workload_ok (zc_reader c)" and fuel: "2 \<le> fuel"
    and rel: "io_reliable ops" and al: "aligned c"
    and lt: "rd_workload_index (zc_reader c) < rd_workload_max (zc_reader c)" and m: "meter_ok m"
  shows "\<exists>es es' c1 d1 m1. task_step_profiled E self tid cfg verify ops fuel buf c d m = Inr (Task_Served, c1, d1, m1) \<and>
    follows (pe_ops E) (es @ es') m m1 \<and> cache_ready ops content buf c1 d1 \<and> workload_ok (zc_reader c1) \<and> aligned c1 \<and>
    zc_chunk_sz c1 = zc_chunk_sz c \<and> rd_workload_max (zc_reader c1) = rd_workload_max (zc_reader c) \<and>
    rd_workload_index (zc_reader c1) = rd_workload_index (zc_reader c) + 1 \<and> served_events (pe_ops E) c1 es' \<and>
    (zc_ratio c1 = (zc_ratio c)\<lparr>hr_hits := hr_hits (zc_ratio c) + 1\<rparr> \<and> read_events (pe_ops E) c1 es \<or>
     zc_ratio c1 = (zc_ratio c)\<lparr>hr_misses := hr_misses (zc_ratio c) + 1\<rparr> \<and> write_events (pe_ops E) c1 es)"
proof -
  obtain out c1 d1 where o: "task_step cfg verify ops fuel buf c d = Inr (out, c1, d1)" "cache_ready ops content buf c1 d1"
    "workload_ok (zc_reader c1)" "aligned c1 = aligned c" "rd_workload_max (zc_reader c1) = rd_workload_max (zc_reader c)"
    "out \<noteq> Task_Finished" "rd_workload_index (zc_reader c1) = rd_workload_index (zc_reader c) + 1"
    "out = Task_Failed \<longrightarrow> \<not> (io_reliable ops \<and> aligned c)"
    using task_step_ok [OF dev rdy low wl fuel, of verify] lt by auto
  have out: "out = Task_Served" using o(6,8) rel al by (cases out) auto
  obtain es m1 where p: "task_step_profiled E self tid cfg verify ops fuel buf c d m = Inr (Task_Served, c1, d1, m1)"
    "follows (pe_ops E) es m m1" "step_events (pe_ops E) c Task_Served c1 es"
    using task_step_tracks [OF m, of E c cfg verify ops fuel buf d self tid] o(1) out by (auto simp: tracks_def)
  obtain x r where cl: "claim_request (zc_reader c) = (x, r)" by fastforce
  note R = claim_request_reader [OF cl]
  obtain pc pr where x: "x = Some (rd_workload_index (zc_reader c), pc, pr)" using R(4) [OF lt] by auto
  define i where "i = rd_workload_buffer r ! unat (rd_workload_index (zc_reader c))"
  let ?c = "c\<lparr>zc_reader := r\<rparr>"
  have len: "unat (rd_workload_index (zc_reader c)) < length (rd_workload_buffer r)"
    using lt wl R(2) by (simp add: workload_ok_def word_less_nat_alt)
  then have i: "id_ok i" "arr_get (rd_workload_buffer r) (unat (rd_workload_index (zc_reader c))) = Inr i"
    using wl R(2) by (simp_all add: workload_ok_def i_def arr_get_def)
  obtain res c2 d2 where g: "zn_cache_get cfg ops fuel i buf ?c d = Inr (res, c2, d2)" "zc_static c2 = zc_static ?c"
    "cached ?c i \<longrightarrow> zc_ratio c2 = (zc_ratio ?c)\<lparr>hr_hits := hr_hits (zc_ratio ?c) + 1\<rparr>"
    "\<not> cached ?c i \<longrightarrow> zc_ratio c2 = (if res = None then zc_ratio ?c else (zc_ratio ?c)\<lparr>hr_misses := hr_misses (zc_ratio ?c) + 1\<rparr>)"
    using zn_cache_get_ok [OF dev, of buf ?c d cfg i "fuel - 2"] rdy low i(1) unfolding fuel_two [OF fuel] by auto
  have c2: "c2 = c1" "res \<noteq> None"
    using o(1) out cl x i(2) g(1) by (auto simp: task_step_def bind_res_eq_Inr c_assert_eq_Inr split: option.splits if_splits)
  obtain es1 es2 y where e: "get_events (pe_ops E) i ?c y c1 es1" "es = es1 @ es2" "y \<noteq> None" "served_events (pe_ops E) c1 es2"
    using p(3) cl x by (auto simp: step_events_def i_def)
  have "cache_ready ops content buf ?c d" using rdy by simp
  note ev = get_events_cached [OF this e(1)]
  have "zc_ratio c1 = (zc_ratio c)\<lparr>hr_hits := hr_hits (zc_ratio c) + 1\<rparr> \<and> read_events (pe_ops E) c1 es1 \<or>
     zc_ratio c1 = (zc_ratio c)\<lparr>hr_misses := hr_misses (zc_ratio c) + 1\<rparr> \<and> write_events (pe_ops E) c1 es1"
    using ev g(3,4) c2 e(3) by (cases "cached ?c i") simp_all
  moreover have "zc_chunk_sz c1 = zc_chunk_sz c" using g(2) unfolding c2(1) by (simp add: zc_static_def)
  ultimately show ?thesis using p(1,2) o(2-5,7) al e(2,4) by blast
qed

text \<open>The value after \<open>n\<close> updates by \<open>s\<close>.\<close>

primrec added :: "'f double_ops \<Rightarrow> 'f \<Rightarrow> nat \<Rightarrow> 'f \<Rightarrow> 'f" where
  "added F s 0 v = v"
| "added F s (Suc n) v = added F s n (d_add F v s)"

lemma added_add: "added F s n (added F s m v) = added F s (m + n) v"
  by (induction m arbitrary: v) simp_all

text \<open>
  The history of an interval with \<open>h\<close> hits and \<open>k\<close> misses on chunks of \<open>s\<close> bytes, after which the cache is \<open>c\<close>.
\<close>

definition run_history :: "'f double_ops \<Rightarrow> 'f \<Rightarrow> nat \<Rightarrow> nat \<Rightarrow> zn_cache \<Rightarrow> 'f metric_event list \<Rightarrow> bool" where
  "run_history F s h k c es \<longleftrightarrow> (h + k = 0 \<longrightarrow> es = []) \<and>
     history_count (tag_value ZN_PROFILER_METRIC_READ_LATENCY) es = h \<and>
     history_count (tag_value ZN_PROFILER_METRIC_HIT_LATENCY) es = h \<and>
     history_count (tag_value ZN_PROFILER_METRIC_WRITE_LATENCY) es = k \<and>
     history_count (tag_value ZN_PROFILER_METRIC_MISS_LATENCY) es = k \<and>
     history_count (tag_value ZN_PROFILER_METRIC_GET_LATENCY) es = h + k \<and>
     (\<forall>v. history_value F (tag_value ZN_PROFILER_METRIC_CACHE_HIT_THROUGHPUT) es v = added F s h v) \<and>
     (\<forall>v. history_value F (tag_value ZN_PROFILER_METRIC_CACHE_MISS_THROUGHPUT) es v = added F s k v) \<and>
     (\<forall>v. history_value F (tag_value ZN_PROFILER_METRIC_CACHE_THROUGHPUT) es v = added F s (h + k) v) \<and>
     (0 < h + k \<longrightarrow> (\<forall>v.
        history_value F (tag_value ZN_PROFILER_METRIC_CACHE_USED_MIB) es v = BYTES_TO_MIB F (zn_evict_policy_get_cache_size c) \<and>
        history_value F (tag_value ZN_PROFILER_METRIC_CACHE_FREE_ZONES) es v = d_of_int F (uint (zsm_get_num_free_zones (zc_zone_state c))) \<and>
        history_value F (tag_value ZN_PROFILER_METRIC_CACHE_HITRATIO) es v = hit_ratio_double F c))"

lemma history_append:
  "history_value F i (es @ es') v = history_value F i es' (history_value F i es v)"
  "history_count i (es @ es') = history_count i es + history_count i es'"
  by (simp_all add: history_value_def history_count_def)

lemma history_note:
  "history_value F i [] v = v" "history_count i [] = 0"
  "history_value F i (e # es) v = history_value F i es (case e of
     Update_Metric tag x \<Rightarrow> if tag_value tag = i then d_add F v x else v | Set_Metric tag x \<Rightarrow> if tag_value tag = i then x else v)"
  "history_count i (e # es) = (case e of Update_Metric tag x \<Rightarrow> if tag_value tag = i then 1 else 0 | _ \<Rightarrow> 0) + history_count i es"
  by (simp_all add: history_value_def history_count_def split: metric_event.splits)

lemma run_history_start: "run_history F s 0 0 c []"
  by (simp add: run_history_def history_value_def history_count_def)

lemma run_history_request:
  assumes "served_events F c es'"
  shows "read_events F c es \<Longrightarrow> run_history F (d_of_int F (uint (zc_chunk_sz c))) 1 0 c (es @ es')"
    and "write_events F c es \<Longrightarrow> run_history F (d_of_int F (uint (zc_chunk_sz c))) 0 1 c (es @ es')"
  using assms by (auto simp: run_history_def history_note read_events_def write_events_def served_events_def)

text \<open>What the metrics show of a cache does not depend on its reader.\<close>

lemma shown_reader [simp]:
  "zn_evict_policy_get_cache_size (c\<lparr>zc_reader := r\<rparr>) = zn_evict_policy_get_cache_size c"
  "hit_ratio_double F (c\<lparr>zc_reader := r\<rparr>) = hit_ratio_double F c"
  by (simp_all add: zn_evict_policy_get_cache_size_def hit_ratio_double_def split: zn_evict_policy.split)

lemma run_history_append:
  assumes "run_history F s h k c1 es" and "run_history F s h' k' c2 es'" and "h' + k' = 0 \<longrightarrow> (\<exists>r. c2 = c1\<lparr>zc_reader := r\<rparr>)"
  shows "run_history F s (h + h') (k + k') c2 (es @ es')"
proof (cases "h' + k' = 0")
  case True
  then obtain r where "c2 = c1\<lparr>zc_reader := r\<rparr>" using assms(3) by blast
  moreover have "h' = 0" "k' = 0" "es' = []" using True assms(2) by (simp_all add: run_history_def)
  ultimately show ?thesis using assms(1) by (simp add: run_history_def)
next
  case False
  then have "0 < h' + k'" "0 < h + h' + (k + k')" by auto
  then show ?thesis using assms(1,2) unfolding run_history_def history_append
    by (simp add: added_add add.assoc add.left_commute [of h' k])
qed

lemma measured_loop:
  assumes dev: "device_ok ops content" and low: "0 < EVICT_LOW_THRESH_ZONES cfg" and fuel: "2 \<le> fuel"
    and rel: "io_reliable ops"
  shows "cache_ready ops content buf c d \<Longrightarrow> workload_ok (zc_reader c) \<Longrightarrow> aligned c \<Longrightarrow> meter_ok m \<Longrightarrow>
    unat (rd_workload_max (zc_reader c)) - unat (rd_workload_index (zc_reader c)) < n \<Longrightarrow>
    \<exists>es h k c' d' m'. task_loop_profiled E self tid cfg verify ops fuel buf n c d m = Inr (True, c', d', m') \<and>
      follows (pe_ops E) es m m' \<and> run_history (pe_ops E) (d_of_int (pe_ops E) (uint (zc_chunk_sz c))) h k c' es \<and>
      h + k = unat (rd_workload_max (zc_reader c)) - unat (rd_workload_index (zc_reader c)) \<and>
      hr_hits (zc_ratio c') = hr_hits (zc_ratio c) + of_nat h \<and> hr_misses (zc_ratio c') = hr_misses (zc_ratio c) + of_nat k \<and>
      (h + k = 0 \<longrightarrow> (\<exists>r. c' = c\<lparr>zc_reader := r\<rparr>))"
proof (induction n arbitrary: c d m)
  case (Suc n)
  let ?i = "rd_workload_index (zc_reader c)" and ?m = "rd_workload_max (zc_reader c)"
  let ?s = "d_of_int (pe_ops E) (uint (zc_chunk_sz c))"
  show ?case
  proof (cases "?i < ?m")
    case False
    then have le: "?m \<le> ?i" and none: "unat ?m - unat ?i = 0" by (simp_all add: not_less word_le_nat_alt)
    obtain x r where cl: "claim_request (zc_reader c) = (x, r)" by fastforce
    have "task_loop_profiled E self tid cfg verify ops fuel buf (Suc n) c d m = Inr (True, c\<lparr>zc_reader := r\<rparr>, d, m)"
      using claim_request_reader(3) [OF cl le] cl by (simp add: task_step_profiled_def)
    then show ?thesis using none follows_refl [OF Suc.prems(4), of "pe_ops E"] run_history_start [of "pe_ops E" ?s]
      by (intro exI [of _ "[]"] exI [of _ 0] exI [of _ "c\<lparr>zc_reader := r\<rparr>"]) auto
  next
    case True
    obtain es es' c1 d1 m1 where s: "task_step_profiled E self tid cfg verify ops fuel buf c d m = Inr (Task_Served, c1, d1, m1)"
      "follows (pe_ops E) (es @ es') m m1" "cache_ready ops content buf c1 d1" "workload_ok (zc_reader c1)" "aligned c1"
      "zc_chunk_sz c1 = zc_chunk_sz c" "rd_workload_max (zc_reader c1) = ?m" "rd_workload_index (zc_reader c1) = ?i + 1"
      "served_events (pe_ops E) c1 es'"
      "zc_ratio c1 = (zc_ratio c)\<lparr>hr_hits := hr_hits (zc_ratio c) + 1\<rparr> \<and> read_events (pe_ops E) c1 es \<or>
       zc_ratio c1 = (zc_ratio c)\<lparr>hr_misses := hr_misses (zc_ratio c) + 1\<rparr> \<and> write_events (pe_ops E) c1 es"
      using served_step [OF dev Suc.prems(1) low Suc.prems(2) fuel rel Suc.prems(3) True Suc.prems(4)] by blast
    have rest: "unat ?m - unat ?i = Suc (unat ?m - unat (?i + 1))"
      using unat_inc_less [OF True] True by (simp add: word_less_nat_alt)
    have ok: "meter_ok m1" and less: "unat ?m - unat (?i + 1) < n" using s(2) Suc.prems(5) rest by (simp_all add: follows_def)
    obtain es2 h k c' d' m' where l: "task_loop_profiled E self tid cfg verify ops fuel buf n c1 d1 m1 = Inr (True, c', d', m')"
      "follows (pe_ops E) es2 m1 m'" "run_history (pe_ops E) ?s h k c' es2" "h + k = unat ?m - unat (?i + 1)"
      "hr_hits (zc_ratio c') = hr_hits (zc_ratio c1) + of_nat h" "hr_misses (zc_ratio c') = hr_misses (zc_ratio c1) + of_nat k"
      "h + k = 0 \<longrightarrow> (\<exists>r. c' = c1\<lparr>zc_reader := r\<rparr>)"
      using Suc.IH [OF s(3-5) ok, unfolded s(6-8), OF less] by blast
    obtain h1 k1 where hk: "run_history (pe_ops E) ?s h1 k1 c1 (es @ es')" "h1 + k1 = 1"
      "hr_hits (zc_ratio c1) = hr_hits (zc_ratio c) + of_nat h1" "hr_misses (zc_ratio c1) = hr_misses (zc_ratio c) + of_nat k1"
      by (rule disjE [OF s(10)])
        (use that [of 1 0] that [of 0 1] run_history_request [OF s(9), of es, unfolded s(6)] in auto)
    have "task_loop_profiled E self tid cfg verify ops fuel buf (Suc n) c d m = Inr (True, c', d', m')" using s(1) l(1) by simp
    moreover have "follows (pe_ops E) ((es @ es') @ es2) m m'" by (rule follows_trans [OF s(2) l(2)])
    moreover have "run_history (pe_ops E) ?s (h1 + h) (k1 + k) c' ((es @ es') @ es2)" by (rule run_history_append [OF hk(1) l(3,7)])
    moreover have "(h1 + h) + (k1 + k) = unat ?m - unat ?i" "(h1 + h) + (k1 + k) \<noteq> 0" using l(4) hk(2) rest by linarith+
    moreover have "hr_hits (zc_ratio c') = hr_hits (zc_ratio c) + of_nat (h1 + h)"
      "hr_misses (zc_ratio c') = hr_misses (zc_ratio c) + of_nat (k1 + k)" using l(5,6) hk(3,4) by simp_all
    ultimately show ?thesis by blast
  qed
qed simp

lemma note_events_run:
  "length (pf_metrics zp) = 11 \<Longrightarrow>
   metric_events_run F es (Some zp) = Inr (Some (zp\<lparr>pf_metrics := fold (note_event F) es (pf_metrics zp)\<rparr>))"
proof (induction es arbitrary: zp)
  case (Cons e es)
  then show ?case using Cons.IH [of "zp\<lparr>pf_metrics := note_event F e (pf_metrics zp)\<rparr>"]
    by (simp add: metric_event_run_effect note_event_def)
qed simp

text \<open>The report of an interval that began with fresh metrics.\<close>

lemma meter_report:
  assumes "follows F es (Some zp, k) (Some zp', k')" and "pf_metrics zp = fresh_metrics F"
  shows "\<exists>zp''. zn_profiler_write_all_and_reset F interval clock zp' = Inr zp'' \<and>
    pf_lines zp'' = pf_lines zp' @ report_lines F interval (pf_started_ts zp) (es, clock)"
proof -
  have f: "pf_started_ts zp' = pf_started_ts zp" "pf_metrics zp' = fold (note_event F) es (fresh_metrics F)"
    using assms by (simp_all add: follows_def)
  let ?zp = "zp'\<lparr>pf_metrics := fresh_metrics F\<rparr>"
  have run: "metric_events_run F es (Some ?zp) = Inr (Some zp')" using note_events_run [of ?zp F es] f(2) by (cases zp') simp
  then show ?thesis using profiler_round [of ?zp F es interval clock] f(1) by auto
qed

text \<open>The value that a report shows for a metric.\<close>

fun reported :: "string \<Rightarrow> 'f metrics_line list \<Rightarrow> 'f option" where
  "reported label [] = None"
| "reported label (Metric_Line t n v # ls) = (if n = label then Some v else reported label ls)"
| "reported label (l # ls) = reported label ls"

lemma reported_lines:
  "k < 11 \<Longrightarrow> reported (zn_profiler_metric_names ! k) (report_lines F interval now (es, clock)) = Some (history_report F interval es k)"
  by (auto simp: report_lines_def zn_profiler_metric_names_def upt_rec [of 0] less_Suc_eq numeral_eq_Suc)

lemma reported_named:
  "reported ''CACHE_USED_MIB'' (report_lines F interval now (es, clock)) =
     Some (history_report F interval es (tag_value ZN_PROFILER_METRIC_CACHE_USED_MIB))"
  "reported ''HITRATIO'' (report_lines F interval now (es, clock)) =
     Some (history_report F interval es (tag_value ZN_PROFILER_METRIC_CACHE_HITRATIO))"
  "reported ''FREEZONES'' (report_lines F interval now (es, clock)) =
     Some (history_report F interval es (tag_value ZN_PROFILER_METRIC_CACHE_FREE_ZONES))"
  "reported ''CACHETHROUGHPUT'' (report_lines F interval now (es, clock)) =
     Some (history_report F interval es (tag_value ZN_PROFILER_METRIC_CACHE_THROUGHPUT))"
  "reported ''CACHEHITTHROUGHPUT'' (report_lines F interval now (es, clock)) =
     Some (history_report F interval es (tag_value ZN_PROFILER_METRIC_CACHE_HIT_THROUGHPUT))"
  "reported ''CACHEMISSTHROUGHPUT'' (report_lines F interval now (es, clock)) =
     Some (history_report F interval es (tag_value ZN_PROFILER_METRIC_CACHE_MISS_THROUGHPUT))"
  using reported_lines [of 1] reported_lines [of 2] reported_lines [of 5] reported_lines [of 8] reported_lines [of 9] reported_lines [of 10]
  by (simp_all add: zn_profiler_metric_names_def)

lemma exact_simps [simp]:
  "d_of_int exact_ops = of_int" "d_add exact_ops = (+)" "d_sub exact_ops = (-)" "d_mul exact_ops = (*)" "d_div exact_ops = (/)"
  by (simp_all add: exact_ops_def)

lemma added_exact: "added exact_ops s n v = v + of_nat n * s"
  by (induction n arbitrary: v) (simp_all add: algebra_simps)

lemma exact_reports:
  assumes "run_history exact_ops s h k c es" and "0 < h + k"
  shows "history_report exact_ops interval es (tag_value ZN_PROFILER_METRIC_CACHE_HIT_THROUGHPUT) = of_nat h * s / of_int interval"
    "history_report exact_ops interval es (tag_value ZN_PROFILER_METRIC_CACHE_MISS_THROUGHPUT) = of_nat k * s / of_int interval"
    "history_report exact_ops interval es (tag_value ZN_PROFILER_METRIC_CACHE_THROUGHPUT) = of_nat (h + k) * s / of_int interval"
    "history_report exact_ops interval es (tag_value ZN_PROFILER_METRIC_CACHE_HITRATIO) = hit_ratio_double exact_ops c"
    "history_report exact_ops interval es (tag_value ZN_PROFILER_METRIC_CACHE_FREE_ZONES) =
       of_int (uint (zsm_get_num_free_zones (zc_zone_state c)))"
    "history_report exact_ops interval es (tag_value ZN_PROFILER_METRIC_CACHE_USED_MIB) =
       of_int (uint (zn_evict_policy_get_cache_size c)) / (1024 * 1024)"
  using assms unfolding run_history_def
  by (auto simp: history_report_def Let_def zn_profiler_metric_types_def added_exact BYTES_TO_MIB_def)

text \<open>C13. The metrics say what the cache did. On a reliable device with aligned sizes, let a profiler be opened,
  the only worker serve the whole workload, and \<open>profiling_task\<close> report. In exact arithmetic the report then shows
  the hit ratio, the bytes per second delivered in all, from hits and from misses, the free zones and
  the used space, and the hits and misses in it are those the cache counted.\<close>

theorem metrics_describe_run:
  assumes "device_ok ops content" and "init_sizes_ok cfg info chunk_sz zone_cap buf"
    and "0 < EVICT_LOW_THRESH_ZONES cfg" and "2 \<le> fuel" and "io_reliable ops"
    and "unat wm \<le> length wb" and "\<forall>i \<in> set wb. id_ok i"
    and "zi_zone_size info mod 4096 = 0" and "chunk_sz mod 4096 = 0" and "MAX_IO cfg mod 4096 = 0"
    and "td_nr_threads_completed td + 1 = td_nr_threads td" and "unat wm < n" and "0 < wm" and "pe_ops E = exact_ops"
  shows "\<exists>c zp td' c' d' zp' k' zp'' report.
    zn_init_cache cfg garbage info chunk_sz zone_cap fd ZN_EVICT_PROMOTE_ZONE be wb wm = Inr c \<and>
    init_cache_profiler (NDEBUG cfg) exact_ops True True pgarbage now = Inr (Some zp) \<and>
    task_function_profiled E self tid cfg verify ops fuel buf n td c d (Some zp, k) = Inr (td', c', d', Some zp', k') \<and>
    td_loop_quit td' \<and>
    profiling_task exact_ops interval clock zp' = Inr (True, zp'') \<and> pf_lines zp'' = pf_lines zp' @ report \<and>
    unat (hr_hits (zc_ratio c')) + unat (hr_misses (zc_ratio c')) = unat wm \<and>
    reported ''HITRATIO'' report = Some (of_nat (unat (hr_hits (zc_ratio c'))) / of_nat (unat wm)) \<and>
    reported ''CACHETHROUGHPUT'' report = Some (of_nat (unat wm) * of_nat (unat chunk_sz) / of_int interval) \<and>
    reported ''CACHEHITTHROUGHPUT'' report =
      Some (of_nat (unat (hr_hits (zc_ratio c'))) * of_nat (unat chunk_sz) / of_int interval) \<and>
    reported ''CACHEMISSTHROUGHPUT'' report =
      Some (of_nat (unat (hr_misses (zc_ratio c'))) * of_nat (unat chunk_sz) / of_int interval) \<and>
    reported ''FREEZONES'' report = Some (of_nat (unat (zsm_get_num_free_zones (zc_zone_state c')))) \<and>
    reported ''CACHE_USED_MIB'' report = Some (of_nat (unat (zn_evict_policy_get_cache_size c')) / (1024 * 1024))"
proof -
  obtain c where c: "zn_init_cache cfg garbage info chunk_sz zone_cap fd ZN_EVICT_PROMOTE_ZONE be wb wm = Inr c"
    "cache_ready ops content buf c d" "zc_ratio c = \<lparr>hr_hits = 0, hr_misses = 0\<rparr>"
    "zc_chunk_sz c = chunk_sz" "zc_zone_size c = zi_zone_size info"
    "zc_io_size c = (if MAX_IO cfg = 0 then chunk_sz else MAX_IO cfg)"
    using zn_init_cache_ok [OF assms(1,2)] by blast
  have r: "zc_reader c = \<lparr>rd_workload_index = 0, rd_workload_buffer = wb, rd_workload_max = wm, rd_thresh_perc = 0\<rparr>"
    by (rule zn_init_cache_reader [OF c(1)])
  have al: "workload_ok (zc_reader c)" "aligned c" using r assms(6-10) c(4-6) by (simp_all add: workload_ok_def aligned_def)
  define zp where "zp = \<lparr>pf_lines = [Text_Line PROFILING_HEADERS], pf_metrics = fresh_metrics exact_ops, pf_realtime = Indet, pf_started_ts = now\<rparr>"
  have zp: "init_cache_profiler (NDEBUG cfg) exact_ops True True pgarbage now = Inr (Some zp)"
    by (simp add: init_cache_profiler_def zn_profiler_init_def zn_profiler_write_def PROFILING_METRICS_def init_metrics_ok zp_def)
  have ok: "meter_ok (Some zp, k)" by (simp add: meter_ok_def zp_def)
  have less: "unat (rd_workload_max (zc_reader c)) - unat (rd_workload_index (zc_reader c)) < n" using r assms(12) by simp
  obtain es h m c' d' q k' where l: "task_loop_profiled E self tid cfg verify ops fuel buf n c d (Some zp, k) = Inr (True, c', d', q, k')"
    "follows exact_ops es (Some zp, k) (q, k')" "run_history exact_ops (unsigned chunk_sz) h m c' es" "h + m = unat wm"
    "hr_hits (zc_ratio c') = of_nat h" "hr_misses (zc_ratio c') = of_nat m"
    using measured_loop [OF assms(1,3-5) c(2) al ok less, of E self tid verify, unfolded assms(14) c(3,4) r, simplified] by blast
  obtain zp' where q: "q = Some zp'" using l(2) by (cases q) (auto simp: follows_def)
  obtain zp'' where w: "zn_profiler_write_all_and_reset exact_ops interval clock zp' = Inr zp''"
    "pf_lines zp'' = pf_lines zp' @ report_lines exact_ops interval (pf_started_ts zp) (es, clock)"
    using meter_report [OF l(2) [unfolded q], of interval clock] by (auto simp: zp_def)
  have hm: "unat (hr_hits (zc_ratio c')) = h" "unat (hr_misses (zc_ratio c')) = m"
    unfolding l(5,6) by (rule unat_of_nat_less [of _ wm], use l(4) in simp)+
  have sum: "hr_misses (zc_ratio c') + hr_hits (zc_ratio c') = wm"
    unfolding l(5,6) of_nat_add [symmetric] using l(4) by (simp add: add.commute)
  have pos: "0 < h + m" using l(4) assms(13) by (simp add: word_less_nat_alt)
  have run: "task_function_profiled E self tid cfg verify ops fuel buf n td c d (Some zp, k) = Inr (task_complete td, c', d', Some zp', k')"
    using l(1) by (simp add: task_function_profiled_def q)
  have ratio: "hit_ratio_double exact_ops c' = of_nat h / of_nat (unat wm)"
    using hm(1) assms(13) unfolding hit_ratio_double_def Let_def sum by (auto simp: word_gt_0)
  show ?thesis
    by (rule exI [of _ c], rule exI [of _ zp], rule exI [of _ "task_complete td"], rule exI [of _ c'], rule exI [of _ d'], rule exI [of _ zp'],
        rule exI [of _ k'], rule exI [of _ zp''], rule exI [of _ "report_lines exact_ops interval (pf_started_ts zp) (es, clock)"])
      (simp add: c(1) zp run w l(4) hm ratio task_complete_def Let_def assms(11) profiling_task_def
        reported_named [unfolded tag_value.simps] exact_reports [OF l(3) pos, unfolded tag_value.simps One_nat_def])
qed

definition exact_env :: "bool \<Rightarrow> rat profile_env" where
  "exact_env every = \<lparr>pe_ops = exact_ops, pe_every = every, pe_clock = \<lambda>k. \<lparr>tv_sec = int k, tv_nsec = 0\<rparr>\<rparr>"

theorem metrics_describe_run_witness:
  "\<exists>c zp td' c' d' zp' k' zp'' report.
    zn_init_cache default_config no_garbage two_zones 4096 8192 3 ZN_EVICT_PROMOTE_ZONE ZE_BACKEND_ZNS [1, 2, 3, 4, 1] 5 = Inr c \<and>
    init_cache_profiler (NDEBUG default_config) exact_ops True True (\<lambda>_. \<lparr>pm_count = 0, pm_value = 0, pm_type = ZN_PROFILER_AVG\<rparr>) \<lparr>tv_sec = 0, tv_nsec = 0\<rparr> = Inr (Some zp) \<and>
    task_function_profiled (exact_env True) 0 0 default_config True ram_ops 2 (replicate 4096 7) 6
      \<lparr>td_nr_threads = 1, td_nr_threads_completed = 0, td_done = False, td_loop_quit = False\<rparr> c (\<lambda>_. 0) (Some zp, 0) =
      Inr (td', c', d', Some zp', k') \<and>
    td_loop_quit td' \<and>
    profiling_task exact_ops 1 (\<lambda>_. \<lparr>tv_sec = 9, tv_nsec = 0\<rparr>) zp' = Inr (True, zp'') \<and> pf_lines zp'' = pf_lines zp' @ report \<and>
    unat (hr_hits (zc_ratio c')) + unat (hr_misses (zc_ratio c')) = unat (5 :: u64) \<and>
    reported ''HITRATIO'' report = Some (of_nat (unat (hr_hits (zc_ratio c'))) / of_nat (unat (5 :: u64))) \<and>
    reported ''CACHETHROUGHPUT'' report = Some (of_nat (unat (5 :: u64)) * of_nat (unat (4096 :: u64)) / of_int 1) \<and>
    reported ''CACHEHITTHROUGHPUT'' report =
      Some (of_nat (unat (hr_hits (zc_ratio c'))) * of_nat (unat (4096 :: u64)) / of_int 1) \<and>
    reported ''CACHEMISSTHROUGHPUT'' report =
      Some (of_nat (unat (hr_misses (zc_ratio c'))) * of_nat (unat (4096 :: u64)) / of_int 1) \<and>
    reported ''FREEZONES'' report = Some (of_nat (unat (zsm_get_num_free_zones (zc_zone_state c')))) \<and>
    reported ''CACHE_USED_MIB'' report = Some (of_nat (unat (zn_evict_policy_get_cache_size c')) / (1024 * 1024))"
  by (rule metrics_describe_run [OF ram_device_ok two_zones_sizes])
    (simp_all add: default_config_def id_ok_def ram_io_reliable exact_env_def)

theorem measuring_is_transparent_witness:
  "bind_res (task_function_profiled (exact_env True) 0 0 default_config True no_write_ops 2 (replicate 4 7) 3
      \<lparr>td_nr_threads = 1, td_nr_threads_completed = 0, td_done = False, td_loop_quit = False\<rparr> tiny_start (\<lambda>_. 0)
      (Some \<lparr>pf_lines = [], pf_metrics = fresh_metrics exact_ops, pf_realtime = Indet, pf_started_ts = \<lparr>tv_sec = 0, tv_nsec = 0\<rparr>\<rparr>, 0))
      (\<lambda>(td', c', d', m'). Inr (td', c', d')) =
    task_function default_config True no_write_ops 2 (replicate 4 7) 3
      \<lparr>td_nr_threads = 1, td_nr_threads_completed = 0, td_done = False, td_loop_quit = False\<rparr> tiny_start (\<lambda>_. 0)"
  by (rule measuring_is_transparent) (simp add: PROFILING_METRICS_def)

text \<open>A run during which no report was made leaves no value in the file: closing the profiler does not write the metrics.\<close>

lemma unreported_at_exit:
  assumes "zn_profiler_init (pe_ops E) True garbage now = Inr (Some zp)"
    and "task_function_profiled E self tid cfg verify ops fuel buf n td c d (Some zp, k) = Inr (td', c', d', m')"
  shows "\<exists>file. zn_destroy_cache (fst m') = Some file \<and> filter (\<lambda>l. \<not> is_Every_Line l) file = [Text_Line PROFILING_HEADERS]"
proof -
  have zp: "pf_lines zp = [Text_Line PROFILING_HEADERS]" "pf_metrics zp = fresh_metrics (pe_ops E)"
    using assms(1) by (auto simp: zn_profiler_init_def zn_profiler_write_def PROFILING_METRICS_def init_metrics_ok)
  then have "meter_ok (Some zp, k)" by (simp add: meter_ok_def)
  from task_loop_tracks [OF this, of E cfg verify ops fuel buf n c d self tid] obtain es where "follows (pe_ops E) es (Some zp, k) m'"
    using assms(2) by (auto simp: tracks_def task_function_profiled_def bind_res_eq_Inr split: sum.splits)
  then show ?thesis using zp(1) by (cases "fst m'") (auto simp: follows_def zn_destroy_cache_def zn_profiler_close_def)
qed

end
