(* ===== verification/ZN_Program.thy ===== *)
theory ZN_Program
  imports ZN_Main ZN_Concurrency ZN_Metrics
begin

text \<open>
  The whole of \<open>main\<close> in \<open>src/zncache.c\<close>: the set-up, the profiler, the threads under a schedule, and the clean-up when
  all of them have ended.
\<close>

section \<open>The program\<close>

text \<open>Whether \<open>main\<close> asks for a periodic report: it reads the flag \<open>realtime\<close> of the profiler.\<close>

definition reports_scheduled :: "'f zn_profiler option \<Rightarrow> bool res" where
  "reports_scheduled zp = (case zp of None \<Rightarrow> Inr False
     | Some zp \<Rightarrow> bind_res (read_cell (pf_realtime zp)) (\<lambda>realtime. Inr (\<not> realtime)))"

text \<open>What the system answers after the set-up: \<open>fopen\<close> of the metrics file, memory and clock for the profiler, and
  whether the thread pool takes all tasks.\<close>

record 'f run_env =
  re_double :: "'f double_ops"
  re_opened :: bool
  re_garbage :: "nat \<Rightarrow> 'f zn_profiler_metrics"
  re_now :: timespec
  re_pool_ok :: bool

definition metrics_given :: "getopt_result list \<Rightarrow> bool" where
  "metrics_given os = (case parse_options os \<lparr>mo_workload_file = None, mo_workload_max = - 1, mo_metrics_file = None\<rparr> of
     Inl _ \<Rightarrow> False | Inr mo \<Rightarrow> mo_metrics_file mo \<noteq> None)"

text \<open>
  \<open>main\<close> up to the end of a schedule: the value it returns, or \<open>None\<close> while it waits. With no worker
  \<open>g_new\<close> gives \<open>NULL\<close>, which the assertion catches and \<open>thread_data->loop\<close> dereferences.
  A run with a profiler does not get past the test of \<open>realtime\<close> (\<open>metrics_flag_uninitialised\<close> below), so after it
  the metrics and \<open>zn_destroy_cache\<close> have no effect.
\<close>

definition main_program :: "zn_config \<Rightarrow> bool \<Rightarrow> build_options \<Rightarrow> (nat \<Rightarrow> nat \<Rightarrow> zn_pair) \<Rightarrow> 'e main_env \<Rightarrow> 'f run_env \<Rightarrow> 'dev dev_ops \<Rightarrow>
    nat \<Rightarrow> u32 \<Rightarrow> (nat \<times> bool) list \<Rightarrow> 'dev \<Rightarrow> (int option \<times> 'dev) res" where
  "main_program cfg verify bo garbage env re ops fuel nr_threads sched d =
     bind_res (main_setup cfg bo garbage env ops fuel d) (\<lambda>(r, d1). case r of
         Inl ret \<Rightarrow> Inr (Some ret, d1)
       | Inr (cache, RANDOM_DATA) \<Rightarrow>
           bind_res (init_cache_profiler (NDEBUG cfg) (re_double re) (metrics_given (env_options env)) (re_opened re)
             (re_garbage re) (re_now re)) (\<lambda>zp.
           if \<not> re_pool_ok re then Inr (Some 1, d1)
           else if nr_threads = 0 then c_assert (NDEBUG cfg) False (Inl Null_Deref)
           else
             bind_res (reports_scheduled zp) (\<lambda>_.
             let (ts, td) = main_threads nr_threads in
             bind_res (threads_run cfg verify ops RANDOM_DATA sched ts (td, cache, d1)) (\<lambda>(ts', td', cache', d').
               Inr (if main_joined ts' td' then Some 0 else None, d')))))"

section \<open>Properties\<close>

lemma main_setup_block:
  assumes run: "main_setup cfg bo garbage env ops fuel d = Inr (Inr (cache, buf), d1)"
    and dev: "device_ok ops content" and sz: "block_sizes_ok cfg bo sz (env_chunk_sz env)"
    and env: "\<not> env_is_zoned env" "env_blkgetsize64 env = Some sz" "EVICTION_POLICY bo = ZN_EVICT_PROMOTE_ZONE"
  shows "d1 = d" "cache_ready ops content buf cache d" "aligned cache"
proof -
  define info where "info = \<lparr>zi_nr_zones = word_of_int (sint sz sdiv sint (BLOCK_ZONE_CAPACITY bo)), zi_max_nr_active_zones = 0,
     zi_zone_size = BLOCK_ZONE_CAPACITY bo\<rparr>"
  have s: "\<not> sz < BLOCK_ZONE_CAPACITY bo" "BLOCK_ZONE_CAPACITY bo \<noteq> 0" "BLOCK_ZONE_CAPACITY bo mod 4096 = 0"
    "env_chunk_sz env mod 4096 = 0" "MAX_IO cfg mod 4096 = 0"
    using sz by (auto simp: block_sizes_ok_def word_less_nat_alt)
  let ?mo = "parse_options (env_options env) \<lparr>mo_workload_file = None, mo_workload_max = - 1, mo_metrics_file = None\<rparr>"
  obtain mo where mo: "?mo = Inr mo" using run by (cases ?mo) (auto simp: main_setup_def split: if_splits)
  obtain x where x: "main_workload fuel env mo = Inr x" using run mo by (auto simp: main_setup_def bind_res_eq_Inr split: if_splits)
  obtain wb wm where w: "x = Inr (wb, wm)" using run mo x by (cases x) (auto simp: main_setup_def split: if_splits)
  have i: "d1 = d" "generate_random_buffer (env_rand env) (env_chunk_sz env) = Some buf"
    "zn_init_cache cfg garbage info (env_chunk_sz env) (BLOCK_ZONE_CAPACITY bo) (env_open env) ZN_EVICT_PROMOTE_ZONE ZE_BACKEND_BLOCK wb wm = Inr cache"
    using run env s(1,2) mo x w
    by (auto simp: main_setup_def main_open_def main_prepare_def info_def nomem_def bind_res_eq_Inr split: if_splits option.splits)
  have "init_sizes_ok cfg info (env_chunk_sz env) (BLOCK_ZONE_CAPACITY bo) buf"
    unfolding info_def by (rule block_init_sizes [OF sz random_buffer_length [OF i(2)]])
  from zn_init_cache_ok [OF dev this, of garbage "env_open env" ZE_BACKEND_BLOCK wb wm d] i(3) s(3-5)
  show "cache_ready ops content buf cache d" "aligned cache" by (auto simp: aligned_def info_def)
  show "d1 = d" by (rule i(1))
qed


text \<open>The program on a block device of three zones, with a workload file and no iterations.\<close>

definition sample_env :: "getopt_result list \<Rightarrow> read_result list main_env" where
  "sample_env os = \<lparr>env_euid = 0, env_argc = 8, env_chunk_sz = 4096, env_options = os, env_is_zoned = False,
     env_open_workload = (\<lambda>_. Some []), env_read = script_read, env_malloc = (\<lambda>_. 0), env_zbd_open = (-1, two_zones), env_open = 3,
     env_blkgetsize64 = Some 24576, env_report_zones = (0, 0), env_rand = (\<lambda>i. int i)\<rparr>"

definition sample_run_env :: "rat run_env" where
  "sample_run_env = \<lparr>re_double = exact_ops, re_opened = True, re_garbage = \<lambda>_. \<lparr>pm_count = 0, pm_value = 0, pm_type = ZN_PROFILER_AVG\<rparr>,
     re_now = \<lparr>tv_sec = 0, tv_nsec = 0\<rparr>, re_pool_ok = True\<rparr>"

abbreviation sample_build :: build_options where
  "sample_build \<equiv> \<lparr>BLOCK_ZONE_CAPACITY = 8192, MAX_ZONES_USED = 0, EVICTION_POLICY = ZN_EVICT_PROMOTE_ZONE\<rparr>"

definition sample_program_cache :: zn_cache where
  "sample_program_cache = projr (zn_init_cache default_config no_garbage \<lparr>zi_nr_zones = 3, zi_max_nr_active_zones = 0, zi_zone_size = 8192\<rparr>
     4096 8192 3 ZN_EVICT_PROMOTE_ZONE ZE_BACKEND_BLOCK [] 0)"

lemma sample_sizes: "block_sizes_ok default_config sample_build 24576 4096"
  by (simp add: block_sizes_ok_def default_config_def)

lemma sample_setup:
  assumes "parse_options os \<lparr>mo_workload_file = None, mo_workload_max = - 1, mo_metrics_file = None\<rparr> =
    Inr \<lparr>mo_workload_file = Some f, mo_workload_max = 0, mo_metrics_file = mf\<rparr>"
  shows "\<exists>buf. main_setup default_config sample_build no_garbage (sample_env os) ram_ops 1 (\<lambda>_. 0) =
    Inr (Inr (sample_program_cache, buf), \<lambda>_. 0) \<and> workload_ok (zc_reader sample_program_cache)"
proof -
  obtain buf where buf: "generate_random_buffer int 4096 = Some buf" by (simp add: generate_random_buffer_def)
  have "init_sizes_ok default_config \<lparr>zi_nr_zones = word_of_int (sint (24576 :: u64) sdiv sint (BLOCK_ZONE_CAPACITY sample_build)),
      zi_max_nr_active_zones = 0, zi_zone_size = BLOCK_ZONE_CAPACITY sample_build\<rparr> 4096 (BLOCK_ZONE_CAPACITY sample_build) buf"
    by (rule block_init_sizes [OF sample_sizes random_buffer_length [OF buf]])
  moreover have n: "word_of_int (sint (24576 :: u64) sdiv sint (8192 :: u64)) = (3 :: u32)" by code_simp
  ultimately have i: "zn_init_cache default_config no_garbage \<lparr>zi_nr_zones = 3, zi_max_nr_active_zones = 0, zi_zone_size = 8192\<rparr>
     4096 8192 3 ZN_EVICT_PROMOTE_ZONE ZE_BACKEND_BLOCK [] 0 = Inr sample_program_cache"
    using zn_init_cache_ok [OF ram_device_ok, of default_config
        "\<lparr>zi_nr_zones = 3, zi_max_nr_active_zones = 0, zi_zone_size = 8192\<rparr>" 4096 8192 buf no_garbage 3 ZE_BACKEND_BLOCK "[]" 0 "\<lambda>_. 0"]
    by (auto simp: sample_program_cache_def)
  have "main_workload 1 (sample_env os) \<lparr>mo_workload_file = Some f, mo_workload_max = 0, mo_metrics_file = mf\<rparr> = Inr (Inr ([], 0))"
    by (simp add: main_workload_def sample_env_def read_workload_def)
  then have "main_setup default_config sample_build no_garbage (sample_env os) ram_ops 1 (\<lambda>_. 0) = Inr (Inr (sample_program_cache, buf), \<lambda>_. 0)"
    using assms buf i n by (simp add: main_setup_def main_open_def main_prepare_def sample_env_def)
  moreover have "workload_ok (zc_reader sample_program_cache)" using zn_init_cache_reader [OF i] by (simp add: workload_ok_def)
  ultimately show ?thesis by blast
qed


text \<open>With a metrics file the program reads a flag that was never set: \<open>zn_profiler_init\<close> leaves \<open>realtime\<close> as
  \<open>malloc\<close> gave it, and \<open>main\<close> tests it to decide whether reports are written.\<close>

lemma metrics_flag_uninitialised:
  assumes "main_setup cfg bo garbage env ops fuel d = Inr (Inr (cache, buf), d1)"
    and "metrics_given (env_options env)" and "re_opened re" and "re_pool_ok re" and "0 < n"
  shows "main_program cfg verify bo garbage env re ops fuel n sched d = Inl Uninit_Read"
  using assms by (simp add: main_program_def init_cache_profiler_def reports_scheduled_def zn_profiler_init_def zn_profiler_write_def
      init_metrics_ok PROFILING_METRICS_def word_gt_0)

end
