(* ===== verification/ZN_Chunk_Correct.thy ===== *)
theory ZN_Chunk_Correct
  imports ZN_Chunk_Policy
begin

text \<open>
  Correctness of the chunk policy between garbage collections: the queue is the order of last use
  of the chunks in use, the heap holds the filled zones by their number of chunks in use, and an
  eviction takes exactly the oldest chunks. What the policy does not survive is stated too.
\<close>

section \<open>Invariant\<close>

abbreviation pool_zone :: "zn_policy_chunk \<Rightarrow> nat \<Rightarrow> eviction_policy_chunk_zone" where
  "pool_zone p z \<equiv> cp_zone_pool p ! z"

definition chunk_used :: "zn_policy_chunk \<Rightarrow> nat \<Rightarrow> nat \<Rightarrow> bool" where
  "chunk_used p z c \<longleftrightarrow> zp_in_use (ez_chunks (pool_zone p z) ! c)"

definition chunk_order :: "zn_policy_chunk \<Rightarrow> pair_ptr list" where
  "chunk_order p = gq_data (cp_lru_queue p)"

definition zone_used :: "nat \<Rightarrow> eviction_policy_chunk_zone \<Rightarrow> nat set" where
  "zone_used mx zone = {c. c < mx \<and> zp_in_use (ez_chunks zone ! c)}"

text \<open>One zone of the pool, as element \<open>z\<close>.\<close>

definition pool_zone_ok :: "nat \<Rightarrow> nat zn_minheap \<Rightarrow> nat \<Rightarrow> eviction_policy_chunk_zone \<Rightarrow> bool" where
  "pool_zone_ok mx heap z zone \<longleftrightarrow> length (ez_chunks zone) = mx \<and>
     (\<forall>c < mx. zp_in_use (ez_chunks zone ! c) \<longrightarrow>
        zp_zone (ez_chunks zone ! c) = of_nat z \<and> zp_chunk_offset (ez_chunks zone ! c) = of_nat c) \<and>
     ez_chunks_in_use zone = of_nat (card (zone_used mx zone)) \<and>
     (ez_filled zone \<longrightarrow> (\<exists>e. ez_pqueue_entry zone = Init e \<and> mh_contents heap e = Some (z, ez_chunks_in_use zone)))"

definition chunk_inv :: "nat \<Rightarrow> nat \<Rightarrow> zn_policy_chunk \<Rightarrow> bool" where
  "chunk_inv nz mx p \<longleftrightarrow> nz < 2 ^ 31 \<and> mx < 2 ^ 32 \<and>
     length (cp_zone_pool p) = nz \<and>
     lru_ok (cp_lru_queue p) (cp_chunk_to_lru_map p) \<and>
     (\<forall>z < nz. \<forall>c < mx. cp_chunk_to_lru_map p (z, c) \<noteq> None) \<and>
     (\<forall>z c. (z, c) \<in> set (chunk_order p) \<longleftrightarrow> z < nz \<and> c < mx \<and> chunk_used p z c) \<and>
     (\<forall>z < nz. pool_zone_ok mx (cp_invalid_pqueue p) z (pool_zone p z)) \<and>
     mh_wf (cp_invalid_pqueue p) \<and>
     unat (mh_size (cp_invalid_pqueue p)) = card {z. z < nz \<and> ez_filled (pool_zone p z)}"

lemma chunk_invD:
  assumes "chunk_inv nz mx p"
  shows "nz < 2 ^ 31" "mx < 2 ^ 32" "length (cp_zone_pool p) = nz"
    "lru_ok (cp_lru_queue p) (cp_chunk_to_lru_map p)"
    "z < nz \<Longrightarrow> c < mx \<Longrightarrow> cp_chunk_to_lru_map p (z, c) \<noteq> None"
    "(z, c) \<in> set (chunk_order p) \<longleftrightarrow> z < nz \<and> c < mx \<and> chunk_used p z c"
    "z < nz \<Longrightarrow> pool_zone_ok mx (cp_invalid_pqueue p) z (pool_zone p z)"
    "mh_wf (cp_invalid_pqueue p)"
    "unat (mh_size (cp_invalid_pqueue p)) = card {z. z < nz \<and> ez_filled (pool_zone p z)}"
  using assms unfolding chunk_inv_def by blast+

lemma filled_zones_bound: "card {z. z < nz \<and> P z} \<le> (nz :: nat)"
proof -
  have "card {z. z < nz \<and> P z} \<le> card {..< nz}" by (rule card_mono) auto
  then show ?thesis by simp
qed

lemma pool_get_ok:
  assumes "chunk_inv nz mx p" "z < nz" "c < mx"
  shows "pool_get p z c = Inr (pool_zone p z, ez_chunks (pool_zone p z) ! c)"
  using chunk_invD(3,7) [OF assms(1)] assms(2,3) by (simp add: pool_get_def arr_get_def pool_zone_ok_def)

lemma chunk_init_inv:
  assumes "unat nr_zones < 2 ^ 31" "0 < nr_zones" "unat mx < 2 ^ 32"
  shows "chunk_inv (unat nr_zones) (unat mx) (chunk_init garbage nr_zones mx)"
    "chunk_order (chunk_init garbage nr_zones mx) = []"
    "z < unat nr_zones \<Longrightarrow> \<not> ez_filled (pool_zone (chunk_init garbage nr_zones mx) z)"
proof -
  show "chunk_order (chunk_init garbage nr_zones mx) = []" by (simp add: chunk_order_def chunk_init_def gq_data_def)
  moreover have "lru_ok g_queue_init (\<lambda>(z, c). if z < unat nr_zones \<and> c < unat mx then Some None else None)"
    by (auto simp: lru_ok_def gq_data_def g_hash_table_lookup_def)
  moreover have "mh_wf (zn_minheap_init nr_zones :: nat zn_minheap)" using assms(2) by (auto simp: mh_wf_def) (simp add: zn_minheap_init_def)
  moreover have "mh_size (zn_minheap_init nr_zones :: nat zn_minheap) = 0" by (simp add: zn_minheap_init_def)
  ultimately show "chunk_inv (unat nr_zones) (unat mx) (chunk_init garbage nr_zones mx)"
    using assms unfolding chunk_inv_def
    by (auto simp: chunk_init_def chunk_used_def pool_zone_ok_def zone_used_def cong: conj_cong)
  show "z < unat nr_zones \<Longrightarrow> \<not> ez_filled (pool_zone (chunk_init garbage nr_zones mx) z)" by (simp add: chunk_init_def)
qed

section \<open>Updates\<close>

lemma set_zone_pool [simp]:
  "cp_zone_pool (pool_set_zone z zone p) = (cp_zone_pool p)[z := zone]"
  "cp_lru_queue (pool_set_zone z zone p) = cp_lru_queue p"
  "cp_chunk_to_lru_map (pool_set_zone z zone p) = cp_chunk_to_lru_map p"
  "cp_invalid_pqueue (pool_set_zone z zone p) = cp_invalid_pqueue p"
  "pool_set_zone z zone2 (pool_set_zone z zone p) = pool_set_zone z zone2 p"
  by (simp_all add: pool_set_zone_def)

lemma pool_zone_ok_heap:
  assumes "pool_zone_ok mx heap z zone"
    and "\<And>e. ez_filled zone \<Longrightarrow> mh_contents heap e = Some (z, ez_chunks_in_use zone) \<Longrightarrow> mh_contents heap' e = mh_contents heap e"
  shows "pool_zone_ok mx heap' z zone"
  using assms unfolding pool_zone_ok_def by metis

text \<open>The zone with chunk \<open>c\<close> put into use.\<close>

definition zone_with_chunk :: "zn_pair \<Rightarrow> eviction_policy_chunk_zone \<Rightarrow> eviction_policy_chunk_zone" where
  "zone_with_chunk location zone = zone\<lparr>
     ez_chunks := (ez_chunks zone)[unat (zp_chunk_offset location) :=
       \<lparr>zp_zone = zp_zone location, zp_chunk_offset = zp_chunk_offset location, zp_id = zp_id location, zp_in_use = True\<rparr>],
     ez_chunks_in_use := ez_chunks_in_use zone + 1, ez_zone_id := Init (zp_zone location)\<rparr>"

lemma zone_with_chunk_used:
  assumes "unat (zp_chunk_offset loc) < mx" "length (ez_chunks zone) = mx" "\<not> zp_in_use (ez_chunks zone ! unat (zp_chunk_offset loc))"
  shows "zone_used mx (zone_with_chunk loc zone) = insert (unat (zp_chunk_offset loc)) (zone_used mx zone)"
    "card (zone_used mx (zone_with_chunk loc zone)) = Suc (card (zone_used mx zone))"
proof -
  show u: "zone_used mx (zone_with_chunk loc zone) = insert (unat (zp_chunk_offset loc)) (zone_used mx zone)"
    using assms by (auto simp: zone_used_def zone_with_chunk_def nth_list_update)
  have "unat (zp_chunk_offset loc) \<notin> zone_used mx zone" using assms(3) by (simp add: zone_used_def)
  then show "card (zone_used mx (zone_with_chunk loc zone)) = Suc (card (zone_used mx zone))"
    unfolding u by (simp add: zone_used_def)
qed

lemma zone_with_chunk_ok:
  assumes ok: "pool_zone_ok mx heap (unat (zp_zone loc)) zone" and c: "unat (zp_chunk_offset loc) < mx"
    and free: "\<not> zp_in_use (ez_chunks zone ! unat (zp_chunk_offset loc))"
  shows "ez_filled zone \<or> pool_zone_ok mx heap' (unat (zp_zone loc)) (zone_with_chunk loc zone)"
    "mh_contents heap' e = Some (unat (zp_zone loc), ez_chunks_in_use zone + 1) \<Longrightarrow>
      pool_zone_ok mx heap' (unat (zp_zone loc)) ((zone_with_chunk loc zone)\<lparr>ez_pqueue_entry := Init e, ez_filled := True\<rparr>)"
proof -
  have len: "length (ez_chunks zone) = mx" using ok by (simp add: pool_zone_ok_def)
  note card = zone_with_chunk_used(2) [OF c len free]
  have fields: "zp_zone (ez_chunks (zone_with_chunk loc zone) ! k) = of_nat (unat (zp_zone loc)) \<and>
      zp_chunk_offset (ez_chunks (zone_with_chunk loc zone) ! k) = of_nat k"
    if "k < mx" "zp_in_use (ez_chunks (zone_with_chunk loc zone) ! k)" for k
    using that ok c len by (auto simp: pool_zone_ok_def zone_with_chunk_def nth_list_update split: if_splits)
  have cnt: "ez_chunks_in_use (zone_with_chunk loc zone) = of_nat (card (zone_used mx (zone_with_chunk loc zone)))"
    unfolding card using ok by (simp add: pool_zone_ok_def zone_with_chunk_def)
  have l: "length (ez_chunks (zone_with_chunk loc zone)) = mx" using len by (simp add: zone_with_chunk_def)
  show "ez_filled zone \<or> pool_zone_ok mx heap' (unat (zp_zone loc)) (zone_with_chunk loc zone)"
    using fields cnt l unfolding pool_zone_ok_def by (auto simp: zone_with_chunk_def)
  show "pool_zone_ok mx heap' (unat (zp_zone loc)) ((zone_with_chunk loc zone)\<lparr>ez_pqueue_entry := Init e, ez_filled := True\<rparr>)"
    if "mh_contents heap' e = Some (unat (zp_zone loc), ez_chunks_in_use zone + 1)"
    using fields cnt l that unfolding pool_zone_ok_def by (simp add: zone_used_def) (simp add: zone_with_chunk_def)
qed

text \<open>A write of a free chunk in a zone that is not full appends the chunk to the order.\<close>

lemma chunk_write_ok:
  assumes inv: "chunk_inv nz mx p" and z: "unat (zp_zone loc) < nz" and c: "unat (zp_chunk_offset loc) < mx"
    and free: "\<not> chunk_used p (unat (zp_zone loc)) (unat (zp_chunk_offset loc))"
    and nf: "\<not> ez_filled (pool_zone p (unat (zp_zone loc)))" and mzc: "unat mzc = mx"
  shows "\<exists>p'. zn_policy_chunk_update nd mzc loc ZN_WRITE p = Inr p' \<and> chunk_inv nz mx p' \<and>
    chunk_order p' = chunk_order p @ [(unat (zp_zone loc), unat (zp_chunk_offset loc))] \<and>
    (\<forall>y < nz. ez_filled (pool_zone p' y) \<longleftrightarrow>
       ez_filled (pool_zone p y) \<or> y = unat (zp_zone loc) \<and> unat (zp_chunk_offset loc) + 1 = mx)"
proof -
  define z' c' where "z' = unat (zp_zone loc)" and "c' = unat (zp_chunk_offset loc)"
  note I = chunk_invD [OF inv]
  define zone where "zone = pool_zone p z'"
  define q where "q = g_queue_push_tail (z', c') (cp_lru_queue p)"
  define m where "m = (cp_chunk_to_lru_map p)((z', c') \<mapsto> g_queue_peek_tail_link q)"
  have zok: "pool_zone_ok mx (cp_invalid_pqueue p) z' zone" using I(7) z by (simp add: zone_def z'_def)
  have free': "\<not> zp_in_use (ez_chunks zone ! c')" using free by (simp add: chunk_used_def zone_def z'_def c'_def)
  have notin: "(z', c') \<notin> set (gq_data (cp_lru_queue p))" using I(6) [of z' c'] free by (simp add: chunk_order_def z'_def c'_def)
  note push = lru_push [OF I(4) notin]
  have used: "zp_in_use (ez_chunks (zone_with_chunk loc zone) ! k) \<longleftrightarrow> zp_in_use (ez_chunks zone ! k) \<or> k = c'" if "k < mx" for k
    using that zok c by (auto simp: zone_with_chunk_def nth_list_update pool_zone_ok_def c'_def)
  have last: "ucast (zp_chunk_offset loc) = mzc - 1 \<longleftrightarrow> c' + 1 = mx"
  proof -
    have "unat (mzc - 1) = mx - 1" using mzc c by (subst unat_dec) (auto simp: word_gt_0)
    then show ?thesis unfolding unat_inject [symmetric] using c by (auto simp: c'_def)
  qed
  have upd: "zn_policy_chunk_update nd mzc loc ZN_WRITE p =
     (let p1 = (pool_set_zone z' (zone_with_chunk loc zone) p)\<lparr>cp_lru_queue := q, cp_chunk_to_lru_map := m\<rparr> in
      if c' + 1 = mx then
        bind_res (zn_minheap_insert (cp_invalid_pqueue p) z' (ez_chunks_in_use zone + 1)) (\<lambda>(e, heap).
          Inr ((pool_set_zone z' ((zone_with_chunk loc zone)\<lparr>ez_pqueue_entry := Init e, ez_filled := True\<rparr>) p1)
                 \<lparr>cp_invalid_pqueue := heap\<rparr>))
      else Inr p1)"
    using pool_get_ok [OF inv z c] free'
    by (simp add: zn_policy_chunk_update_def Let_def last zone_with_chunk_def q_def m_def zone_def z'_def c'_def)
  have fin: "chunk_inv nz mx p' \<and> chunk_order p' = chunk_order p @ [(z', c')]"
    if p': "cp_zone_pool p' = (cp_zone_pool p)[z' := zn]" "cp_lru_queue p' = q" "cp_chunk_to_lru_map p' = m"
      and ok: "pool_zone_ok mx (cp_invalid_pqueue p') z' zn"
      and chunks: "ez_chunks zn = ez_chunks (zone_with_chunk loc zone)"
      and keep: "\<And>y e n. y \<noteq> z' \<Longrightarrow> mh_contents (cp_invalid_pqueue p) e = Some (y, n) \<Longrightarrow>
        mh_contents (cp_invalid_pqueue p') e = mh_contents (cp_invalid_pqueue p) e"
      and heap: "mh_wf (cp_invalid_pqueue p')"
        "unat (mh_size (cp_invalid_pqueue p')) = card {y. y < nz \<and> ez_filled (pool_zone p' y)}" for p' zn
  proof -
    have ord: "chunk_order p' = chunk_order p @ [(z', c')]" using push(2) p'(2) by (simp add: chunk_order_def q_def)
    have us: "chunk_used p' y k \<longleftrightarrow> chunk_used p y k \<or> (y, k) = (z', c')" if "y < nz" "k < mx" for y k
      using that used [of k] p'(1) I(3) chunks z by (cases "y = z'") (auto simp: chunk_used_def zone_def z'_def)
    have "(y, k) \<in> set (chunk_order p') \<longleftrightarrow> y < nz \<and> k < mx \<and> chunk_used p' y k" for y k
      using I(6) [of y k] us [of y k] z c unfolding ord by (auto simp: z'_def c'_def)
    moreover have "pool_zone_ok mx (cp_invalid_pqueue p') y (pool_zone p' y)" if "y < nz" for y
      using ok pool_zone_ok_heap [OF I(7) [OF that]] keep that I(3) p'(1) by (cases "y = z'") auto
    moreover have "lru_ok (cp_lru_queue p') (cp_chunk_to_lru_map p')" using push(1) p'(2,3) by (simp add: q_def m_def)
    moreover have "cp_chunk_to_lru_map p' (y, k) \<noteq> None" if "y < nz" "k < mx" for y k
      using I(5) [OF that] p'(3) by (simp add: m_def)
    ultimately show ?thesis using I(1-3) p'(1) heap ord unfolding chunk_inv_def by simp
  qed
  have same: "y < nz \<Longrightarrow> y \<noteq> z' \<Longrightarrow> (cp_zone_pool p)[z' := zn] ! y = pool_zone p y" for y zn by simp
  show ?thesis
  proof (cases "c' + 1 = mx")
    case False
    define p1 where "p1 = (pool_set_zone z' (zone_with_chunk loc zone) p)\<lparr>cp_lru_queue := q, cp_chunk_to_lru_map := m\<rparr>"
    have fl: "ez_filled (pool_zone p1 y) \<longleftrightarrow> ez_filled (pool_zone p y)" if "y < nz" for y
      using that I(3) by (cases "y = z'") (auto simp: p1_def zone_with_chunk_def zone_def)
    have "chunk_inv nz mx p1 \<and> chunk_order p1 = chunk_order p @ [(z', c')]"
    proof (rule fin [where zn = "zone_with_chunk loc zone"])
      show "pool_zone_ok mx (cp_invalid_pqueue p1) z' (zone_with_chunk loc zone)"
        using zone_with_chunk_ok(1) [of mx "cp_invalid_pqueue p" loc zone "cp_invalid_pqueue p1"] zok c free' nf
        by (simp add: z'_def c'_def zone_def)
      show "unat (mh_size (cp_invalid_pqueue p1)) = card {y. y < nz \<and> ez_filled (pool_zone p1 y)}"
        using I(9) fl by (simp add: p1_def cong: conj_cong)
    qed (simp_all add: p1_def I(8))
    moreover have "zn_policy_chunk_update nd mzc loc ZN_WRITE p = Inr p1" using upd False by (simp add: p1_def)
    ultimately show ?thesis using False fl by (auto simp: z'_def c'_def)
  next
    case True
    have "unat (mh_size (cp_invalid_pqueue p)) < 2 ^ 31"
      using I(9) filled_zones_bound [of nz "\<lambda>y. ez_filled (pool_zone p y)"] I(1) by linarith
    then obtain e heap where h: "zn_minheap_insert (cp_invalid_pqueue p) z' (ez_chunks_in_use zone + 1) = Inr (e, heap)" "mh_wf heap"
      "mh_contents (cp_invalid_pqueue p) e = None" "mh_contents heap = (mh_contents (cp_invalid_pqueue p))(e \<mapsto> (z', ez_chunks_in_use zone + 1))"
      "unat (mh_size heap) = unat (mh_size (cp_invalid_pqueue p)) + 1"
      using mh.ins_law [OF I(8)] by blast
    define zn where "zn = (zone_with_chunk loc zone)\<lparr>ez_pqueue_entry := Init e, ez_filled := True\<rparr>"
    define p2 where "p2 = (pool_set_zone z' zn p)\<lparr>cp_lru_queue := q, cp_chunk_to_lru_map := m, cp_invalid_pqueue := heap\<rparr>"
    have run: "zn_policy_chunk_update nd mzc loc ZN_WRITE p = Inr p2"
      unfolding upd using True h(1) by (simp add: p2_def zn_def pool_set_zone_def)
    have fl: "ez_filled (pool_zone p2 y) \<longleftrightarrow> ez_filled (pool_zone p y) \<or> y = z'" if "y < nz" for y
      using that I(3) by (cases "y = z'") (auto simp: p2_def zn_def)
    have "chunk_inv nz mx p2 \<and> chunk_order p2 = chunk_order p @ [(z', c')]"
    proof (rule fin [where zn = zn])
      show "pool_zone_ok mx (cp_invalid_pqueue p2) z' zn"
        using zone_with_chunk_ok(2) [of mx "cp_invalid_pqueue p" loc zone heap e] zok c free' h(4)
        by (simp add: z'_def c'_def p2_def zn_def)
      show "mh_contents (cp_invalid_pqueue p2) r = mh_contents (cp_invalid_pqueue p) r"
        if "mh_contents (cp_invalid_pqueue p) r = Some (y, n)" for y r n
        using that h(3,4) by (auto simp: p2_def)
      have "{y. y < nz \<and> ez_filled (pool_zone p2 y)} = insert z' {y. y < nz \<and> ez_filled (pool_zone p y)}"
        using fl z by (auto simp: z'_def)
      then show "unat (mh_size (cp_invalid_pqueue p2)) = card {y. y < nz \<and> ez_filled (pool_zone p2 y)}"
        using h(5) I(9) nf by (simp add: p2_def z'_def)
    qed (simp_all add: p2_def zn_def h(2))
    then show ?thesis using run True fl by (auto simp: z'_def c'_def)
  qed
qed

text \<open>A read moves the chunk to the end of the order, if it is in use.\<close>

lemma chunk_read_ok:
  assumes inv: "chunk_inv nz mx p" and z: "unat (zp_zone loc) < nz" and c: "unat (zp_chunk_offset loc) < mx"
  shows "\<exists>p'. zn_policy_chunk_update nd mzc loc ZN_READ p = Inr p' \<and> chunk_inv nz mx p' \<and>
    chunk_order p' = touch (unat (zp_zone loc), unat (zp_chunk_offset loc)) (chunk_order p) \<and>
    cp_zone_pool p' = cp_zone_pool p \<and> cp_invalid_pqueue p' = cp_invalid_pqueue p"
proof -
  define x where "x = (unat (zp_zone loc), unat (zp_chunk_offset loc))"
  note I = chunk_invD [OF inv]
  obtain node where node: "cp_chunk_to_lru_map p x = Some node" using I(5) [OF z c] by (auto simp: x_def)
  then have look: "g_hash_table_lookup (cp_chunk_to_lru_map p) x = node" by (simp add: g_hash_table_lookup_def)
  show ?thesis
  proof (cases node)
    case None
    then have "x \<notin> set (chunk_order p)" using lru_lookup_None [OF I(4), of x] look by (simp add: chunk_order_def)
    moreover have "zn_policy_chunk_update nd mzc loc ZN_READ p = Inr p"
      using node None pool_get_ok [OF inv z c] by (simp add: zn_policy_chunk_update_def x_def)
    ultimately show ?thesis using inv by (simp add: touch_def x_def)
  next
    case (Some n)
    obtain q1 where q1: "node_data (cp_lru_queue p) n = Inr x" "g_queue_delete_link n (cp_lru_queue p) = Inr q1"
      "lru_ok (g_queue_push_tail x q1) ((cp_chunk_to_lru_map p)(x \<mapsto> g_queue_peek_tail_link (g_queue_push_tail x q1)))"
      "gq_data (g_queue_push_tail x q1) = filter (\<lambda>y. y \<noteq> x) (gq_data (cp_lru_queue p)) @ [x]"
      using lru_use [OF I(4), of x n] look Some by blast
    define p' where "p' = p\<lparr>cp_lru_queue := g_queue_push_tail x q1,
      cp_chunk_to_lru_map := (cp_chunk_to_lru_map p)(x \<mapsto> g_queue_peek_tail_link (g_queue_push_tail x q1))\<rparr>"
    have run: "zn_policy_chunk_update nd mzc loc ZN_READ p = Inr p'"
      using node Some pool_get_ok [OF inv z c] q1(1,2) by (simp add: zn_policy_chunk_update_def x_def p'_def Let_def)
    have mem: "x \<in> set (chunk_order p)" using lru_lookup_None [OF I(4), of x] look Some by (auto simp: chunk_order_def)
    have ord: "chunk_order p' = filter (\<lambda>y. y \<noteq> x) (chunk_order p) @ [x]" using q1(4) by (simp add: chunk_order_def p'_def)
    have set: "set (chunk_order p') = set (chunk_order p)" using ord mem by auto
    have "chunk_inv nz mx p'"
      using I(1-3) q1(3) I(5-9) set unfolding chunk_inv_def by (auto simp: p'_def chunk_used_def)
    then show ?thesis using run ord mem by (simp add: touch_def x_def p'_def)
  qed
qed

section \<open>Eviction\<close>

definition zone_without_chunk :: "nat \<Rightarrow> eviction_policy_chunk_zone \<Rightarrow> eviction_policy_chunk_zone" where
  "zone_without_chunk c zone = zone\<lparr>ez_chunks := (ez_chunks zone)[c := (ez_chunks zone ! c)\<lparr>zp_in_use := False\<rparr>],
     ez_chunks_in_use := ez_chunks_in_use zone - 1\<rparr>"

lemma zone_without_chunk_ok:
  assumes ok: "pool_zone_ok mx heap z zone" and c: "c < mx" "zp_in_use (ez_chunks zone ! c)"
    and h: "ez_pqueue_entry zone = Init e" "mh_contents heap' e = Some (z, ez_chunks_in_use zone - 1)"
  shows "pool_zone_ok mx heap' z (zone_without_chunk c zone)"
proof -
  have len: "length (ez_chunks zone) = mx" using ok by (simp add: pool_zone_ok_def)
  have u: "zone_used mx (zone_without_chunk c zone) = zone_used mx zone - {c}"
    using len c(1) by (auto simp: zone_used_def zone_without_chunk_def nth_list_update split: if_splits)
  have "c \<in> zone_used mx zone" "finite (zone_used mx zone)" using c by (simp_all add: zone_used_def)
  then have "Suc (card (zone_used mx (zone_without_chunk c zone))) = card (zone_used mx zone)"
    unfolding u by (metis card_Suc_Diff1)
  then have "ez_chunks_in_use zone - 1 = of_nat (card (zone_used mx (zone_without_chunk c zone)))"
    using ok by (simp add: pool_zone_ok_def flip: \<open>Suc _ = _\<close>)
  then have "ez_chunks_in_use (zone_without_chunk c zone) = of_nat (card (zone_used mx (zone_without_chunk c zone)))"
    by (simp add: zone_without_chunk_def)
  moreover have "zp_zone (ez_chunks (zone_without_chunk c zone) ! k) = of_nat z \<and>
      zp_chunk_offset (ez_chunks (zone_without_chunk c zone) ! k) = of_nat k"
    if "k < mx" "zp_in_use (ez_chunks (zone_without_chunk c zone) ! k)" for k
    using that ok len c(1) by (cases "k = c") (simp_all add: pool_zone_ok_def zone_without_chunk_def)
  ultimately show ?thesis using h len unfolding pool_zone_ok_def by (auto simp: zone_without_chunk_def)
qed

text \<open>
  The policy and the rest of the cache agree: every chunk in use lies in a filled zone and holds a
  located identifier.
\<close>

definition chunk_cache_ok :: "nat \<Rightarrow> nat \<Rightarrow> zn_policy_chunk \<Rightarrow> 'm zn_core_scheme \<Rightarrow> bool" where
  "chunk_cache_ok nz mx p cache \<longleftrightarrow> chunk_inv nz mx p \<and> cachemap_inv nz (zc_cache_map cache) \<and>
     length (zs_state (zc_zone_state cache)) = nz \<and>
     (\<forall>(z, c) \<in> set (chunk_order p). ez_filled (pool_zone p z) \<and>
        (\<exists>i q. cm_slot (zc_cache_map cache) i = Located q \<and> unat (zp_zone q) = z \<and> unat (zp_chunk_offset q) = c))"

lemma chunk_evict_one_ok:
  assumes ok: "chunk_cache_ok nz mx p cache" and ord: "chunk_order p = (z, c) # rest"
  shows "\<exists>p' cache'. chunk_evict_one nd (p, cache) = Inr (p', cache') \<and> chunk_cache_ok nz mx p' cache' \<and>
    chunk_order p' = rest \<and>
    (\<forall>i q. cm_slot (zc_cache_map cache') i = Located q \<longleftrightarrow>
       cm_slot (zc_cache_map cache) i = Located q \<and> (unat (zp_zone q), unat (zp_chunk_offset q)) \<noteq> (z, c)) \<and>
    zs_state (zc_zone_state cache') = (zs_state (zc_zone_state cache))[z := (zs_state (zc_zone_state cache) ! z)
       \<lparr>zz_invalid := zz_invalid (zs_state (zc_zone_state cache) ! z) @ [of_nat c]\<rparr>]"
proof -
  have inv: "chunk_inv nz mx p" and cm: "cachemap_inv nz (zc_cache_map cache)" and len: "length (zs_state (zc_zone_state cache)) = nz"
    using ok by (simp_all add: chunk_cache_ok_def)
  note I = chunk_invD [OF inv]
  have zc: "z < nz" "c < mx" "chunk_used p z c" using I(6) [of z c] ord by simp_all
  obtain i q where i: "ez_filled (pool_zone p z)" "cm_slot (zc_cache_map cache) i = Located q" "unat (zp_zone q) = z" "unat (zp_chunk_offset q) = c"
    using ok ord by (auto simp: chunk_cache_ok_def)
  define zone where "zone = pool_zone p z"
  define pair where "pair = ez_chunks zone ! c"
  have zok: "pool_zone_ok mx (cp_invalid_pqueue p) z zone" using I(7) [OF zc(1)] by (simp add: zone_def)
  have use: "zp_in_use pair" using zc(3) by (simp add: chunk_used_def pair_def zone_def)
  have fields: "zp_zone pair = of_nat z" "zp_chunk_offset pair = of_nat c"
    using zok zc(2) use by (auto simp: pool_zone_ok_def pair_def)
  have un: "unat (of_nat z :: u32) = z" "unat (of_nat c :: u32) = c" using zc(1,2) I(1,2) by (simp_all add: unat_of_nat_u32)
  obtain e where e: "ez_pqueue_entry zone = Init e" "mh_contents (cp_invalid_pqueue p) e = Some (z, ez_chunks_in_use zone)"
    using zok i(1) by (auto simp: pool_zone_ok_def zone_def)
  have "unat (mh_size (cp_invalid_pqueue p)) < 2 ^ 31"
    using I(9) filled_zones_bound [of nz "\<lambda>y. ez_filled (pool_zone p y)"] I(1) by linarith
  then obtain heap where h: "zn_minheap_update_by_entry (cp_invalid_pqueue p) (Some e) (ez_chunks_in_use zone - 1) = Inr (0, heap)" "mh_wf heap"
    "mh_contents heap = (mh_contents (cp_invalid_pqueue p))(e \<mapsto> (z, ez_chunks_in_use zone - 1))"
    "unat (mh_size heap) = unat (mh_size (cp_invalid_pqueue p))"
    using mh.upd_law [OF I(8) _ e(2)] by blast
  obtain q' where q': "g_queue_pop_head (cp_lru_queue p) = (Some (z, c), q')"
    "lru_ok q' ((cp_chunk_to_lru_map p)((z, c) \<mapsto> None))" "gq_data q' = rest"
    using lru_pop [OF I(4)] ord by (auto simp: chunk_order_def)
  have sp: "same_place q pair"
    unfolding same_place_def unat_inject [symmetric] fields un i(3,4) by simp
  obtain cm' where cm': "zn_cachemap_clear_chunk nd pair (zc_cache_map cache) = Inr cm'" "cachemap_inv nz cm'"
    "cm_slot cm' = (cm_slot (zc_cache_map cache))(i := Absent)"
    using cm.clear_chunk_law [OF cm i(2) sp, of nd] by blast
  define zs' where "zs' = set_zone z ((zs_state (zc_zone_state cache) ! z)\<lparr>zz_invalid := zz_invalid (zs_state (zc_zone_state cache) ! z) @ [of_nat c]\<rparr>)
    (zc_zone_state cache)"
  define p' where "p' = p\<lparr>cp_lru_queue := q', cp_chunk_to_lru_map := (cp_chunk_to_lru_map p)((z, c) \<mapsto> None),
    cp_zone_pool := (cp_zone_pool p)[z := zone_without_chunk c zone], cp_invalid_pqueue := heap\<rparr>"
  define cache' where "cache' = cache\<lparr>zc_zone_state := zs', zc_cache_map := cm'\<rparr>"
  have get: "pool_get (p\<lparr>cp_lru_queue := q', cp_chunk_to_lru_map := m\<rparr>) z c = Inr (zone, pair)" for m
    using pool_get_ok [OF inv zc(1,2)] by (simp add: pool_get_def zone_def pair_def)
  have zwc: "zone_without_chunk c zone = zone\<lparr>ez_chunks := (ez_chunks zone)[c := pair\<lparr>zp_in_use := False\<rparr>],
      ez_chunks_in_use := ez_chunks_in_use zone - 1\<rparr>" by (simp add: zone_without_chunk_def pair_def)
  have run: "chunk_evict_one nd (p, cache) = Inr (p', cache')"
    using q'(1) get e(1) h(1) cm'(1) zc(1) len
    by (simp add: chunk_evict_one_def fields un zsm_mark_chunk_invalid_def arr_get_def Let_def p'_def cache'_def zs'_def
        zwc pool_set_zone_def)
  have ord': "chunk_order p' = rest" using q'(3) by (simp add: chunk_order_def p'_def)
  have dist: "(z, c) \<notin> set rest" using lru_okD(2) [OF I(4)] ord by (simp add: chunk_order_def)
  have us: "chunk_used p' y k \<longleftrightarrow> chunk_used p y k \<and> (y, k) \<noteq> (z, c)" if "y < nz" "k < mx" for y k
    using that zok I(3) by (cases "y = z"; cases "k = c")
      (simp_all add: chunk_used_def p'_def zone_without_chunk_def pool_zone_ok_def zone_def)
  have fl: "ez_filled (pool_zone p' y) \<longleftrightarrow> ez_filled (pool_zone p y)" if "y < nz" for y
    using that I(3) by (cases "y = z") (simp_all add: p'_def zone_without_chunk_def zone_def)
  have "chunk_inv nz mx p'"
    unfolding chunk_inv_def
  proof (intro conjI allI impI)
    fix y k
    show "(y, k) \<in> set (chunk_order p') \<longleftrightarrow> y < nz \<and> k < mx \<and> chunk_used p' y k"
      using I(6) [of y k] us [of y k] dist unfolding ord' ord by auto
  next
    fix y assume y: "y < nz"
    show "pool_zone_ok mx (cp_invalid_pqueue p') y (pool_zone p' y)"
    proof (cases "y = z")
      case True
      then show ?thesis using zone_without_chunk_ok [OF zok zc(2) _ e(1), of heap] use h(3) I(3) zc(1) by (simp add: p'_def pair_def)
    next
      case False
      have "pool_zone_ok mx heap y (pool_zone p y)"
        by (rule pool_zone_ok_heap [OF I(7) [OF y]]) (use False e(2) h(3) in auto)
      then show ?thesis using False by (simp add: p'_def)
    qed
  next
    show "unat (mh_size (cp_invalid_pqueue p')) = card {y. y < nz \<and> ez_filled (pool_zone p' y)}"
      using I(9) h(4) fl by (simp add: p'_def cong: conj_cong)
  qed (use I(1-5) q'(2) h(2) in \<open>auto simp: p'_def\<close>)
  moreover have keep: "cm_slot cm' j = Located r \<longleftrightarrow> cm_slot (zc_cache_map cache) j = Located r \<and>
      (unat (zp_zone r), unat (zp_chunk_offset r)) \<noteq> (z, c)" for j r
  proof (cases "j = i")
    case False
    have "\<not> same_place r q" if "cm_slot (zc_cache_map cache) j = Located r" using cm.located_once [OF cm that i(2)] False by blast
    then show ?thesis using False cm'(3) i(3,4) by (auto simp: same_place_def)
  qed (use cm'(3) i in auto)
  moreover have "\<forall>(y, k) \<in> set rest. ez_filled (pool_zone p' y) \<and>
      (\<exists>j r. cm_slot cm' j = Located r \<and> unat (zp_zone r) = y \<and> unat (zp_chunk_offset r) = k)"
  proof (clarify)
    fix y k assume m: "(y, k) \<in> set rest"
    then obtain j r where "ez_filled (pool_zone p y)" "cm_slot (zc_cache_map cache) j = Located r" "unat (zp_zone r) = y" "unat (zp_chunk_offset r) = k"
      using ok ord by (auto simp: chunk_cache_ok_def)
    moreover have "y < nz" using I(6) [of y k] m ord by simp
    moreover have "(y, k) \<noteq> (z, c)" using m dist by auto
    ultimately show "ez_filled (pool_zone p' y) \<and>
      (\<exists>j r. cm_slot cm' j = Located r \<and> unat (zp_zone r) = y \<and> unat (zp_chunk_offset r) = k)"
      using fl keep by blast
  qed
  ultimately have "chunk_cache_ok nz mx p' cache'"
    using cm'(2) len ord' by (simp add: chunk_cache_ok_def cache'_def zs'_def)
  then show ?thesis using run ord' keep by (intro exI [of _ p'] exI [of _ cache']) (simp add: cache'_def zs'_def)
qed

lemma chunk_evict_loop_ok:
  "chunk_cache_ok nz mx p cache \<Longrightarrow> n \<le> length (chunk_order p) \<Longrightarrow>
   \<exists>p' cache'. chunk_evict_loop nd n (p, cache) = Inr (p', cache') \<and> chunk_cache_ok nz mx p' cache' \<and>
     chunk_order p' = drop n (chunk_order p) \<and>
     (\<forall>i q. cm_slot (zc_cache_map cache') i = Located q \<longleftrightarrow>
        cm_slot (zc_cache_map cache) i = Located q \<and>
        (unat (zp_zone q), unat (zp_chunk_offset q)) \<notin> set (take n (chunk_order p)))"
proof (induction n arbitrary: p cache)
  case (Suc n)
  then obtain z c rest where ord: "chunk_order p = (z, c) # rest" by (cases "chunk_order p") auto
  from chunk_evict_one_ok [OF Suc.prems(1) ord, of nd] obtain p1 cache1 where
    1: "chunk_evict_one nd (p, cache) = Inr (p1, cache1)" "chunk_cache_ok nz mx p1 cache1" "chunk_order p1 = rest"
    "\<forall>i q. cm_slot (zc_cache_map cache1) i = Located q \<longleftrightarrow>
       cm_slot (zc_cache_map cache) i = Located q \<and> (unat (zp_zone q), unat (zp_chunk_offset q)) \<noteq> (z, c)" by blast
  from Suc.IH [OF 1(2)] Suc.prems(2) ord 1(3) obtain p2 cache2 where
    2: "chunk_evict_loop nd n (p1, cache1) = Inr (p2, cache2)" "chunk_cache_ok nz mx p2 cache2" "chunk_order p2 = drop n rest"
    "\<forall>i q. cm_slot (zc_cache_map cache2) i = Located q \<longleftrightarrow> cm_slot (zc_cache_map cache1) i = Located q \<and>
        (unat (zp_zone q), unat (zp_chunk_offset q)) \<notin> set (take n rest)" by auto
  then show ?case using 1 ord by (intro exI [of _ p2] exI [of _ cache2]) auto
qed simp

section \<open>Properties\<close>

text \<open>A sequence of accesses, and which ones the cache makes: writes of free chunks of zones that are not full.\<close>

fun chunk_run :: "bool \<Rightarrow> u64 \<Rightarrow> (zn_pair \<times> zn_io_type) list \<Rightarrow> zn_policy_chunk \<Rightarrow> zn_policy_chunk res" where
  "chunk_run nd mzc [] p = Inr p"
| "chunk_run nd mzc ((loc, io) # es) p = bind_res (zn_policy_chunk_update nd mzc loc io p) (chunk_run nd mzc es)"

definition place_of :: "zn_pair \<Rightarrow> pair_ptr" where
  "place_of loc = (unat (zp_zone loc), unat (zp_chunk_offset loc))"

text \<open>The contract, over the history of uses: a write and a read of a written chunk are uses.\<close>

fun chunk_history :: "(zn_pair \<times> zn_io_type) list \<Rightarrow> pair_ptr list \<Rightarrow> pair_ptr list" where
  "chunk_history [] h = h"
| "chunk_history ((loc, ZN_WRITE) # es) h = chunk_history es (h @ [place_of loc])"
| "chunk_history ((loc, ZN_READ) # es) h = chunk_history es (if place_of loc \<in> set h then h @ [place_of loc] else h)"

text \<open>Chunks lie on the device; a chunk is written once, and no chunk of a zone after its last one.\<close>

fun chunk_legal :: "nat \<Rightarrow> nat \<Rightarrow> (zn_pair \<times> zn_io_type) list \<Rightarrow> pair_ptr list \<Rightarrow> bool" where
  "chunk_legal nz mx [] h \<longleftrightarrow> True"
| "chunk_legal nz mx ((loc, io) # es) h \<longleftrightarrow>
     unat (zp_zone loc) < nz \<and> unat (zp_chunk_offset loc) < mx \<and>
     (io = ZN_WRITE \<longrightarrow> place_of loc \<notin> set h \<and> (unat (zp_zone loc), mx - 1) \<notin> set h) \<and>
     chunk_legal nz mx es (chunk_history [(loc, io)] h)"

lemma touch_history: "xs = remdups h \<Longrightarrow> touch x xs = remdups (if x \<in> set h then h @ [x] else h)"
  by (auto simp: touch_def remdups_snoc)

lemma chunk_run_ok:
  assumes "unat mzc = mx"
  shows "chunk_inv nz mx p \<Longrightarrow> chunk_order p = remdups h \<Longrightarrow>
    (\<forall>z < nz. ez_filled (pool_zone p z) \<longleftrightarrow> (z, mx - 1) \<in> set h) \<Longrightarrow> chunk_legal nz mx es h \<Longrightarrow>
    \<exists>p'. chunk_run nd mzc es p = Inr p' \<and> chunk_inv nz mx p' \<and> chunk_order p' = remdups (chunk_history es h) \<and>
      (\<forall>z < nz. ez_filled (pool_zone p' z) \<longleftrightarrow> (z, mx - 1) \<in> set (chunk_history es h))"
proof (induction es arbitrary: p h)
  case (Cons e es)
  obtain loc io where e: "e = (loc, io)" by fastforce
  have l: "unat (zp_zone loc) < nz" "unat (zp_chunk_offset loc) < mx" "chunk_legal nz mx es (chunk_history [(loc, io)] h)"
    "io = ZN_WRITE \<Longrightarrow> place_of loc \<notin> set h \<and> (unat (zp_zone loc), mx - 1) \<notin> set h"
    using Cons.prems(4) e by auto
  obtain p1 where 1: "zn_policy_chunk_update nd mzc loc io p = Inr p1" "chunk_inv nz mx p1"
    "chunk_order p1 = remdups (chunk_history [(loc, io)] h)"
    "\<forall>z < nz. ez_filled (pool_zone p1 z) \<longleftrightarrow> (z, mx - 1) \<in> set (chunk_history [(loc, io)] h)"
  proof (cases io)
    case ZN_WRITE
    have "(unat (zp_zone loc), unat (zp_chunk_offset loc)) \<notin> set (chunk_order p)"
      using l(4) [OF ZN_WRITE] Cons.prems(2) by (simp add: place_of_def)
    then have free: "\<not> chunk_used p (unat (zp_zone loc)) (unat (zp_chunk_offset loc))"
      using chunk_invD(6) [OF Cons.prems(1), of "unat (zp_zone loc)" "unat (zp_chunk_offset loc)"] l(1,2) by simp
    have nf: "\<not> ez_filled (pool_zone p (unat (zp_zone loc)))" using Cons.prems(3) l(1) l(4) [OF ZN_WRITE] by simp
    from chunk_write_ok [OF Cons.prems(1) l(1,2) free nf assms, of nd] obtain p' where
      "zn_policy_chunk_update nd mzc loc ZN_WRITE p = Inr p'" "chunk_inv nz mx p'" "chunk_order p' = chunk_order p @ [place_of loc]"
      "\<forall>y < nz. ez_filled (pool_zone p' y) \<longleftrightarrow> ez_filled (pool_zone p y) \<or> y = unat (zp_zone loc) \<and> unat (zp_chunk_offset loc) + 1 = mx"
      by (auto simp: place_of_def)
    moreover have "unat (zp_chunk_offset loc) + 1 = mx \<longleftrightarrow> mx - 1 = unat (zp_chunk_offset loc)" using l(2) by auto
    ultimately show thesis using that [of p'] ZN_WRITE Cons.prems(2,3) l(4) [OF ZN_WRITE]
      by (auto simp: remdups_snoc_new place_of_def)
  next
    case ZN_READ
    from chunk_read_ok [OF Cons.prems(1) l(1,2), of nd mzc] obtain p' where
      p': "zn_policy_chunk_update nd mzc loc ZN_READ p = Inr p'" "chunk_inv nz mx p'" "chunk_order p' = touch (place_of loc) (chunk_order p)"
      "cp_zone_pool p' = cp_zone_pool p" by (auto simp: place_of_def)
    moreover have "set (if place_of loc \<in> set h then h @ [place_of loc] else h) = set h" by auto
    ultimately show thesis using that [of p'] ZN_READ Cons.prems(3) touch_history [OF Cons.prems(2), of "place_of loc"] by simp
  qed
  have "chunk_history es (chunk_history [(loc, io)] h) = chunk_history (e # es) h" using e by (cases io) auto
  then show ?case using Cons.IH [OF 1(2-4) l(3)] 1(1) e by simp
qed auto



text \<open>Two zones of two chunks: one chunk written, then the whole first zone, with the identifiers 5 and 6.\<close>

definition sample_chunk_one :: zn_policy_chunk where
  "sample_chunk_one = projr (chunk_run False 2 [(pair_at 0 0, ZN_WRITE)] (chunk_init (\<lambda>_ _. pair_at 0 0) 2 2))"

definition sample_chunk_two :: zn_policy_chunk where
  "sample_chunk_two = projr (chunk_run False 2 [(pair_at 0 0, ZN_WRITE), (pair_at 0 1, ZN_WRITE)] (chunk_init (\<lambda>_ _. pair_at 0 0) 2 2))"

definition sample_chunk_map :: zn_cachemap where
  "sample_chunk_map = snd (projr (cm_run False [Op_Find 5, Op_Insert 5 (pair_at 0 0), Op_Find 6, Op_Insert 6 (pair_at 0 1)]
     (zn_cachemap_init 2 (replicate 2 0))))"

definition sample_chunk_cache :: zn_core where
  "sample_chunk_cache = \<lparr>zc_backend = ZE_BACKEND_ZNS, zc_fd = 3, zc_max_nr_active_zones = 1, zc_nr_zones = 2, zc_max_zone_chunks = 2,
     zc_chunk_sz = 4096, zc_zone_cap = 8192, zc_zone_size = 8192, zc_io_size = 4096, zc_cache_map = sample_chunk_map,
     zc_zone_state = sample_zsm,
     zc_reader = \<lparr>rd_workload_index = 0, rd_workload_buffer = [], rd_workload_max = 0, rd_thresh_perc = 0\<rparr>,
     zc_ratio = \<lparr>hr_hits = 0, hr_misses = 0\<rparr>\<rparr>"

lemma sample_chunk_one_ok:
  "chunk_inv 2 2 sample_chunk_one" "chunk_order sample_chunk_one = [(0, 0)]" "ez_pqueue_entry (pool_zone sample_chunk_one 0) = Indet"
proof -
  have "chunk_inv 2 2 sample_chunk_one \<and> chunk_order sample_chunk_one = [(0, 0)]"
    using chunk_run_ok [of 2 2 2 "chunk_init (\<lambda>_ _. pair_at 0 0) 2 2" "[]" "[(pair_at 0 0, ZN_WRITE)]" False]
      chunk_init_inv [of 2 2, where garbage = "\<lambda>_ _. pair_at 0 0"]
    by (auto simp: sample_chunk_one_def pair_at_def place_of_def)
  then show "chunk_inv 2 2 sample_chunk_one" "chunk_order sample_chunk_one = [(0, 0)]" by simp_all
  show "ez_pqueue_entry (pool_zone sample_chunk_one 0) = Indet" by code_simp
qed

lemma sample_chunk_two_ok:
  "chunk_cache_ok 2 2 sample_chunk_two sample_chunk_cache" "chunk_order sample_chunk_two = [(0, 0), (0, 1)]"
  "cm_slot (zc_cache_map sample_chunk_cache) 5 = Located (pair_at 0 0)"
proof -
  have p: "chunk_inv 2 2 sample_chunk_two" "chunk_order sample_chunk_two = [(0, 0), (0, 1)]" "ez_filled (pool_zone sample_chunk_two 0)"
    using chunk_run_ok [of 2 2 2 "chunk_init (\<lambda>_ _. pair_at 0 0) 2 2" "[]" "[(pair_at 0 0, ZN_WRITE), (pair_at 0 1, ZN_WRITE)]" False]
      chunk_init_inv [of 2 2, where garbage = "\<lambda>_ _. pair_at 0 0"]
    by (auto simp: sample_chunk_two_def pair_at_def place_of_def)
  have run: "spec_run 2 [Op_Find 5, Op_Insert 5 (pair_at 0 0), Op_Find 6, Op_Insert 6 (pair_at 0 1)] (\<lambda>_. Absent)
      [To_Write, Done, To_Write, Done]
      ((\<lambda>_. Absent)(5 := Pending, 5 := Located (pair_at 0 0), 6 := Pending, 6 := Located (pair_at 0 1)))"
    apply (rule spec_run.step [OF spec_step.find_miss], simp)
    apply (rule spec_run.step [OF spec_step.insert], simp, simp add: id_ok_def, simp add: pair_at_def, simp add: place_free_def)
    apply (rule spec_run.step [OF spec_step.find_miss], simp)
    apply (rule spec_run.step [OF spec_step.insert], simp, simp add: id_ok_def, simp add: pair_at_def,
        simp add: place_free_def same_place_def pair_at_def)
    apply (rule spec_run.empty)
    done
  have m: "cachemap_inv 2 sample_chunk_map" "cm_slot sample_chunk_map = (\<lambda>_. Absent)(5 := Located (pair_at 0 0), 6 := Located (pair_at 0 1))"
    using cm_run_refines [OF run init_ok(1), of False] by (auto simp: sample_chunk_map_def fun_eq_iff init_ok(2))
  have "cm_slot sample_chunk_map 5 = Located (pair_at 0 0)" "cm_slot sample_chunk_map 6 = Located (pair_at 0 1)"
    by (simp_all add: m(2))
  then have "\<exists>i q. cm_slot sample_chunk_map i = Located q \<and> unat (zp_zone q) = 0 \<and> unat (zp_chunk_offset q) = 0"
    "\<exists>i q. cm_slot sample_chunk_map i = Located q \<and> unat (zp_zone q) = 0 \<and> unat (zp_chunk_offset q) = 1"
    by (metis pair_at_def zn_pair.select_convs(1,2) unat_0 unat_1)+
  then show "chunk_cache_ok 2 2 sample_chunk_two sample_chunk_cache"
    unfolding chunk_cache_ok_def using p m(1) by (simp add: sample_chunk_cache_def sample_zsm_def)
  show "chunk_order sample_chunk_two = [(0, 0), (0, 1)]" by (rule p(2))
  show "cm_slot (zc_cache_map sample_chunk_cache) 5 = Located (pair_at 0 0)" by (simp add: sample_chunk_cache_def m(2))
qed

text \<open>C20. An eviction of \<open>n\<close> chunks takes exactly the \<open>n\<close> least recently used ones when they lie in filled
  zones: these chunks leave the queue, the identifiers located there and no others are forgotten,
  and the policy, its heap and the cache map stay consistent.\<close>

theorem chunk_evict_takes_oldest:
  assumes "chunk_cache_ok nz mx p cache" and "n \<le> length (chunk_order p)"
  shows "\<exists>p' cache'. chunk_evict_loop nd n (p, cache) = Inr (p', cache') \<and> chunk_cache_ok nz mx p' cache' \<and>
     chunk_order p' = drop n (chunk_order p) \<and>
     (\<forall>i q. cm_slot (zc_cache_map cache') i = Located q \<longleftrightarrow>
        cm_slot (zc_cache_map cache) i = Located q \<and>
        (unat (zp_zone q), unat (zp_chunk_offset q)) \<notin> set (take n (chunk_order p)))"
  using assms by (rule chunk_evict_loop_ok)

theorem chunk_evict_takes_oldest_witness:
  "\<exists>p' cache'. chunk_evict_loop False 1 (sample_chunk_two, sample_chunk_cache) = Inr (p', cache') \<and>
    chunk_order p' = [(0, 1)] \<and> (\<nexists>q. cm_slot (zc_cache_map cache') 5 = Located q)"
proof -
  obtain p' cache' where r: "chunk_evict_loop False 1 (sample_chunk_two, sample_chunk_cache) = Inr (p', cache')"
    "chunk_order p' = drop 1 (chunk_order sample_chunk_two)"
    "\<forall>i q. cm_slot (zc_cache_map cache') i = Located q \<longleftrightarrow> cm_slot (zc_cache_map sample_chunk_cache) i = Located q \<and>
        (unat (zp_zone q), unat (zp_chunk_offset q)) \<notin> set (take 1 (chunk_order sample_chunk_two))"
    using chunk_evict_takes_oldest [OF sample_chunk_two_ok(1), of 1 False] sample_chunk_two_ok(2) by auto
  show ?thesis using r sample_chunk_two_ok(2,3) by (auto simp: pair_at_def)
qed





end
