(* ===== verification/ZN_Print.thy ===== *)
theory ZN_Print
  imports ZN_Chunk_Correct ZN_Cache
begin

text \<open>
  The functions of \<open>src/znutil.c\<close> that print the data structures, and the places that call them in debug
  builds. What is printed is a string. A pointer is given by what it points to, so that reading it under the wrong
  tag, or after its target is gone, is an error.
\<close>

section \<open>Formats\<close>

definition digits :: string where
  "digits = ''0123456789''"

fun show_nat :: "nat \<Rightarrow> string" where
  "show_nat n = (if n < 10 then [digits ! n] else show_nat (n div 10) @ [digits ! (n mod 10)])"

declare show_nat.simps [simp del]

text \<open>\<open>%u\<close>, \<open>%d\<close> and the texts for a flag and for the condition of a zone.\<close>

definition fmt_u :: "u32 \<Rightarrow> string" where
  "fmt_u w = show_nat (unat w)"

definition fmt_d :: "u32 \<Rightarrow> string" where
  "fmt_d w = (if sint w < 0 then CHR ''-'' # show_nat (nat (- sint w)) else show_nat (nat (sint w)))"

definition fmt_bool :: "bool \<Rightarrow> string" where
  "fmt_bool b = (if b then ''true'' else ''false'')"

fun state_str :: "zn_zone_condition \<Rightarrow> string" where
  "state_str ZN_ZONE_FREE = ''FREE''"
| "state_str ZN_ZONE_FULL = ''FULL''"
| "state_str ZN_ZONE_ACTIVE = ''ACTIVE''"
| "state_str ZN_ZONE_WRITE_OCCURING = ''WRITE_OCCURING''"

section \<open>Pointers\<close>

text \<open>
  A \<open>gpointer\<close>: null, an integer stored in a pointer, a link of a queue, a \<open>struct zn_pair\<close> of the pool of the chunk
  policy, or a \<open>struct zn_zone\<close>. The memory gives what the last three hold.
\<close>

datatype gpointer = GNull | GInt u64 | GLink ptr | GPair "nat \<times> nat" | GZone nat

record print_memory =
  mem_link :: "ptr \<Rightarrow> gpointer res"
  mem_pair :: "nat \<times> nat \<Rightarrow> zn_pair res"
  mem_zone :: "nat \<Rightarrow> zn_zone res"

definition as_int :: "gpointer \<Rightarrow> u32 res" where
  "as_int v = (case v of GInt i \<Rightarrow> Inr (GPOINTER_TO_INT i) | GNull \<Rightarrow> Inr 0 | _ \<Rightarrow> Inl Bad_Pointer)"

definition link_data :: "print_memory \<Rightarrow> gpointer \<Rightarrow> gpointer res" where
  "link_data H v = (case v of GLink n \<Rightarrow> mem_link H n | GNull \<Rightarrow> Inl Null_Deref | _ \<Rightarrow> Inl Bad_Pointer)"

definition as_pair :: "print_memory \<Rightarrow> gpointer \<Rightarrow> zn_pair res" where
  "as_pair H v = (case v of GPair p \<Rightarrow> mem_pair H p | GNull \<Rightarrow> Inl Null_Deref | _ \<Rightarrow> Inl Bad_Pointer)"

definition as_zone :: "print_memory \<Rightarrow> gpointer \<Rightarrow> zn_zone res" where
  "as_zone H v = (case v of GZone z \<Rightarrow> mem_zone H z | GNull \<Rightarrow> Inl Null_Deref | _ \<Rightarrow> Inl Bad_Pointer)"

section \<open>Hash tables\<close>

datatype print_g_hash_table_type =
    PRINT_G_HASH_TABLE_GINT
  | PRINT_G_HASH_TABLE_PROM_LRU_NODE
  | PRINT_G_HASH_TABLE_ZN_PAIR
  | PRINT_G_HASH_TABLE_ZN_PAIR_NODE

definition pair_text :: "zn_pair \<Rightarrow> string" where
  "pair_text zp = ''(zone='' @ fmt_u (zp_zone zp) @ '', chunk='' @ fmt_u (zp_chunk_offset zp) @ '', id='' @ fmt_u (zp_id zp) @
     '', in_use='' @ fmt_bool (zp_in_use zp) @ '')''"

definition print_g_hash_table_zn_pair :: "print_memory \<Rightarrow> gpointer \<Rightarrow> gpointer \<Rightarrow> string res" where
  "print_g_hash_table_zn_pair H key v =
     bind_res (as_int key) (\<lambda>k.
       if v = GNull then Inr (''['' @ fmt_d k @ '': (NULL)], '')
       else bind_res (as_pair H v) (\<lambda>zp. Inr (''['' @ fmt_d k @ '': '' @ pair_text zp @ ''], '')))"

definition print_g_hash_table_prom_lru_node :: "print_memory \<Rightarrow> gpointer \<Rightarrow> gpointer \<Rightarrow> string res" where
  "print_g_hash_table_prom_lru_node H key v =
     bind_res (as_int key) (\<lambda>k.
       if v = GNull then Inr (''['' @ fmt_d k @ '': NULL], '')
       else bind_res (link_data H v) (\<lambda>data. bind_res (as_int data) (\<lambda>i. Inr (''['' @ fmt_d k @ '': '' @ fmt_u i @ ''], ''))))"

text \<open>\<open>fmt_p\<close> is the text of \<open>%p\<close>, which the implementation chooses.\<close>

definition print_g_hash_table_zn_pair_node :: "print_memory \<Rightarrow> (gpointer \<Rightarrow> string) \<Rightarrow> gpointer \<Rightarrow> gpointer \<Rightarrow> string res" where
  "print_g_hash_table_zn_pair_node H fmt_p key v =
     (if v = GNull then Inr (''['' @ fmt_p key @ '': (NULL)], '')
      else bind_res (link_data H v) (\<lambda>data. bind_res (as_pair H data) (\<lambda>zp. Inr (''['' @ fmt_p key @ '': '' @ pair_text zp @ ''], ''))))"

definition print_g_hash_table_g_int :: "gpointer \<Rightarrow> gpointer \<Rightarrow> string res" where
  "print_g_hash_table_g_int key v =
     bind_res (as_int key) (\<lambda>k. bind_res (as_int v) (\<lambda>i. Inr (''['' @ fmt_d k @ '': '' @ fmt_d i @ ''], '')))"

definition print_entry :: "print_memory \<Rightarrow> (gpointer \<Rightarrow> string) \<Rightarrow> print_g_hash_table_type \<Rightarrow> gpointer \<times> gpointer \<Rightarrow> string res" where
  "print_entry H fmt_p ty = (\<lambda>(key, v). case ty of
       PRINT_G_HASH_TABLE_GINT \<Rightarrow> print_g_hash_table_g_int key v
     | PRINT_G_HASH_TABLE_ZN_PAIR \<Rightarrow> print_g_hash_table_zn_pair H key v
     | PRINT_G_HASH_TABLE_ZN_PAIR_NODE \<Rightarrow> print_g_hash_table_zn_pair_node H fmt_p key v
     | PRINT_G_HASH_TABLE_PROM_LRU_NODE \<Rightarrow> print_g_hash_table_prom_lru_node H key v)"

text \<open>The loops: the texts of the elements one after the other, up to the first error.\<close>

fun print_all :: "('a \<Rightarrow> string res) \<Rightarrow> 'a list \<Rightarrow> string res" where
  "print_all f [] = Inr []"
| "print_all f (x # xs) = bind_res (f x) (\<lambda>s. bind_res (print_all f xs) (\<lambda>t. Inr (s @ t)))"

text \<open>The entries come in the order of the iterator, which GLib does not specify.\<close>

definition print_g_hash_table :: "print_memory \<Rightarrow> (gpointer \<Rightarrow> string) \<Rightarrow> string \<Rightarrow> (gpointer \<times> gpointer) list \<Rightarrow>
    print_g_hash_table_type \<Rightarrow> string res" where
  "print_g_hash_table H fmt_p name hash_table ty =
     bind_res (print_all (print_entry H fmt_p ty) hash_table) (\<lambda>s. Inr (''hash table '' @ name @ '': '' @ s @ [CHR 0x0A]))"

section \<open>Queues and lists\<close>

datatype print_g_queue_type = PRINT_G_QUEUE_GINT | PRINT_G_QUEUE_ZN_ZONE | PRINT_G_QUEUE_ZN_PAIR

definition print_g_queue_zn_zone :: "zn_zone \<Rightarrow> string" where
  "print_g_queue_zn_zone zn =
     ''('' @ fmt_d (zz_zone_id zn) @ '','' @ fmt_d (zz_chunk_offset zn) @ '','' @ state_str (zz_state zn) @ ''), ''"

definition print_g_queue_zn_pair :: "zn_pair \<Rightarrow> string" where
  "print_g_queue_zn_pair zp = ''('' @ fmt_u (zp_zone zp) @ '','' @ fmt_u (zp_chunk_offset zp) @ '','' @ fmt_u (zp_id zp) @ '','' @
     fmt_bool (zp_in_use zp) @ ''), ''"

definition print_node :: "print_memory \<Rightarrow> print_g_queue_type \<Rightarrow> gpointer \<Rightarrow> string res" where
  "print_node H ty v = (case ty of
       PRINT_G_QUEUE_ZN_ZONE \<Rightarrow> bind_res (as_zone H v) (\<lambda>zn. Inr (print_g_queue_zn_zone zn))
     | PRINT_G_QUEUE_ZN_PAIR \<Rightarrow> bind_res (as_pair H v) (\<lambda>zp. Inr (print_g_queue_zn_pair zp))
     | PRINT_G_QUEUE_GINT \<Rightarrow> bind_res (as_int v) (\<lambda>i. Inr (fmt_d i @ '' '')))"

definition print_g_queue :: "print_memory \<Rightarrow> string \<Rightarrow> gpointer list \<Rightarrow> print_g_queue_type \<Rightarrow> string res" where
  "print_g_queue H name queue ty =
     bind_res (print_all (print_node H ty) queue) (\<lambda>s. Inr (''Printing queue '' @ name @ '': '' @ s @ [CHR 0x0A]))"

definition print_zn_pair_list :: "zn_pair list \<Rightarrow> u32 \<Rightarrow> string res" where
  "print_zn_pair_list xs len =
     bind_res (print_all (\<lambda>i. bind_res (arr_get xs i) (\<lambda>zp. Inr (''['' @ fmt_d (of_nat i) @ '': '' @ pair_text zp @ ''], '')))
       [0 ..< unat len]) (\<lambda>s. Inr (s @ [CHR 0x0A]))"

text \<open>\<open>struct zbd_info\<close> with the fields that are only printed.\<close>

record zbd_device_info = zbd_info +
  zi_vendor_id :: string
  zi_nr_sectors :: u64
  zi_nr_lblocks :: u64
  zi_nr_pblocks :: u64
  zi_zone_sectors :: u32
  zi_lblock_size :: u32
  zi_pblock_size :: u32
  zi_max_nr_open_zones :: u32
  zi_model :: u32

definition info_line :: "string \<Rightarrow> string \<Rightarrow> string" where
  "info_line label s = label @ ''='' @ s @ [CHR 0x0A]"

definition print_zbd_info :: "zbd_device_info \<Rightarrow> string" where
  "print_zbd_info info = concat
     [info_line ''vendor_id'' (zi_vendor_id info),
      info_line ''nr_sectors'' (show_nat (unat (zi_nr_sectors info))),
      info_line ''nr_lblocks'' (show_nat (unat (zi_nr_lblocks info))),
      info_line ''nr_pblocks'' (show_nat (unat (zi_nr_pblocks info))),
      info_line ''zone_size (bytes)'' (show_nat (unat (zi_zone_size info))),
      info_line ''zone_sectors'' (fmt_u (zi_zone_sectors info)),
      info_line ''lblock_size'' (fmt_u (zi_lblock_size info)),
      info_line ''pblock_size'' (fmt_u (zi_pblock_size info)),
      info_line ''nr_zones'' (fmt_u (zi_nr_zones info)),
      info_line ''max_nr_open_zones'' (fmt_u (zi_max_nr_open_zones info)),
      info_line ''max_nr_active_zones'' (fmt_u (zi_max_nr_active_zones info)),
      info_line ''model'' (fmt_u (zi_model info))]"

text \<open>The help text of the program, from \<open>src/zncache.c\<close>.\<close>

definition usage :: "string \<Rightarrow> string" where
  "usage progname = ''Usage: '' @ progname @
     '' <DEVICE> <CHUNK_SZ> <THREADS> [-w workload_file] [-i iterations] [-m metrics_file ] [ -h]'' @ [CHR 0x0A]"

section \<open>The calls in debug builds\<close>

text \<open>
  \<open>ks\<close> is the order in which the iterator visits the keys of a table. The promotional policy prints its queue of
  zones and the table from zones to links.
\<close>

definition node_pointer :: "ptr option option \<Rightarrow> gpointer" where
  "node_pointer v = (case v of Some (Some n) \<Rightarrow> GLink n | _ \<Rightarrow> GNull)"

definition promotional_memory :: "zn_policy_promotional \<Rightarrow> print_memory" where
  "promotional_memory p = \<lparr>mem_link = \<lambda>n. bind_res (node_data (pp_lru_queue p) n) (\<lambda>k. Inr (GInt k)),
     mem_pair = \<lambda>_. Inl Bad_Pointer, mem_zone = \<lambda>_. Inl Bad_Pointer\<rparr>"

definition promotional_print :: "(gpointer \<Rightarrow> string) \<Rightarrow> u64 list \<Rightarrow> zn_policy_promotional \<Rightarrow> string res" where
  "promotional_print fmt_p ks p =
     bind_res (print_g_queue (promotional_memory p) ''lru_queue'' (map GInt (gq_data (pp_lru_queue p))) PRINT_G_QUEUE_GINT) (\<lambda>s.
     bind_res (print_g_hash_table (promotional_memory p) fmt_p ''zone_to_lru_map''
         (map (\<lambda>k. (GInt k, node_pointer (pp_zone_to_lru_map p k))) ks) PRINT_G_HASH_TABLE_PROM_LRU_NODE) (\<lambda>t.
       Inr (s @ t)))"

text \<open>The chunk policy prints its queue of chunks and the table from chunks to links.\<close>

definition chunk_memory :: "zn_policy_chunk \<Rightarrow> print_memory" where
  "chunk_memory p = \<lparr>mem_link = \<lambda>n. bind_res (node_data (cp_lru_queue p) n) (\<lambda>k. Inr (GPair k)),
     mem_pair = \<lambda>(z, c). bind_res (pool_get p z c) (\<lambda>(_, zp). Inr zp), mem_zone = \<lambda>_. Inl Bad_Pointer\<rparr>"

definition chunk_print :: "(gpointer \<Rightarrow> string) \<Rightarrow> (nat \<times> nat) list \<Rightarrow> zn_policy_chunk \<Rightarrow> string res" where
  "chunk_print fmt_p ks p =
     bind_res (print_g_queue (chunk_memory p) ''lru_queue (zone,chunk,id,in_use)'' (map GPair (gq_data (cp_lru_queue p)))
         PRINT_G_QUEUE_ZN_PAIR) (\<lambda>s.
     bind_res (print_g_hash_table (chunk_memory p) fmt_p ''chunk_to_lru_map (id,zone,chunk,in_use)''
         (map (\<lambda>k. (GPair k, node_pointer (cp_chunk_to_lru_map p k))) ks) PRINT_G_HASH_TABLE_ZN_PAIR_NODE) (\<lambda>t.
       Inr (s @ t)))"

text \<open>\<open>zsm_get_active_zone\<close> prints the queue of active zones.\<close>

definition zsm_print :: "zone_state_manager \<Rightarrow> string res" where
  "zsm_print st = print_g_queue \<lparr>mem_link = \<lambda>_. Inl Bad_Pointer, mem_pair = \<lambda>_. Inl Bad_Pointer, mem_zone = arr_get (zs_state st)\<rparr>
     ''active queue (zone,chunk,state)'' (map GZone (zs_active st)) PRINT_G_QUEUE_ZN_ZONE"

section \<open>Debug output is type correct\<close>

lemma print_all_ok: "(\<And>x. x \<in> set xs \<Longrightarrow> f x = Inr (g x)) \<Longrightarrow> print_all f xs = Inr (concat (map g xs))"
  by (induction xs) simp_all

lemma print_all_map: "print_all f (map g xs) = print_all (f \<circ> g) xs"
  by (induction xs) simp_all

lemma lru_link:
  assumes "lru_ok q m"
  shows "node_pointer (m k) = (case g_hash_table_lookup m k of Some n \<Rightarrow> GLink n | None \<Rightarrow> GNull)"
    "g_hash_table_lookup m k = Some n \<Longrightarrow> node_data q n = Inr k" "g_hash_table_lookup m k = None \<longleftrightarrow> k \<notin> set (gq_data q)"
  using lru_use [OF assms, of k n] lru_lookup_None [OF assms, of k]
  by (auto simp: node_pointer_def g_hash_table_lookup_def split: option.split)

lemma promotional_print_ok:
  assumes "prom_inv p"
  shows "promotional_print fmt_p ks p = Inr (
    (''Printing queue lru_queue: '' @ concat (map (\<lambda>z. fmt_d z @ '' '') (prom_order p)) @ [CHR 0x0A]) @
    (''hash table zone_to_lru_map: '' @ concat (map (\<lambda>k. ''['' @ fmt_d (GPOINTER_TO_INT k) @ '': '' @
       (if k \<in> set (gq_data (pp_lru_queue p)) then fmt_u (GPOINTER_TO_INT k) else ''NULL'') @ ''], '') ks) @ [CHR 0x0A]))"
proof -
  have ok: "lru_ok (pp_lru_queue p) (pp_zone_to_lru_map p)" using assms by (simp add: prom_inv_def)
  note L = lru_link [OF ok]
  let ?H = "promotional_memory p"
  have "print_all (print_node ?H PRINT_G_QUEUE_GINT) (map GInt xs) = Inr (concat (map (\<lambda>k. fmt_d (GPOINTER_TO_UINT k) @ '' '') xs))" for xs
    by (induction xs) (simp_all add: print_node_def as_int_def GPOINTER_TO_INT_def GPOINTER_TO_UINT_def)
  note q = this [of "gq_data (pp_lru_queue p)"]
  have "print_entry ?H fmt_p PRINT_G_HASH_TABLE_PROM_LRU_NODE (GInt k, node_pointer (pp_zone_to_lru_map p k)) =
      Inr (''['' @ fmt_d (GPOINTER_TO_INT k) @ '': '' @
        (if k \<in> set (gq_data (pp_lru_queue p)) then fmt_u (GPOINTER_TO_INT k) else ''NULL'') @ ''], '')" for k
    using L(1,2,3) [of k] by (cases "g_hash_table_lookup (pp_zone_to_lru_map p) k")
      (auto simp: print_entry_def print_g_hash_table_prom_lru_node_def as_int_def link_data_def promotional_memory_def)
  then have "print_all (print_entry ?H fmt_p PRINT_G_HASH_TABLE_PROM_LRU_NODE) (map (\<lambda>k. (GInt k, node_pointer (pp_zone_to_lru_map p k))) ks) =
      Inr (concat (map (\<lambda>k. ''['' @ fmt_d (GPOINTER_TO_INT k) @ '': '' @
        (if k \<in> set (gq_data (pp_lru_queue p)) then fmt_u (GPOINTER_TO_INT k) else ''NULL'') @ ''], '') ks))" for ks
    by (induction ks) simp_all
  then show ?thesis unfolding promotional_print_def print_g_queue_def print_g_hash_table_def q
    by (simp add: prom_order_def o_def)
qed

lemma chunk_print_ok:
  assumes inv: "chunk_inv nz mx p"
  shows "chunk_print fmt_p ks p = Inr (
    (''Printing queue lru_queue (zone,chunk,id,in_use): '' @
      concat (map (\<lambda>(z, c). ''('' @ fmt_u (of_nat z) @ '','' @ fmt_u (of_nat c) @ '','' @
        fmt_u (zp_id (ez_chunks (pool_zone p z) ! c)) @ '',true), '') (chunk_order p)) @ [CHR 0x0A]) @
    (''hash table chunk_to_lru_map (id,zone,chunk,in_use): '' @
      concat (map (\<lambda>(z, c). ''['' @ fmt_p (GPair (z, c)) @ '': '' @
        (if (z, c) \<in> set (chunk_order p) then pair_text (ez_chunks (pool_zone p z) ! c) else ''(NULL)'') @ ''], '') ks) @ [CHR 0x0A]))"
proof -
  note I = chunk_invD [OF inv]
  note L = lru_link [OF I(4)]
  let ?H = "chunk_memory p" and ?pair = "\<lambda>k. ez_chunks (pool_zone p (fst k)) ! snd k"
  have pair: "mem_pair ?H k = Inr (?pair k)" "zp_zone (?pair k) = of_nat (fst k)" "zp_chunk_offset (?pair k) = of_nat (snd k)" "zp_in_use (?pair k)"
    if "k \<in> set (chunk_order p)" for k
  proof -
    obtain z c where k: "k = (z, c)" by (cases k)
    then have "z < nz" "c < mx" "chunk_used p z c" using that I(6) by simp_all
    then show "mem_pair ?H k = Inr (?pair k)" "zp_zone (?pair k) = of_nat (fst k)" "zp_chunk_offset (?pair k) = of_nat (snd k)"
      "zp_in_use (?pair k)"
      using pool_get_ok [OF inv] I(7) [of z] by (auto simp: chunk_memory_def k chunk_used_def pool_zone_ok_def)
  qed
  have "print_all (print_node ?H PRINT_G_QUEUE_ZN_PAIR \<circ> GPair) (chunk_order p) =
      Inr (concat (map (\<lambda>(z, c). ''('' @ fmt_u (of_nat z) @ '','' @ fmt_u (of_nat c) @ '','' @
        fmt_u (zp_id (ez_chunks (pool_zone p z) ! c)) @ '',true), '') (chunk_order p)))"
    by (rule print_all_ok)
      (use pair in \<open>auto simp: print_node_def as_pair_def print_g_queue_zn_pair_def fmt_bool_def\<close>)
  moreover have "print_all (\<lambda>k. print_entry ?H fmt_p PRINT_G_HASH_TABLE_ZN_PAIR_NODE (GPair k, node_pointer (cp_chunk_to_lru_map p k))) ks =
      Inr (concat (map (\<lambda>k. ''['' @ fmt_p (GPair k) @ '': '' @
        (if k \<in> set (chunk_order p) then pair_text (?pair k) else ''(NULL)'') @ ''], '') ks))"
  proof (rule print_all_ok)
    fix k
    show "print_entry ?H fmt_p PRINT_G_HASH_TABLE_ZN_PAIR_NODE (GPair k, node_pointer (cp_chunk_to_lru_map p k)) =
      Inr (''['' @ fmt_p (GPair k) @ '': '' @ (if k \<in> set (chunk_order p) then pair_text (?pair k) else ''(NULL)'') @ ''], '')"
      using L(1,3) [of k] L(2) [of k] pair(1) [of k]
      by (cases "g_hash_table_lookup (cp_chunk_to_lru_map p) k")
        (auto simp: print_entry_def print_g_hash_table_zn_pair_node_def as_pair_def link_data_def chunk_memory_def chunk_order_def)
  qed
  ultimately show ?thesis unfolding chunk_print_def print_g_queue_def print_g_hash_table_def
    by (simp add: print_all_map chunk_order_def case_prod_unfold o_def)
qed

lemma zsm_print_ok:
  assumes "zsm_inv st"
  shows "zsm_print st = Inr (''Printing queue active queue (zone,chunk,state): '' @
    concat (map (\<lambda>z. ''('' @ fmt_d (of_nat z) @ '','' @ fmt_d (zz_chunk_offset (zone_at st z)) @ '',ACTIVE), '') (zs_active st)) @ [CHR 0x0A])"
  unfolding zsm_print_def print_g_queue_def print_all_map
  by (subst print_all_ok [where g = "\<lambda>z. ''('' @ fmt_d (of_nat z) @ '','' @ fmt_d (zz_chunk_offset (zone_at st z)) @ '',ACTIVE), ''"])
    (use assms in \<open>auto simp: zsm_inv_def print_node_def as_zone_def arr_get_def print_g_queue_zn_zone_def zone_fine_def\<close>)

text \<open>C29. The calls by which the policies and the zone state manager print in debug builds what pointers lead to pass data of the type their tag names, follow no link that has been
  freed and print in full: the queue of a policy in its order of eviction, for each key of its table its
  own chunk or zone if that is queued and \<open>NULL\<close> if not, and the active zones.\<close>

theorem debug_output_type_correct:
  assumes "prom_inv p" and "chunk_inv nz mx q" and "zsm_inv st"
  shows "promotional_print fmt_p ks p = Inr (
      (''Printing queue lru_queue: '' @ concat (map (\<lambda>z. fmt_d z @ '' '') (prom_order p)) @ [CHR 0x0A]) @
      (''hash table zone_to_lru_map: '' @ concat (map (\<lambda>k. ''['' @ fmt_d (GPOINTER_TO_INT k) @ '': '' @
         (if k \<in> set (gq_data (pp_lru_queue p)) then fmt_u (GPOINTER_TO_INT k) else ''NULL'') @ ''], '') ks) @ [CHR 0x0A])) \<and>
    chunk_print fmt_p ks' q = Inr (
      (''Printing queue lru_queue (zone,chunk,id,in_use): '' @
        concat (map (\<lambda>(z, c). ''('' @ fmt_u (of_nat z) @ '','' @ fmt_u (of_nat c) @ '','' @
          fmt_u (zp_id (ez_chunks (pool_zone q z) ! c)) @ '',true), '') (chunk_order q)) @ [CHR 0x0A]) @
      (''hash table chunk_to_lru_map (id,zone,chunk,in_use): '' @
        concat (map (\<lambda>(z, c). ''['' @ fmt_p (GPair (z, c)) @ '': '' @
          (if (z, c) \<in> set (chunk_order q) then pair_text (ez_chunks (pool_zone q z) ! c) else ''(NULL)'') @ ''], '') ks') @ [CHR 0x0A])) \<and>
    zsm_print st = Inr (''Printing queue active queue (zone,chunk,state): '' @
      concat (map (\<lambda>z. ''('' @ fmt_d (of_nat z) @ '','' @ fmt_d (zz_chunk_offset (zone_at st z)) @ '',ACTIVE), '') (zs_active st)) @ [CHR 0x0A])"
  by (intro conjI promotional_print_ok [OF assms(1)] chunk_print_ok [OF assms(2)] zsm_print_ok [OF assms(3)])

definition one_zone_queued :: zn_policy_promotional where
  "one_zone_queued = projr (zn_policy_promotional_update (pair_at 5 1) ZN_WRITE (promotional_init 2))"

theorem debug_output_type_correct_witness:
  "promotional_print (\<lambda>_. ''p'') [5, 6] one_zone_queued = Inr (
      (''Printing queue lru_queue: '' @ concat (map (\<lambda>z. fmt_d z @ '' '') (prom_order one_zone_queued)) @ [CHR 0x0A]) @
      (''hash table zone_to_lru_map: '' @ concat (map (\<lambda>k. ''['' @ fmt_d (GPOINTER_TO_INT k) @ '': '' @
         (if k \<in> set (gq_data (pp_lru_queue one_zone_queued)) then fmt_u (GPOINTER_TO_INT k) else ''NULL'') @ ''], '') [5, 6]) @ [CHR 0x0A])) \<and>
    chunk_print (\<lambda>_. ''p'') [(0, 0), (0, 1)] sample_chunk_one = Inr (
      (''Printing queue lru_queue (zone,chunk,id,in_use): '' @
        concat (map (\<lambda>(z, c). ''('' @ fmt_u (of_nat z) @ '','' @ fmt_u (of_nat c) @ '','' @
          fmt_u (zp_id (ez_chunks (pool_zone sample_chunk_one z) ! c)) @ '',true), '') (chunk_order sample_chunk_one)) @ [CHR 0x0A]) @
      (''hash table chunk_to_lru_map (id,zone,chunk,in_use): '' @
        concat (map (\<lambda>(z, c). ''['' @ ''p'' @ '': '' @
          (if (z, c) \<in> set (chunk_order sample_chunk_one) then pair_text (ez_chunks (pool_zone sample_chunk_one z) ! c) else ''(NULL)'') @
            ''], '') [(0, 0), (0, 1)]) @ [CHR 0x0A])) \<and>
    zsm_print sample_zsm = Inr (''Printing queue active queue (zone,chunk,state): '' @
      concat (map (\<lambda>z. ''('' @ fmt_d (of_nat z) @ '','' @ fmt_d (zz_chunk_offset (zone_at sample_zsm z)) @ '',ACTIVE), '')
        (zs_active sample_zsm)) @ [CHR 0x0A])"
proof (rule debug_output_type_correct [OF _ sample_chunk_one_ok(1)])
  show "prom_inv one_zone_queued"
  proof -
    have "zp_chunk_offset (pair_at 5 1) = pp_zone_max_chunks (promotional_init 2) - 1" by (simp add: pair_at_def promotional_init_def)
    from prom_fill_ok [OF prom_init_ok(1) this] show ?thesis by (auto simp: one_zone_queued_def)
  qed
  show "zsm_inv sample_zsm" using zsm_init_ok [of 8192 4096 2 3 8192 1 ZE_BACKEND_ZNS] sample_zsm_init by simp
qed

section \<open>What is printed can be read back\<close>

lemma digit_inject: "a < 10 \<Longrightarrow> b < 10 \<Longrightarrow> digits ! a = digits ! b \<longleftrightarrow> a = b"
  by (rule nth_eq_iff_index_eq) (simp_all add: digits_def)

lemma show_nat_digits: "set (show_nat n) \<subseteq> set digits"
proof (induction n rule: show_nat.induct)
  case (1 n)
  have d: "digits ! m \<in> set digits" if "m < 10" for m by (rule nth_mem) (use that in \<open>simp add: digits_def\<close>)
  show ?case
  proof (cases "n < 10")
    case True
    then show ?thesis using d [OF True] by (subst show_nat.simps) simp
  next
    case False
    have "n mod 10 < 10" by simp
    then show ?thesis using 1 [OF False] d [of "n mod 10"] False by (subst show_nat.simps) simp
  qed
qed

lemma show_nat_nonempty: "show_nat n \<noteq> []"
  by (subst show_nat.simps) simp

lemma show_nat_inject: "show_nat a = show_nat b \<longleftrightarrow> a = b"
proof (induction a arbitrary: b rule: show_nat.induct)
  case (1 a)
  show ?case
  proof (cases "a < 10"; cases "b < 10")
    assume "\<not> a < 10" "\<not> b < 10"
    then have "show_nat a = show_nat b \<longleftrightarrow> a div 10 = b div 10 \<and> a mod 10 = b mod 10"
      using 1 [of "b div 10"] by (simp add: show_nat.simps [of a] show_nat.simps [of b] digit_inject)
    then show ?thesis by (metis div_mult_mod_eq)
  qed (use show_nat_nonempty [of "a div 10"] show_nat_nonempty [of "b div 10"] in
      \<open>auto simp: show_nat.simps [of a] show_nat.simps [of b] digit_inject\<close>)
qed

text \<open>A number followed by a character that is no digit can be cut off again.\<close>

lemma show_nat_split:
  assumes "show_nat a @ c # r = show_nat b @ c' # s" and "c \<notin> set digits" and "c' \<notin> set digits"
  shows "a = b \<and> c # r = c' # s"
proof -
  have "takeWhile (\<lambda>x. x \<in> set digits) (show_nat n @ x # xs) = show_nat n" "dropWhile (\<lambda>x. x \<in> set digits) (show_nat n @ x # xs) = x # xs"
    if "x \<notin> set digits" for n x xs
    using show_nat_digits [of n] that by (auto simp: takeWhile_append2 dropWhile_append2 subset_iff)
  then show ?thesis using assms by (metis show_nat_inject)
qed

lemma fmt_u_split:
  "fmt_u a @ c # r = fmt_u b @ c' # s \<Longrightarrow> c \<notin> set digits \<Longrightarrow> c' \<notin> set digits \<Longrightarrow> a = b \<and> c # r = c' # s"
  unfolding fmt_u_def using show_nat_split [of "unat a" c r "unat b" c' s] by simp

lemma no_digits: "CHR ''-'' \<notin> set digits" "CHR '','' \<notin> set digits" "CHR '' '' \<notin> set digits"
  by (simp_all add: digits_def)

lemma show_nat_minus: "show_nat n @ r \<noteq> CHR ''-'' # s"
  using show_nat_digits [of n] show_nat_nonempty [of n] no_digits(1) by (cases "show_nat n") auto

lemma sint_inject: "sint (a :: u32) = sint b \<longleftrightarrow> a = b"
  by (rule signed_word_eqI [THEN iffI]) auto

lemma fmt_d_split:
  assumes "fmt_d a @ c # r = fmt_d b @ c' # s" and "c \<notin> set digits" and "c' \<notin> set digits"
  shows "a = b \<and> c # r = c' # s"
proof -
  have eq: "sint a < 0 \<longleftrightarrow> sint b < 0"
    using assms(1) show_nat_minus show_nat_minus [symmetric] by (auto simp: fmt_d_def split: if_splits)
  have "nat \<bar>sint a\<bar> = nat \<bar>sint b\<bar> \<and> c # r = c' # s"
    using assms eq by (auto simp: fmt_d_def abs_if split: if_splits dest!: show_nat_split)
  then show ?thesis using eq sint_inject [of a b] by (auto simp: abs_if split: if_splits)
qed

text \<open>What a node of a queue shows under a tag.\<close>

datatype shown_node = Shown_Int u32 | Shown_Zone u32 u32 zn_zone_condition | Shown_Pair zn_pair

definition node_shows :: "print_memory \<Rightarrow> print_g_queue_type \<Rightarrow> gpointer \<Rightarrow> shown_node res" where
  "node_shows H ty v = (case ty of
       PRINT_G_QUEUE_ZN_ZONE \<Rightarrow> bind_res (as_zone H v) (\<lambda>zn. Inr (Shown_Zone (zz_zone_id zn) (zz_chunk_offset zn) (zz_state zn)))
     | PRINT_G_QUEUE_ZN_PAIR \<Rightarrow> bind_res (as_pair H v) (\<lambda>zp. Inr (Shown_Pair zp))
     | PRINT_G_QUEUE_GINT \<Rightarrow> bind_res (as_int v) (\<lambda>i. Inr (Shown_Int i)))"

fun node_text :: "shown_node \<Rightarrow> string" where
  "node_text (Shown_Int i) = fmt_d i @ '' ''"
| "node_text (Shown_Zone a b st) = ''('' @ fmt_d a @ '','' @ fmt_d b @ '','' @ state_str st @ ''), ''"
| "node_text (Shown_Pair zp) = print_g_queue_zn_pair zp"

fun has_tag :: "print_g_queue_type \<Rightarrow> shown_node \<Rightarrow> bool" where
  "has_tag ty (Shown_Int i) \<longleftrightarrow> ty = PRINT_G_QUEUE_GINT"
| "has_tag ty (Shown_Zone a b st) \<longleftrightarrow> ty = PRINT_G_QUEUE_ZN_ZONE"
| "has_tag ty (Shown_Pair zp) \<longleftrightarrow> ty = PRINT_G_QUEUE_ZN_PAIR"

lemma print_node_shows: "print_node H ty v = bind_res (node_shows H ty v) (\<lambda>x. Inr (node_text x))"
  by (cases ty) (simp_all add: print_node_def node_shows_def bind_res_assoc print_g_queue_zn_zone_def)

lemma node_shows_tag: "node_shows H ty v = Inr x \<Longrightarrow> has_tag ty x"
  by (cases ty) (auto simp: node_shows_def bind_res_eq_Inr)

lemma word_split:
  "state_str a @ CHR '')'' # r = state_str b @ CHR '')'' # s \<longleftrightarrow> a = b \<and> r = s"
  "fmt_bool p @ CHR '')'' # r = fmt_bool q @ CHR '')'' # s \<longleftrightarrow> p = q \<and> r = s"
  by (cases a; cases b; auto) (auto simp: fmt_bool_def)

lemma node_text_split:
  assumes "node_text x @ r = node_text y @ s" and "has_tag ty x" and "has_tag ty y"
  shows "x = y \<and> r = s"
proof (cases x)
  case (Shown_Int i)
  then show ?thesis using assms no_digits by (cases y) (auto dest!: fmt_d_split)
next
  case (Shown_Zone a b st)
  then show ?thesis using assms no_digits by (cases y) (auto simp: word_split dest!: fmt_d_split)
next
  case (Shown_Pair zp)
  then obtain zp' where y: "y = Shown_Pair zp'" using assms(2,3) by (cases y) auto
  have "zp_zone zp = zp_zone zp' \<and> zp_chunk_offset zp = zp_chunk_offset zp' \<and> zp_id zp = zp_id zp' \<and> zp_in_use zp = zp_in_use zp' \<and> r = s"
    using assms(1) no_digits unfolding Shown_Pair y by (auto simp: print_g_queue_zn_pair_def word_split dest!: fmt_u_split)
  then show ?thesis using Shown_Pair y by simp
qed

lemma node_text_long: "2 \<le> length (node_text x)"
  using show_nat_nonempty by (cases x) (auto simp: fmt_d_def print_g_queue_zn_pair_def Suc_le_eq)

lemma node_texts_inject:
  "concat (map node_text xs) @ [c] = concat (map node_text ys) @ [c] \<Longrightarrow> list_all (has_tag ty) xs \<Longrightarrow> list_all (has_tag ty) ys \<Longrightarrow> xs = ys"
proof (induction xs arbitrary: ys)
  case Nil
  show ?case
  proof (cases ys)
    case (Cons y zs)
    then have "length [c] = length (node_text y @ concat (map node_text zs) @ [c])" using Nil(1) by simp
    then show ?thesis using node_text_long [of y] by simp
  qed simp
next
  case (Cons x xs)
  have "length (node_text x @ concat (map node_text xs) @ [c]) = length (concat (map node_text ys) @ [c])"
    by (rule arg_cong [of _ _ length]) (use Cons.prems(1) in simp)
  then obtain y zs where ys: "ys = y # zs" using node_text_long [of x] by (cases ys) simp_all
  have "node_text x @ (concat (map node_text xs) @ [c]) = node_text y @ (concat (map node_text zs) @ [c])" using Cons.prems(1) ys by simp
  from node_text_split [OF this, of ty] have "x = y" "concat (map node_text xs) @ [c] = concat (map node_text zs) @ [c]"
    using Cons.prems(2,3) ys by simp_all
  then show ?case using Cons.IH [of zs] Cons.prems(2,3) ys by simp
qed

lemma print_queue_shows:
  "print_all (print_node H ty) vs = Inr s \<Longrightarrow>
   \<exists>xs. map (node_shows H ty) vs = map Inr xs \<and> list_all (has_tag ty) xs \<and> s = concat (map node_text xs)"
proof (induction vs arbitrary: s)
  case (Cons v vs)
  then obtain x s' where "node_shows H ty v = Inr x" "print_all (print_node H ty) vs = Inr s'" "s = node_text x @ s'"
    by (auto simp: print_node_shows [of H ty v] bind_res_eq_Inr)
  moreover obtain xs where "map (node_shows H ty) vs = map Inr xs" "list_all (has_tag ty) xs" "s' = concat (map node_text xs)"
    using Cons.IH [OF calculation(2)] by blast
  ultimately show ?case by (intro exI [of _ "x # xs"]) (auto dest: node_shows_tag)
qed simp

text \<open>C30. The output of \<open>print_g_queue\<close> determines the queue: if the same tag gives the same text, the two queues
  have the same length and show the same at each place, all fields of a location and the number,
  position and condition of a zone.\<close>

theorem print_g_queue_roundtrip:
  assumes "print_g_queue H name vs ty = Inr s" and "print_g_queue H' name vs' ty = Inr s"
  shows "map (node_shows H ty) vs = map (node_shows H' ty) vs' \<and> (\<exists>xs. map (node_shows H ty) vs = map Inr xs)"
proof -
  obtain t t' where p: "print_all (print_node H ty) vs = Inr t" "print_all (print_node H' ty) vs' = Inr t'" "t @ [CHR 0x0A] = t' @ [CHR 0x0A]"
    using assms by (auto simp: print_g_queue_def bind_res_eq_Inr)
  obtain xs where x: "map (node_shows H ty) vs = map Inr xs" "list_all (has_tag ty) xs" "t = concat (map node_text xs)"
    using print_queue_shows [OF p(1)] by blast
  obtain ys where y: "map (node_shows H' ty) vs' = map Inr ys" "list_all (has_tag ty) ys" "t' = concat (map node_text ys)"
    using print_queue_shows [OF p(2)] by blast
  have "xs = ys" using node_texts_inject [OF p(3) [unfolded x(3) y(3)] x(2) y(2)] .
  then show ?thesis using x(1) y(1) by auto
qed

theorem print_g_queue_roundtrip_witness:
  "\<exists>s. print_g_queue (promotional_memory (promotional_init 4)) ''q'' [GInt 3, GInt 0] PRINT_G_QUEUE_GINT = Inr s \<and>
    map (node_shows (promotional_memory (promotional_init 4)) PRINT_G_QUEUE_GINT) [GInt 3, GInt 0] =
    map (node_shows (promotional_memory (promotional_init 2)) PRINT_G_QUEUE_GINT) [GInt 3, GNull]"
proof -
  have p: "print_g_queue (promotional_memory (promotional_init 4)) ''q'' [GInt 3, GInt 0] PRINT_G_QUEUE_GINT = Inr (''Printing queue q: 3 0 '' @ [CHR 0x0A])"
    "print_g_queue (promotional_memory (promotional_init 2)) ''q'' [GInt 3, GNull] PRINT_G_QUEUE_GINT = Inr (''Printing queue q: 3 0 '' @ [CHR 0x0A])"
    by code_simp+
  from print_g_queue_roundtrip [OF p] show ?thesis using p(1) by blast
qed

end
