(* ===== verification/Spec2Isabelle.thy ===== *)
theory Spec2Isabelle
  imports ZN_Program ZN_Print
begin

text \<open>
  A verification of ZNCache, a cache of fixed-size chunks on a zoned device. A worker thread asks the
  cache for a data identifier; the cache finds the chunk's location in the cache map and reads it, or
  takes a position in an active zone from the zone state manager, writes the chunk there and enters
  the location into the map. When free zones run out, the eviction policy chooses what to drop. A profiler
  collects metrics of all this and reports them periodically.

  \<^bold>\<open>Theories and sources.\<close>

    \<^item> \<open>ZN_Prelude\<close>: C integers as words, the result type \<open>'a res\<close> whose left side is a fault or a wait
      that never ends, checked array access, shared lemmas.
    \<^item> \<open>ZN_Backend\<close> (\<open>include/znbackend.h\<close>, \<open>include/znutil.h\<close>): shared enums, \<open>zn_pair\<close>, \<open>CHUNK_POINTER\<close>,
      the build options (\<open>zn_config\<close>) and the device interface (\<open>dev_ops\<close>).
    \<^item> \<open>ZN_Glib\<close>: the pointer casts and the linked queue, as the sources use them.
    \<^item> \<open>ZN_Disk\<close> (\<open>src/cache.c\<close>, chunk I/O): \<open>zn_read_from_disk\<close>, \<open>zn_write_out\<close>, \<open>zn_gen_write_buffer\<close>,
      \<open>zn_validate_read\<close>.
    \<^item> \<open>ZN_Cachemap\<close> (\<open>src/cachemap.c\<close>), \<open>ZN_Zone_State\<close> (\<open>src/zone_state_manager.c\<close>), \<open>ZN_Minheap\<close>
      (\<open>src/minheap.c\<close>), \<open>ZN_Promotional\<close> (\<open>src/eviction/promotional.c\<close>), \<open>ZN_Chunk_Policy\<close> and
      \<open>ZN_Chunk_Correct\<close> (\<open>src/eviction/chunk.c\<close>), \<open>ZN_Profiler\<close> (\<open>src/znprofiler.c\<close>): one component each.
    \<^item> \<open>ZN_Core\<close> and \<open>ZN_Cache\<close> (\<open>include/zncache.h\<close>, \<open>src/cache.c\<close>, \<open>src/eviction_policy.c\<close>): the cache.
    \<^item> \<open>ZN_Workload\<close> and \<open>ZN_Main\<close> (\<open>src/zncache.c\<close>, \<open>src/znutil.c\<close>): the tasks, the workload and the set-up.
    \<^item> \<open>ZN_Threads\<close>, \<open>ZN_Interleaving\<close> and \<open>ZN_Concurrency\<close> (\<open>src/cache.c\<close>, \<open>src/zncache.c\<close>): the same code as steps of
      threads that share one cache, under every schedule.
    \<^item> \<open>ZN_Metrics\<close> (\<open>src/cache.c\<close>, \<open>src/zncache.c\<close>): the same code once more with its clock readings and its calls of
      the profiler.
    \<^item> \<open>ZN_Program\<close> (\<open>src/zncache.c\<close>): the whole of \<open>main\<close>, from the options to the return value.
    \<^item> \<open>ZN_Print\<close> (\<open>src/znutil.c\<close>): the functions that print queues, tables, locations and the device, and their calls in
      the policies and the zone state manager.

  A structure of the source is a record whose fields carry a prefix of the structure's name, a
  function is a definition of the same name, and loops are recursive functions named after their
  function (\<open>read_loop\<close>, \<open>gc_loop\<close>). Every assertion, invalid access and failing library call is a branch.

  \<^bold>\<open>What is shown.\<close> \<open>ZN_Cachemap\<close>: both tables stay consistent and refine a map from identifiers to
  absent, pending or located; clearing a zone forgets exactly its identifiers. \<open>ZN_Zone_State\<close>: every
  reachable state is sound, the zones follow the life cycle free, filling, writing, full, no position
  is given to two writers, and calls succeed when the device does. \<open>ZN_Minheap\<close>: all runs are free of
  faults and the heap delivers in order, priorities changed through kept entries included.
  \<open>ZN_Promotional\<close> and \<open>ZN_Chunk_Correct\<close>: the policies are the order of last use. \<open>ZN_Disk\<close>: what a
  successful write stored, a successful read gives back, and retries end. \<open>ZN_Profiler\<close>: reports are the
  folds of the recorded history. \<open>ZN_Cache\<close> combines them in \<open>cache_inv\<close>; this theory, \<open>ZN_Workload\<close> and
  \<open>ZN_Main\<close> follow it from \<open>zn_init_cache\<close>, and from \<open>main\<close>, through every sequence of requests.

  \<open>ZN_Concurrency\<close> lets any number of workers and the eviction thread interleave. As long as no zone is
  chosen for eviction while one of its chunks still waits for its entry in the cache map (\<open>quiet_run\<close>, the
  assumption of the comment in \<open>zn_fg_evict\<close>), nothing faults, all answers are right, transfers do not
  conflict and nobody is blocked for good. The code does not ensure the assumption, and two theorems give
  schedules on which it goes wrong. \<open>ZN_Program\<close> carries this to \<open>main\<close>, which returns 0 when its threads cannot move
  any more. The other defects found are stated as theorems too.

  \<open>ZN_Metrics\<close>: with the profiler on or off a worker gives the same answers and leaves the same cache, and the
  report shows the requests served, the free zones, the size and the hit ratio of the run. \<open>ZN_Print\<close>: the
  calls that print what pointers lead to pass the tag that fits their data, so that no pointer is misread (the other
  calls print integers), and queues that are printed alike hold the same data.

  \<^bold>\<open>Interfaces.\<close> Four locales state what a client relies on: \<open>cache_index\<close> (interpreted as \<open>cm\<close> on the
  cache map), \<open>zone_allocator\<close> (\<open>zs\<close> on the zone state manager), \<open>zone_policy\<close> (\<open>pp\<close> on the promotional
  policy) and \<open>handle_pqueue\<close> (\<open>mh\<close> on the heap).

  \<^bold>\<open>Fuel.\<close> The retry loop of \<open>zn_cache_get\<close> takes at most two rounds once eviction frees a zone, hence
  \<open>2 \<le> fuel\<close> in the theorems, which show that a result is returned. The block loops of the disk
  functions get one step per byte of the chunk and one more, \<open>gc_loop\<close> one per entry of the heap, \<open>task_loop\<close>
  one per request; \<open>read_workload\<close> needs one per \<open>read\<close>, a number only the caller can bound.

  \<^bold>\<open>Parameters.\<close> \<open>dev_ops\<close> holds the calls of \<open>libzbd\<close>, \<open>pread\<close> and \<open>pwrite\<close>; \<open>device_ok\<close> says that a
  device keeps what was written and \<open>io_reliable\<close> that transfers are complete. \<open>double_ops\<close> is the
  arithmetic of doubles, \<open>main_env\<close> and \<open>run_env\<close> what the system answers to \<open>main\<close>, \<open>profile_env\<close> the clock, \<open>garbage\<close> the
  contents of memory that is allocated and not initialised, \<open>fmt_p\<close> how \<open>printf\<close> shows a pointer, and the order of the
  entries of a printed table is an argument too. Each hypothesis has a concrete instance.

  \<^bold>\<open>Interleaving.\<close> A step of a thread is a call under a mutex, an atomic operation or the transfer of one
  chunk; a transfer may count as one step because \<open>transfers_do_not_conflict\<close> holds. Schedules are
  finite sequences, so what threads do for ever is not expressed. Memory is sequentially consistent,
  also for the counters of readers, which \<open>zn_fg_evict\<close> reads without a lock.

  \<^bold>\<open>Not modelled.\<close> When the GLib main loop fires its timer; the buffering of the metrics file and the
  formatting of doubles; progress messages and the error messages on \<open>stderr\<close>; the interleaving of the profiler's
  critical sections with each other, except for the report that loses an update; \<open>zsm_get_active_zone_batch\<close>,
  whose body is an assertion; code under \<open>#ifdef UNUSED\<close>; the test programs and the
  vendored \<open>libzbd\<close>.
\<close>

section \<open>The cache as a whole\<close>

text \<open>A run from the start: what \<open>zn_init_cache\<close> and the calls that follow it give.\<close>

lemma started_run:
  assumes dev: "device_ok ops content" and sz: "init_sizes_ok cfg info chunk_sz zone_capacity buf"
    and low: "0 < EVICT_LOW_THRESH_ZONES cfg" and ids: "\<forall>i \<in> set is. id_ok i" and fuel: "2 \<le> fuel"
  shows "\<exists>c rs c' d'. zn_init_cache cfg garbage info chunk_sz zone_capacity fd ZN_EVICT_PROMOTE_ZONE be wb wm = Inr c \<and>
    cache_run cfg ops fuel buf is c d = Inr (rs, c', d') \<and> cache_ready ops content buf c' d' \<and>
    zc_chunk_sz c' = chunk_sz \<and> length rs = length is \<and>
    (\<forall>k < length is. \<forall>data. rs ! k = Some data \<longrightarrow> zn_gen_write_buffer chunk_sz (is ! k) buf = Inr data) \<and>
    (io_reliable ops \<and> zi_zone_size info mod 4096 = 0 \<and> chunk_sz mod 4096 = 0 \<and> MAX_IO cfg mod 4096 = 0 \<longrightarrow>
       aligned c' \<and> None \<notin> set rs \<and>
       (length is < 2 ^ 64 \<longrightarrow> unat (hr_hits (zc_ratio c')) + unat (hr_misses (zc_ratio c')) = length is))"
proof -
  obtain c where c: "zn_init_cache cfg garbage info chunk_sz zone_capacity fd ZN_EVICT_PROMOTE_ZONE be wb wm = Inr c"
    "cache_ready ops content buf c d" "zc_ratio c = \<lparr>hr_hits = 0, hr_misses = 0\<rparr>"
    "zc_chunk_sz c = chunk_sz" "zc_zone_size c = zi_zone_size info"
    "zc_io_size c = (if MAX_IO cfg = 0 then chunk_sz else MAX_IO cfg)"
    using zn_init_cache_ok [OF dev sz] by blast
  obtain rs c' d' where r: "cache_run cfg ops fuel buf is c d = Inr (rs, c', d')"
    "cache_ready ops content buf c' d'" "zc_static c' = zc_static c" "length rs = length is"
    "\<forall>k < length is. \<forall>data. rs ! k = Some data \<longrightarrow> zn_gen_write_buffer (zc_chunk_sz c) (is ! k) buf = Inr data"
    "io_reliable ops \<and> aligned c \<longrightarrow> None \<notin> set rs \<and>
        (unat (hr_hits (zc_ratio c)) + unat (hr_misses (zc_ratio c)) + length is < 2 ^ 64 \<longrightarrow>
         unat (hr_hits (zc_ratio c')) + unat (hr_misses (zc_ratio c')) =
           unat (hr_hits (zc_ratio c)) + unat (hr_misses (zc_ratio c)) + length is)"
    using cache_run_ok [OF dev low c(2) ids, of "fuel - 2"] unfolding fuel_two [OF fuel] by blast
  have "aligned c'" "aligned c"
    if "zi_zone_size info mod 4096 = 0 \<and> chunk_sz mod 4096 = 0 \<and> MAX_IO cfg mod 4096 = 0"
    using that c(4-6) zc_staticD(2,4,5) [OF r(3)] by (simp_all add: aligned_def)
  then show ?thesis using c r zc_staticD(2) [OF r(3)] by (intro exI [of _ c] exI [of _ rs] exI [of _ c'] exI [of _ d']) simp
qed

text \<open>C1. For every device that keeps what is written, every configuration whose sizes make sense and
  every sequence of requests, a cache built by \<open>zn_init_cache\<close> answers every request, evictions and
  failed transfers included, and every chunk it returns passes \<open>zn_validate_read\<close> for the
  identifier asked for.\<close>

theorem cache_serves_valid_data:
  assumes "device_ok ops content" and "init_sizes_ok cfg info chunk_sz zone_capacity buf"
    and "0 < EVICT_LOW_THRESH_ZONES cfg" and "\<forall>i \<in> set is. id_ok i" and "2 \<le> fuel"
  shows "\<exists>c rs c' d'. zn_init_cache cfg garbage info chunk_sz zone_capacity fd ZN_EVICT_PROMOTE_ZONE be wb wm = Inr c \<and>
    cache_run cfg ops fuel buf is c d = Inr (rs, c', d') \<and> length rs = length is \<and>
    (\<forall>k < length is. \<forall>data. rs ! k = Some data \<longrightarrow> zn_validate_read chunk_sz data (is ! k) buf = Inr 0)"
proof -
  have s: "4 \<le> unat chunk_sz" "unat chunk_sz < 2 ^ 32" "unat chunk_sz \<le> length buf"
    using assms(2) by (simp_all add: init_sizes_ok_def)
  have "zn_validate_read chunk_sz data i buf = Inr 0" if "zn_gen_write_buffer chunk_sz i buf = Inr data" for data i
    using that by (rule generated_valid [OF s])
  then show ?thesis using started_run [OF assms, of garbage fd be wb wm d] by blast
qed

theorem cache_serves_valid_data_witness:
  "\<exists>c rs c' d'. zn_init_cache default_config no_garbage two_zones 4096 8192 3 ZN_EVICT_PROMOTE_ZONE
      ZE_BACKEND_ZNS [] 0 = Inr c \<and>
    cache_run default_config ram_ops 2 (replicate 4096 7) [1, 2, 3, 4, 5, 1] c (\<lambda>_. 0) = Inr (rs, c', d') \<and>
    length rs = length [1, 2, 3, 4, 5, 1 :: u32] \<and>
    (\<forall>k < length [1, 2, 3, 4, 5, 1 :: u32]. \<forall>data. rs ! k = Some data \<longrightarrow>
       zn_validate_read 4096 data ([1, 2, 3, 4, 5, 1] ! k) (replicate 4096 7) = Inr 0)"
  by (rule cache_serves_valid_data [OF ram_device_ok two_zones_sizes]) (simp_all add: default_config_def id_ok_def)

text \<open>C6. On a device whose transfers are complete and with block-aligned sizes, the cache answers every
  request with data, and hits and misses add up to the requests made.\<close>

theorem cache_always_serves:
  assumes "device_ok ops content" and "init_sizes_ok cfg info chunk_sz zone_capacity buf"
    and "0 < EVICT_LOW_THRESH_ZONES cfg" and "\<forall>i \<in> set is. id_ok i" and "2 \<le> fuel"
    and "io_reliable ops" and "zi_zone_size info mod 4096 = 0" and "chunk_sz mod 4096 = 0" and "MAX_IO cfg mod 4096 = 0"
    and "length is < 2 ^ 64"
  shows "\<exists>c rs c' d'. zn_init_cache cfg garbage info chunk_sz zone_capacity fd ZN_EVICT_PROMOTE_ZONE be wb wm = Inr c \<and>
    cache_run cfg ops fuel buf is c d = Inr (rs, c', d') \<and>
    map Some (map projr (map (\<lambda>i. zn_gen_write_buffer chunk_sz i buf) is)) = rs \<and>
    unat (hr_hits (zc_ratio c')) + unat (hr_misses (zc_ratio c')) = length is"
proof -
  obtain c rs c' d' where r: "zn_init_cache cfg garbage info chunk_sz zone_capacity fd ZN_EVICT_PROMOTE_ZONE be wb wm = Inr c"
    "cache_run cfg ops fuel buf is c d = Inr (rs, c', d')" "length rs = length is"
    "\<forall>k < length is. \<forall>data. rs ! k = Some data \<longrightarrow> zn_gen_write_buffer chunk_sz (is ! k) buf = Inr data"
    "None \<notin> set rs" "unat (hr_hits (zc_ratio c')) + unat (hr_misses (zc_ratio c')) = length is"
    using started_run [OF assms(1-5), of garbage fd be wb wm d] assms(6-10) by blast
  have "Some (projr (zn_gen_write_buffer chunk_sz (is ! k) buf)) = rs ! k" if "k < length is" for k
  proof -
    have "rs ! k \<noteq> None" using r(3,5) that by (metis nth_mem)
    then obtain data where "rs ! k = Some data" by blast
    then show ?thesis using r(4) that by simp
  qed
  then have "map Some (map projr (map (\<lambda>i. zn_gen_write_buffer chunk_sz i buf) is)) = rs"
    by (intro nth_equalityI) (simp_all add: r(3))
  then show ?thesis using r by blast
qed

theorem cache_always_serves_witness:
  "\<exists>c rs c' d'. zn_init_cache default_config no_garbage two_zones 4096 8192 3 ZN_EVICT_PROMOTE_ZONE
      ZE_BACKEND_ZNS [] 0 = Inr c \<and>
    cache_run default_config ram_ops 2 (replicate 4096 7) [1, 2, 3, 4, 5, 1] c (\<lambda>_. 0) = Inr (rs, c', d') \<and>
    map Some (map projr (map (\<lambda>i. zn_gen_write_buffer 4096 i (replicate 4096 7)) [1, 2, 3, 4, 5, 1])) = rs \<and>
    unat (hr_hits (zc_ratio c')) + unat (hr_misses (zc_ratio c')) = length [1, 2, 3, 4, 5, 1 :: u32]"
  by (rule cache_always_serves [OF ram_device_ok two_zones_sizes])
    (simp_all add: default_config_def id_ok_def ram_io_reliable)

text \<open>C7. A chunk that a request brought in is found by the next request for it: the answer is a hit, and
  on a device whose transfers are complete it is the same data.\<close>

theorem cache_get_then_hit:
  assumes "device_ok ops content" and "cache_ready ops content buf c d"
    and "0 < EVICT_LOW_THRESH_ZONES cfg" and "id_ok i" and "2 \<le> fuel"
    and "zn_cache_get cfg ops fuel i buf c d = Inr (Some data, c1, d1)"
  shows "\<exists>r c2 d2. zn_cache_get cfg ops fuel i buf c1 d1 = Inr (r, c2, d2) \<and>
    zc_ratio c2 = (zc_ratio c1)\<lparr>hr_hits := hr_hits (zc_ratio c1) + 1\<rparr> \<and>
    (io_reliable ops \<and> aligned c \<longrightarrow> r = Some data)"
proof -
  have g1: "cache_ready ops content buf c1 d1" "zc_static c1 = zc_static c"
    "zn_gen_write_buffer (zc_chunk_sz c1) i buf = Inr data" "cached c1 i"
    using zn_cache_get_ok [OF assms(1-4), of "fuel - 2"] assms(6) unfolding fuel_two [OF assms(5)] by auto
  obtain r c2 d2 where g2: "zn_cache_get cfg ops fuel i buf c1 d1 = Inr (r, c2, d2)" "zc_static c2 = zc_static c1"
    "\<forall>data. r = Some data \<longrightarrow> zn_gen_write_buffer (zc_chunk_sz c2) i buf = Inr data"
    "zc_ratio c2 = (zc_ratio c1)\<lparr>hr_hits := hr_hits (zc_ratio c1) + 1\<rparr>"
    "r = None \<longrightarrow> \<not> (io_reliable ops \<and> aligned c1)"
    using zn_cache_get_ok [OF assms(1) g1(1) assms(3,4), of "fuel - 2"] g1(4) unfolding fuel_two [OF assms(5)] by blast
  have "aligned c1 = aligned c" using zc_staticD [OF g1(2)] by (simp add: aligned_def)
  then have "r = Some data" if "io_reliable ops \<and> aligned c"
    using that g2(3,5) g1(3) zc_staticD(2) [OF g2(2)] by (cases r) auto
  then show ?thesis using g2(1,4) by blast
qed

theorem cache_get_then_hit_witness:
  "\<exists>data c1 d1 r c2 d2. zn_cache_get default_config ram_ops 2 9 (replicate 4 7) tiny_start (\<lambda>_. 0) = Inr (Some data, c1, d1) \<and>
    zn_cache_get default_config ram_ops 2 9 (replicate 4 7) c1 d1 = Inr (r, c2, d2) \<and>
    zc_ratio c2 = (zc_ratio c1)\<lparr>hr_hits := hr_hits (zc_ratio c1) + 1\<rparr>"
proof -
  have "case zn_cache_get default_config ram_ops 2 9 (replicate 4 7) tiny_start (\<lambda>_. 0) of
      Inr (Some _, _) \<Rightarrow> True | _ \<Rightarrow> False" by code_simp
  then obtain data c1 d1 where
    g: "zn_cache_get default_config ram_ops 2 9 (replicate 4 7) tiny_start (\<lambda>_. 0) = Inr (Some data, c1, d1)"
    by (auto split: sum.splits option.splits)
  show ?thesis using g
      cache_get_then_hit [OF ram_device_ok _ default_low _ _ g] tiny_start_ok [OF ram_device_ok]
    by (auto simp: id_ok_def)
qed

text \<open>C8. When a request fails, nothing of it stays: the cache is consistent, an identifier that was not
  cached is still not cached (its waiting entry is gone), and neither counter has moved.\<close>

theorem cache_failed_get_leaves_no_trace:
  assumes "device_ok ops content" and "cache_ready ops content buf c d"
    and "0 < EVICT_LOW_THRESH_ZONES cfg" and "id_ok i" and "2 \<le> fuel" and "\<not> cached c i"
    and "zn_cache_get cfg ops fuel i buf c d = Inr (None, c1, d1)"
  shows "cache_ready ops content buf c1 d1 \<and> cm_slot (zc_cache_map c1) i = Absent \<and> zc_ratio c1 = zc_ratio c"
proof -
  have g: "cache_ready ops content buf c1 d1" "\<not> cached c1 i" "zc_ratio c1 = zc_ratio c"
    using zn_cache_get_ok [OF assms(1-4), of "fuel - 2"] assms(6,7) unfolding fuel_two [OF assms(5)] by auto
  moreover have "cm_slot (zc_cache_map c1) i \<noteq> Pending" using g(1) by (auto simp: cache_ready_def cache_inv_def)
  ultimately show ?thesis by (cases "cm_slot (zc_cache_map c1) i") (auto simp: cached_def)
qed

theorem cache_failed_get_leaves_no_trace_witness:
  "\<exists>c1 d1. zn_cache_get default_config no_write_ops 2 9 (replicate 4 7) tiny_start (\<lambda>_. 0) = Inr (None, c1, d1) \<and>
    cm_slot (zc_cache_map c1) 9 = Absent \<and> zc_ratio c1 = zc_ratio tiny_start"
proof -
  have "case zn_cache_get default_config no_write_ops 2 9 (replicate 4 7) tiny_start (\<lambda>_. 0) of
      Inr (None, _) \<Rightarrow> True | _ \<Rightarrow> False" by code_simp
  then obtain c1 d1 where
    g: "zn_cache_get default_config no_write_ops 2 9 (replicate 4 7) tiny_start (\<lambda>_. 0) = Inr (None, c1, d1)"
    by (auto split: sum.splits option.splits)
  show ?thesis using g tiny_start_ok [OF no_write_device_ok]
      cache_failed_get_leaves_no_trace [OF no_write_device_ok _ default_low _ _ _ g]
    by (auto simp: id_ok_def)
qed

text \<open>C9. \<open>zn_fg_evict\<close> evicts exactly the least recently used zones, as many as are missing to the low
  threshold or as there are: these zones become free, the identifiers located in them are forgotten,
  every other identifier keeps its place, and the cache stays consistent.\<close>

theorem fg_evict_exact:
  assumes "device_ok ops content" and "cache_ready ops content buf c d"
    and "zc_eviction_policy c = Promotional p"
    and "n = unat (EVICT_LOW_THRESH_ZONES cfg - zsm_get_num_free_zones (zc_zone_state c))"
  shows "\<exists>p' c' d'. zn_fg_evict cfg ops c d = Inr (c', d') \<and> cache_ready ops content buf c' d' \<and>
    zc_eviction_policy c' = Promotional p' \<and> prom_order p' = drop n (prom_order p) \<and>
    (\<forall>i q. cm_slot (zc_cache_map c') i = Located q \<longleftrightarrow>
       cm_slot (zc_cache_map c) i = Located q \<and> zp_zone q \<notin> set (take n (prom_order p))) \<and>
    (\<forall>z. zview (zc_zone_state c') z =
       (if z \<in> unat ` set (take n (prom_order p)) then Free else zview (zc_zone_state c) z))"
proof -
  have inv: "cache_inv ops content buf {} None p c d" "0 < unat (zc_nr_zones c)"
    using assms(2,3) by (auto simp: cache_ready_def)
  obtain p' c' d' where e: "fg_evict_zones (NDEBUG cfg) ops n p c d = Inr (c', d')"
    "zc_eviction_policy c' = Promotional p'" "cache_inv ops content buf {} None p' c' d'"
    "zc_static c' = zc_static c" "prom_order p' = drop n (prom_order p)"
    "cm_slot (zc_cache_map c') = fold evict_slots (take n (prom_order p)) (cm_slot (zc_cache_map c))"
    "zview (zc_zone_state c') =
        (\<lambda>z. if z \<in> unat ` set (take n (prom_order p)) then Free else zview (zc_zone_state c) z)"
    using fg_evict_zones_ok [OF assms(1) inv(1), of "NDEBUG cfg" n] by blast
  have "fold evict_slots zs s i = Located q \<longleftrightarrow> s i = Located q \<and> zp_zone q \<notin> set zs" for zs s i q
    by (induction zs arbitrary: s) auto
  moreover have "cache_ready ops content buf c' d'"
    using e(2,3) inv(2) zc_staticD(1) [OF e(4)] by (auto simp: cache_ready_def)
  ultimately show ?thesis using e assms(3,4) by (auto simp: zn_fg_evict_def Let_def)
qed

theorem fg_evict_exact_witness:
  "\<exists>rs c d p p' c' d'. cache_run default_config ram_ops 2 (replicate 4 7) [1, 2, 3] tiny_start (\<lambda>_. 0) = Inr (rs, c, d) \<and>
    zc_eviction_policy c = Promotional p \<and> prom_order p = [0] \<and>
    zn_fg_evict default_config ram_ops c d = Inr (c', d') \<and>
    zc_eviction_policy c' = Promotional p' \<and> prom_order p' = [] \<and>
    (\<forall>q. cm_slot (zc_cache_map c') 1 = Located q \<longrightarrow> zp_zone q \<noteq> 0)"
proof -
  have ids: "\<forall>i \<in> set [1, 2, 3]. id_ok i" by (simp add: id_ok_def)
  obtain rs c d where r: "cache_run default_config ram_ops 2 (replicate 4 7) [1, 2, 3] tiny_start (\<lambda>_. 0) = Inr (rs, c, d)"
    "cache_ready ram_ops (\<lambda>d. d) (replicate 4 7) c d"
    using cache_run_ok [OF ram_device_ok default_low, of "replicate 4 7" tiny_start "\<lambda>_. 0" "[1, 2, 3]" 0]
      tiny_start_ok [OF ram_device_ok] ids unfolding numeral_2_eq_2 by blast
  have "case cache_run default_config ram_ops 2 (replicate 4 7) [1, 2, 3] tiny_start (\<lambda>_. 0) of
      Inr (_, c, _) \<Rightarrow> zsm_get_num_free_zones (zc_zone_state c) = 0 \<and>
        (case zc_eviction_policy c of Promotional p \<Rightarrow> prom_order p = [0] | _ \<Rightarrow> False)
    | _ \<Rightarrow> False" by code_simp
  then obtain p where p: "zc_eviction_policy c = Promotional p" "prom_order p = [0]"
    "zsm_get_num_free_zones (zc_zone_state c) = 0" using r(1) by (auto split: zn_evict_policy.splits)
  then show ?thesis using r(1) fg_evict_exact [OF ram_device_ok r(2) p(1), of 4 default_config]
    by (auto simp: default_config_def)
qed

end
